(* ===== verification/Xv6_Prelude.thy ===== *)
theory Xv6_Prelude
  imports Main "HOL-Library.Word"
begin

text \<open>
  The shared vocabulary of the development.

  \<^item> The machine integers of \<^verbatim>\<open>src/xv6/types.h\<close> as words.
  \<^item> The outcome of a kernel routine: \<open>Ok\<close> with a value and the new state, \<open>Panic\<close> with
    the message given to \<^verbatim>\<open>panic()\<close>, or \<open>Blocked\<close> with the state in which the calling
    thread went to sleep. \<open>kbind\<close> sequences routines the way C statements follow each
    other: a panic or a block ends the sequence.
  \<^item> The constants of \<^verbatim>\<open>src/xv6/param.h\<close> and \<^verbatim>\<open>src/xv6/fs.h\<close>.
  \<^item> Little-endian 16 and 32 bit loads and stores on byte memories, with their
    read-over-write laws, and generic facts on lists and counting loops.
\<close>

unbundle bit_operations_syntax

subsection \<open>Machine integers\<close>

type_synonym u8 = "8 word"
type_synonym u16 = "16 word"
type_synonym u32 = "32 word"

lemma uint_eq_uint [simp]: "uint a = uint b \<longleftrightarrow> a = b"
  by (simp add: word_uint_eq_iff)

lemma uint_eq_zero [simp]: "uint a = 0 \<longleftrightarrow> a = 0"
  by (rule uint_0_iff)

lemma int_card_Diff: "finite A \<Longrightarrow> a \<in> A \<Longrightarrow> int (card (A - {a})) = int (card A) - 1"
  by (metis card_Suc_Diff1 add_diff_cancel_left' of_nat_Suc)

subsection \<open>Collections of facts\<close>

named_theorems kmonad \<open>unfolding of the kernel monad\<close>
named_theorems xv6_const \<open>values of the constants of the C headers\<close>

subsection \<open>Outcomes and sequencing\<close>

datatype ('a, 's) res = Ok 'a 's | Panic string | Blocked 's

type_synonym ('a, 's) kop = "'s \<Rightarrow> ('a, 's) res"

definition kret :: "'a \<Rightarrow> ('a, 's) kop" where
  "kret a = (\<lambda>s. Ok a s)"

definition kpanic :: "string \<Rightarrow> ('a, 's) kop" where
  "kpanic msg = (\<lambda>s. Panic msg)"

definition kbind :: "('a, 's) kop \<Rightarrow> ('a \<Rightarrow> ('b, 's) kop) \<Rightarrow> ('b, 's) kop" where
  "kbind m f = (\<lambda>s. case m s of Ok a s' \<Rightarrow> f a s' | Panic e \<Rightarrow> Panic e | Blocked s' \<Rightarrow> Blocked s')"

definition kthen :: "('a, 's) kop \<Rightarrow> ('b, 's) kop \<Rightarrow> ('b, 's) kop" where
  "kthen m n = kbind m (\<lambda>_. n)"

definition kget :: "('s \<Rightarrow> 'a) \<Rightarrow> ('a, 's) kop" where
  "kget f = (\<lambda>s. Ok (f s) s)"

definition kmod :: "('s \<Rightarrow> 's) \<Rightarrow> (unit, 's) kop" where
  "kmod f = (\<lambda>s. Ok () (f s))"

text \<open>A C \<^verbatim>\<open>for\<close> loop over the elements of an array, each visited once, in order.\<close>

fun kfor :: "'i list \<Rightarrow> ('i \<Rightarrow> (unit, 's) kop) \<Rightarrow> (unit, 's) kop" where
  "kfor [] body = kret ()"
| "kfor (i # is) body = kthen (body i) (kfor is body)"

lemma kret_apply [simp, kmonad]: "kret a s = Ok a s"
  by (simp add: kret_def)

lemma kpanic_apply [simp, kmonad]: "kpanic e s = Panic e"
  by (simp add: kpanic_def)

lemma kget_apply [simp, kmonad]: "kget f s = Ok (f s) s"
  by (simp add: kget_def)

lemma kmod_apply [simp, kmonad]: "kmod f s = Ok () (f s)"
  by (simp add: kmod_def)

lemma kbind_apply [kmonad]:
  "kbind m f s = (case m s of Ok a s' \<Rightarrow> f a s' | Panic e \<Rightarrow> Panic e | Blocked s' \<Rightarrow> Blocked s')"
  by (simp add: kbind_def)

lemma kthen_apply [kmonad]:
  "kthen m n s = (case m s of Ok a s' \<Rightarrow> n s' | Panic e \<Rightarrow> Panic e | Blocked s' \<Rightarrow> Blocked s')"
  by (simp add: kthen_def kbind_def)

lemma kbind_Ok [simp]: "m s = Ok a s' \<Longrightarrow> kbind m f s = f a s'"
  by (simp add: kbind_def)

lemma kthen_Ok [simp]: "m s = Ok a s' \<Longrightarrow> kthen m n s = n s'"
  by (simp add: kthen_def)

lemma kbind_Panic [simp]: "m s = Panic e \<Longrightarrow> kbind m f s = Panic e"
  by (simp add: kbind_def)

lemma kthen_Panic [simp]: "m s = Panic e \<Longrightarrow> kthen m n s = Panic e"
  by (simp add: kthen_def)

lemma kbind_OkE:
  assumes "kbind m f s = Ok b t"
  obtains a s' where "m s = Ok a s'" and "f a s' = Ok b t"
  using assms by (auto simp: kbind_def split: res.splits)

lemma kthen_OkE:
  assumes "kthen m n s = Ok b t"
  obtains a s' where "m s = Ok a s'" and "n s' = Ok b t"
  using assms by (auto simp: kthen_def elim: kbind_OkE)

lemma kfor_append: "kfor (xs @ ys) body = kthen (kfor xs body) (kfor ys body)"
  by (induction xs) (auto simp: fun_eq_iff kthen_apply kret_def split: res.splits)

subsection \<open>Constants of param.h and fs.h\<close>

definition NPROC :: nat where "NPROC = 64"
definition NOFILE :: nat where "NOFILE = 16"
definition NFILE :: nat where "NFILE = 100"
definition NINODE :: nat where "NINODE = 50"
definition NDEV :: nat where "NDEV = 10"
definition ROOTDEV :: nat where "ROOTDEV = 1"
definition MAXARG :: nat where "MAXARG = 32"
definition MAXOPBLOCKS :: nat where "MAXOPBLOCKS = 10"
definition LOGSIZE :: nat where "LOGSIZE = MAXOPBLOCKS * 3"
definition NBUF :: nat where "NBUF = MAXOPBLOCKS * 3"
definition FSSIZE :: nat where "FSSIZE = 1000"
definition BSIZE :: nat where "BSIZE = 512"
definition ROOTINO :: nat where "ROOTINO = 1"
definition NDIRECT :: nat where "NDIRECT = 12"
definition NINDIRECT :: nat where "NINDIRECT = BSIZE div 4"
definition MAXFILE :: nat where "MAXFILE = NDIRECT + NINDIRECT"
definition DIRSIZ :: nat where "DIRSIZ = 14"

lemmas xv6_sizes [xv6_const] =
  NPROC_def NOFILE_def NFILE_def NINODE_def NDEV_def ROOTDEV_def MAXARG_def
  MAXOPBLOCKS_def LOGSIZE_def NBUF_def FSSIZE_def BSIZE_def ROOTINO_def
  NDIRECT_def NINDIRECT_def MAXFILE_def DIRSIZ_def

subsection \<open>Byte memories\<close>

text \<open>An array of bytes, indexed from 0; a disk block, a page and the address space of a
  C string routine are all of this type.\<close>

type_synonym bytes = "nat \<Rightarrow> u8"

definition rd16 :: "bytes \<Rightarrow> nat \<Rightarrow> u16" where
  "rd16 m a = ucast (m a) OR push_bit 8 (ucast (m (a + 1)))"

definition wr16 :: "bytes \<Rightarrow> nat \<Rightarrow> u16 \<Rightarrow> bytes" where
  "wr16 m a v = m(a := ucast v, a + 1 := ucast (drop_bit 8 v))"

definition rd32 :: "bytes \<Rightarrow> nat \<Rightarrow> u32" where
  "rd32 m a = ucast (m a) OR push_bit 8 (ucast (m (a + 1)))
     OR push_bit 16 (ucast (m (a + 2))) OR push_bit 24 (ucast (m (a + 3)))"

definition wr32 :: "bytes \<Rightarrow> nat \<Rightarrow> u32 \<Rightarrow> bytes" where
  "wr32 m a v = m(a := ucast v, a + 1 := ucast (drop_bit 8 v),
     a + 2 := ucast (drop_bit 16 v), a + 3 := ucast (drop_bit 24 v))"

lemma bytes_of_u16:
  "ucast (ucast (v :: u16) :: u8) OR push_bit 8 (ucast (ucast (drop_bit 8 v) :: u8)) = v"
  by (rule bit_word_eqI) (auto simp: bit_simps)

lemma bytes_of_u32:
  "ucast (ucast (v :: u32) :: u8) OR push_bit 8 (ucast (ucast (drop_bit 8 v) :: u8))
     OR push_bit 16 (ucast (ucast (drop_bit 16 v) :: u8))
     OR push_bit 24 (ucast (ucast (drop_bit 24 v) :: u8)) = v"
proof (rule bit_word_eqI)
  fix n
  assume "n < LENGTH(32)"
  then consider "n < 8" | k where "n = 8 + k" "k < 8" | k where "n = 16 + k" "k < 8"
    | k where "n = 24 + k" "k < 8"
  proof -
    have "n < 8 \<or> (\<exists>k. n = 8 + k \<and> k < 8) \<or> (\<exists>k. n = 16 + k \<and> k < 8) \<or> (\<exists>k. n = 24 + k \<and> k < 8)"
      using \<open>n < LENGTH(32)\<close> by simp presburger
    then show ?thesis using that by blast
  qed
  then show "bit ((ucast (ucast v :: u8) :: u32) OR push_bit 8 (ucast (ucast (drop_bit 8 v) :: u8))
     OR push_bit 16 (ucast (ucast (drop_bit 16 v) :: u8))
     OR push_bit 24 (ucast (ucast (drop_bit 24 v) :: u8))) n \<longleftrightarrow> bit v n"
    by cases (auto simp: bit_simps)
qed

lemma rd16_wr16_same [simp]: "rd16 (wr16 m a v) a = v"
  by (simp add: rd16_def wr16_def bytes_of_u16)

lemma rd32_wr32_same [simp]: "rd32 (wr32 m a v) a = v"
  by (simp add: rd32_def wr32_def bytes_of_u32)

text \<open>The signed value of a word.\<close>

lemma sint_u32: "sint (x :: u32) = (if sint x < 0 then uint x - 2 ^ 32 else uint x)"
proof -
  have "sint x = take_bit 32 (uint x) - 2 ^ 32 * of_bool (bit (uint x) 31)"
    using signed_take_bit_eq_take_bit_minus[of 31 "uint x"] by (simp add: sint_uint)
  moreover have "take_bit 32 (uint x) = uint x" "0 \<le> uint x" "uint x < 2 ^ 32" using uint_bounded[of x] by (simp_all add: take_bit_int_eq_self)
  ultimately show ?thesis by (cases "bit (uint x) 31") auto
qed

lemma sint_small: "unat (n :: u32) < 2 ^ 31 \<Longrightarrow> sint n = int (unat n)"
proof -
  assume a: "unat n < 2 ^ 31"
  have u: "uint n = int (unat n)" by simp
  have g: "- 2147483648 \<le> sint n" using sint_greater_eq[of n] by simp
  have "sint n = uint n - 4294967296 \<or> sint n = uint n" using sint_u32[of n] by (cases "sint n < 0") simp_all
  moreover have "int (unat n) < 2147483648" using a of_nat_less_iff[of "unat n" "2 ^ 31", where 'a = int] by simp
  ultimately show ?thesis using g u by linarith
qed

text \<open>A store leaves every load of other bytes alone.\<close>

lemma wr16_other: "b < a \<or> a + 2 \<le> b \<Longrightarrow> wr16 m a v b = m b"
  by (auto simp: wr16_def)

lemma wr32_other: "b < a \<or> a + 4 \<le> b \<Longrightarrow> wr32 m a v b = m b"
  by (auto simp: wr32_def)

lemma rd16_cong:
  assumes "\<And>i. i < 2 \<Longrightarrow> m (a + i) = m' (a + i)"
  shows "rd16 m a = rd16 m' a"
  using assms[of 0] assms[of 1] by (simp add: rd16_def)

lemma rd32_cong:
  assumes "\<And>i. i < 4 \<Longrightarrow> m (a + i) = m' (a + i)"
  shows "rd32 m a = rd32 m' a"
  using assms[of 0] assms[of 1] assms[of 2] assms[of 3] by (simp add: rd32_def)

lemma rd16_wr16_other: "b + 2 \<le> a \<or> a + 2 \<le> b \<Longrightarrow> rd16 (wr16 m a v) b = rd16 m b"
  by (rule rd16_cong) (auto intro!: wr16_other)

lemma rd32_wr32_other: "b + 4 \<le> a \<or> a + 4 \<le> b \<Longrightarrow> rd32 (wr32 m a v) b = rd32 m b"
  by (rule rd32_cong) (auto intro!: wr32_other)

lemma rd16_wr32_other: "b + 2 \<le> a \<or> a + 4 \<le> b \<Longrightarrow> rd16 (wr32 m a v) b = rd16 m b"
  by (rule rd16_cong) (auto intro!: wr32_other)

lemma rd32_wr16_other: "b + 4 \<le> a \<or> a + 2 \<le> b \<Longrightarrow> rd32 (wr16 m a v) b = rd32 m b"
  by (rule rd32_cong) (auto intro!: wr16_other)

lemmas rdwr_other = rd16_wr16_other rd32_wr32_other rd16_wr32_other rd32_wr16_other

text \<open>Copying \<open>n\<close> bytes and filling with a byte, as simultaneous assignments: the meaning
  the C routines are measured against.\<close>

definition bcopy :: "bytes \<Rightarrow> nat \<Rightarrow> bytes \<Rightarrow> nat \<Rightarrow> nat \<Rightarrow> bytes" where
  "bcopy src s dst d n = (\<lambda>i. if d \<le> i \<and> i < d + n then src (s + (i - d)) else dst i)"

definition bfill :: "bytes \<Rightarrow> nat \<Rightarrow> u8 \<Rightarrow> nat \<Rightarrow> bytes" where
  "bfill m d c n = (\<lambda>i. if d \<le> i \<and> i < d + n then c else m i)"

lemma bcopy_0 [simp]: "bcopy src s dst d 0 = dst"
  by (auto simp: bcopy_def fun_eq_iff)

lemma bfill_0 [simp]: "bfill m d c 0 = m"
  by (auto simp: bfill_def fun_eq_iff)

lemma bfill_Suc: "bfill m d c (Suc n) = bfill (m(d := c)) (Suc d) c n"
  by (auto simp: bfill_def fun_eq_iff)

end
