(* ===== verification/Cstring.thy ===== *)
theory Cstring
  imports Xv6_Prelude
begin

text \<open>
  The memory and string routines of the kernel (\<^verbatim>\<open>src/xv6/string.c\<close>), those of the user
  library (\<^verbatim>\<open>src/xv6/ulib.c\<close>) and the two string instructions they use
  (\<^verbatim>\<open>src/xv6/x86.h\<close>), on a flat byte memory with addresses as natural numbers (no C
  object wraps around the end of the address space). A routine that writes returns the
  new memory. Loops bounded by a count recurse on it; the loops that run up to a NUL byte
  are partial functions, whose result is \<^const>\<open>None\<close> when there is none.

  Shown: \<open>memset\<close> and \<open>memmove\<close> implement the simultaneous fill and copy whatever the
  alignment or overlap, the user library's \<open>memmove\<close> only does for a destination that does
  not lie inside the source; \<open>strncpy\<close> and \<open>strncmp\<close> agree on what name was stored;
  \<open>safestrcpy\<close> always terminates its string within the buffer; the NUL-driven loops
  return on every C string.
\<close>

subsection \<open>Definitions\<close>

fun stosb :: "bytes \<Rightarrow> nat \<Rightarrow> u8 \<Rightarrow> nat \<Rightarrow> bytes" where
  "stosb m addr data 0 = m"
| "stosb m addr data (Suc cnt) = stosb (m(addr := data)) (addr + 1) data cnt"

fun stosl :: "bytes \<Rightarrow> nat \<Rightarrow> u32 \<Rightarrow> nat \<Rightarrow> bytes" where
  "stosl m addr data 0 = m"
| "stosl m addr data (Suc cnt) = stosl (wr32 m addr data) (addr + 4) data cnt"

definition rep_byte :: "u32 \<Rightarrow> u32" where
  "rep_byte c = push_bit 24 c OR push_bit 16 c OR push_bit 8 c OR c"

definition memset :: "bytes \<Rightarrow> nat \<Rightarrow> u32 \<Rightarrow> nat \<Rightarrow> bytes" where
  "memset m dst c n =
     (if dst mod 4 = 0 \<and> n mod 4 = 0
      then let c = c AND 0xFF in stosl m dst (rep_byte c) (n div 4)
      else stosb m dst (ucast c) n)"

fun memcmp :: "bytes \<Rightarrow> nat \<Rightarrow> nat \<Rightarrow> nat \<Rightarrow> int" where
  "memcmp m s1 s2 0 = 0"
| "memcmp m s1 s2 (Suc n) =
     (if m s1 \<noteq> m s2 then uint (m s1) - uint (m s2) else memcmp m (s1 + 1) (s2 + 1) n)"

fun move_back :: "bytes \<Rightarrow> nat \<Rightarrow> nat \<Rightarrow> nat \<Rightarrow> bytes" where
  "move_back m d s 0 = m"
| "move_back m d s (Suc n) = move_back (m(d - 1 := m (s - 1))) (d - 1) (s - 1) n"

fun move_forth :: "bytes \<Rightarrow> nat \<Rightarrow> nat \<Rightarrow> nat \<Rightarrow> bytes" where
  "move_forth m d s 0 = m"
| "move_forth m d s (Suc n) = move_forth (m(d := m s)) (d + 1) (s + 1) n"

definition memmove :: "bytes \<Rightarrow> nat \<Rightarrow> nat \<Rightarrow> nat \<Rightarrow> bytes" where
  "memmove m dst src n =
     (if src < dst \<and> src + n > dst then move_back m (dst + n) (src + n) n
      else move_forth m dst src n)"

definition memcpy :: "bytes \<Rightarrow> nat \<Rightarrow> nat \<Rightarrow> nat \<Rightarrow> bytes" where
  "memcpy m dst src n = memmove m dst src n"

fun strncmp :: "bytes \<Rightarrow> nat \<Rightarrow> nat \<Rightarrow> nat \<Rightarrow> int" where
  "strncmp m p q 0 = 0"
| "strncmp m p q (Suc n) =
     (if m p \<noteq> 0 \<and> m p = m q then strncmp m (p + 1) (q + 1) n else uint (m p) - uint (m q))"

text \<open>Both loops of \<open>strncpy\<close>: copy up to the NUL, then pad with zeros.\<close>

fun strncpy_copy :: "bytes \<Rightarrow> nat \<Rightarrow> nat \<Rightarrow> nat \<Rightarrow> bytes" where
  "strncpy_copy m s t 0 = m"
| "strncpy_copy m s t (Suc n) =
     (let m' = m(s := m t) in
      if m t \<noteq> 0 then strncpy_copy m' (s + 1) (t + 1) n else stosb m' (s + 1) 0 n)"

definition strncpy :: "bytes \<Rightarrow> nat \<Rightarrow> nat \<Rightarrow> int \<Rightarrow> bytes" where
  "strncpy m s t n = strncpy_copy m s t (nat n)"

fun safestrcpy_copy :: "bytes \<Rightarrow> nat \<Rightarrow> nat \<Rightarrow> nat \<Rightarrow> bytes" where
  "safestrcpy_copy m s t 0 = m(s := 0)"
| "safestrcpy_copy m s t (Suc n) =
     (let m' = m(s := m t) in
      if m t \<noteq> 0 then safestrcpy_copy m' (s + 1) (t + 1) n else m'(s + 1 := 0))"

definition safestrcpy :: "bytes \<Rightarrow> nat \<Rightarrow> nat \<Rightarrow> int \<Rightarrow> bytes" where
  "safestrcpy m s t n = (if n \<le> 0 then m else safestrcpy_copy m s t (nat (n - 1)))"

partial_function (option) strlen_loop :: "bytes \<Rightarrow> nat \<Rightarrow> nat \<Rightarrow> nat option" where
  "strlen_loop m s n = (if m (s + n) \<noteq> 0 then strlen_loop m s (n + 1) else Some n)"

definition strlen :: "bytes \<Rightarrow> nat \<Rightarrow> nat option" where
  "strlen m s = strlen_loop m s 0"

partial_function (option) strcpy :: "bytes \<Rightarrow> nat \<Rightarrow> nat \<Rightarrow> bytes option" where
  "strcpy m s t =
     (let m' = m(s := m t) in if m t \<noteq> 0 then strcpy m' (s + 1) (t + 1) else Some m')"

partial_function (option) strcmp :: "bytes \<Rightarrow> nat \<Rightarrow> nat \<Rightarrow> int option" where
  "strcmp m p q =
     (if m p \<noteq> 0 \<and> m p = m q then strcmp m (p + 1) (q + 1)
      else Some (uint (m p) - uint (m q)))"

text \<open>The inner option of \<open>strchr\<close> is the pointer it returns, \<^const>\<open>None\<close> for NULL.\<close>

partial_function (option) strchr :: "bytes \<Rightarrow> nat \<Rightarrow> u8 \<Rightarrow> nat option option" where
  "strchr m s c =
     (if m s \<noteq> 0 then (if m s = c then Some (Some s) else strchr m (s + 1) c) else Some None)"

partial_function (option) atoi_loop :: "bytes \<Rightarrow> nat \<Rightarrow> u32 \<Rightarrow> u32 option" where
  "atoi_loop m s n =
     (if 48 \<le> m s \<and> m s \<le> 57 then atoi_loop m (s + 1) (n * 10 + ucast (m s) - 48) else Some n)"

definition atoi :: "bytes \<Rightarrow> nat \<Rightarrow> int option" where
  "atoi m s = map_option sint (atoi_loop m s 0)"

definition ulib_memset :: "bytes \<Rightarrow> nat \<Rightarrow> u32 \<Rightarrow> nat \<Rightarrow> bytes" where
  "ulib_memset m dst c n = stosb m dst (ucast c) n"

definition ulib_memmove :: "bytes \<Rightarrow> nat \<Rightarrow> nat \<Rightarrow> int \<Rightarrow> bytes" where
  "ulib_memmove m vdst vsrc n = move_forth m vdst vsrc (nat n)"

text \<open>The bytes \<open>xs\<close>, none of them NUL, followed by a NUL, at address \<open>p\<close>.\<close>

primrec cstr :: "bytes \<Rightarrow> nat \<Rightarrow> u8 list \<Rightarrow> bool" where
  "cstr m p [] \<longleftrightarrow> m p = 0"
| "cstr m p (x # xs) \<longleftrightarrow> x \<noteq> 0 \<and> m p = x \<and> cstr m (p + 1) xs"

subsection \<open>Filling and copying\<close>

lemma stosb_bfill: "stosb m d c n = bfill m d c n"
  by (induction n arbitrary: m d) (simp_all add: bfill_Suc)

lemma low_byte: "c AND 0xFF = take_bit 8 (c :: u32)"
  by (simp add: take_bit_eq_mask mask_eq_exp_minus_1)

lemma rep_byte_byte:
  assumes "k \<in> {0, 8, 16, 24}"
  shows "(ucast (drop_bit k (rep_byte (take_bit 8 c))) :: u8) = ucast c"
proof (rule bit_word_eqI)
  fix n
  assume "n < LENGTH(8)"
  then have n: "n < 8" by simp
  have "bit (rep_byte (take_bit 8 c)) (k + n) = bit c n"
    using assms n unfolding rep_byte_def
    by (elim insertE emptyE) (simp_all add: bit_or_iff bit_push_bit_iff bit_take_bit_iff)
  with n show "bit (ucast (drop_bit k (rep_byte (take_bit 8 c))) :: u8) n = bit (ucast c :: u8) n"
    by (simp add: bit_ucast_iff bit_drop_bit_eq)
qed

lemma wr32_rep_byte: "wr32 m a (rep_byte (take_bit 8 c)) = bfill m a (ucast c) 4"
proof -
  have *: "a \<le> i \<and> i < a + 4 \<longleftrightarrow> i = a \<or> i = a + 1 \<or> i = a + 2 \<or> i = a + 3" for i
    by arith
  show ?thesis
    using rep_byte_byte[of 0 c] rep_byte_byte[of 8 c] rep_byte_byte[of 16 c] rep_byte_byte[of 24 c]
    by (simp add: wr32_def bfill_def fun_eq_iff *)
qed

lemma bfill_join: "bfill (bfill m d c k) (d + k) c n = bfill m d c (k + n)"
  by (auto simp: bfill_def fun_eq_iff)

lemma stosl_bfill: "stosl m d (rep_byte (take_bit 8 c)) n = bfill m d (ucast c) (4 * n)"
  by (induction n arbitrary: m d) (simp_all add: wr32_rep_byte bfill_join del: fun_upd_apply)

lemma move_forth_bcopy:
  "d \<le> s \<or> s + n \<le> d \<Longrightarrow> move_forth m d s n = bcopy m s m d n"
proof (induction n arbitrary: m d s)
  case 0
  then show ?case by simp
next
  case (Suc n)
  have "move_forth m d s (Suc n) = bcopy (m(d := m s)) (s + 1) (m(d := m s)) (d + 1) n"
    using Suc.prems by (simp, subst Suc.IH) auto
  also have "\<dots> = bcopy m s m d (Suc n)"
  proof
    fix i
    have "s + 1 + (i - (d + 1)) = s + (i - d)" if "d + 1 \<le> i" using that by simp
    moreover have "s + (i - d) \<noteq> d" if "d + 1 \<le> i" "i < d + Suc n" using that Suc.prems by arith
    ultimately show "bcopy (m(d := m s)) (s + 1) (m(d := m s)) (d + 1) n i = bcopy m s m d (Suc n) i"
      by (cases "i = d") (auto simp: bcopy_def)
  qed
  finally show ?case .
qed

lemma move_back_bcopy:
  "s \<le> d \<Longrightarrow> move_back m (d + n) (s + n) n = bcopy m s m d n"
proof (induction n arbitrary: m)
  case 0
  then show ?case by simp
next
  case (Suc n)
  have "move_back m (d + Suc n) (s + Suc n) (Suc n)
        = bcopy (m(d + n := m (s + n))) s (m(d + n := m (s + n))) d n"
    using Suc by simp
  also have "\<dots> = bcopy m s m d (Suc n)"
    using Suc.prems by (auto simp: bcopy_def fun_eq_iff)
  finally show ?case .
qed

text \<open>C39. The kernel's \<open>memmove\<close> copies as if all \<open>n\<close> bytes were read before any is
  written, whatever the overlap of source and destination.\<close>

theorem memmove_simultaneous: "memmove m dst src n = bcopy m src m dst n"
  by (auto simp: memmove_def move_back_bcopy move_forth_bcopy)

lemma memset_bfill: "memset m dst c n = bfill m dst (ucast c) n"
proof (cases "dst mod 4 = 0 \<and> n mod 4 = 0")
  case True
  then have "4 * (n div 4) = n" by auto
  with True show ?thesis by (simp add: memset_def Let_def low_byte stosl_bfill)
next
  case False
  then show ?thesis by (simp only: memset_def stosb_bfill if_False)
qed

text \<open>The kernel's \<open>memset\<close> stores the low byte of its argument in exactly the \<open>n\<close> bytes
  from the destination on, whether it takes the word-wise or the byte-wise path.\<close>

theorem memset_fills: "memset m dst c n = bfill m dst (ucast c) n"
  by (rule memset_bfill)

text \<open>The user library's \<open>memmove\<close> always copies upwards: it agrees with the simultaneous copy
  unless the destination starts inside the source, where it repeats the first bytes.\<close>

lemma ulib_memmove_safe:
  "vdst \<le> vsrc \<or> vsrc + nat n \<le> vdst \<Longrightarrow> ulib_memmove m vdst vsrc n = bcopy m vsrc m vdst (nat n)"
  by (simp add: ulib_memmove_def move_forth_bcopy)

lemma ulib_memmove_overlap_smears:
  "ulib_memmove (\<lambda>i. if i = 0 then 7 else 9) 1 0 2 2 = 7 \<and> bcopy (\<lambda>i. if i = 0 then 7 else 9) 0 (\<lambda>i. if i = 0 then 7 else 9) 1 2 2 = 9"
  by (simp add: ulib_memmove_def bcopy_def eval_nat_numeral)

lemma memcmp_zero_iff: "memcmp m s1 s2 n = 0 \<longleftrightarrow> (\<forall>i < n. m (s1 + i) = m (s2 + i))"
proof (induction n arbitrary: s1 s2)
  case 0
  then show ?case by simp
next
  case (Suc n)
  have "(\<forall>i < Suc n. m (s1 + i) = m (s2 + i))
        \<longleftrightarrow> m s1 = m s2 \<and> (\<forall>i < n. m (s1 + 1 + i) = m (s2 + 1 + i))"
    by (auto simp: less_Suc_eq_0_disj)
  with Suc.IH[of "s1 + 1" "s2 + 1"] show ?case
    by (simp only: memcmp.simps split: if_split) (simp del: add_Suc_right)
qed

subsection \<open>C strings\<close>

lemma cstr_end: "cstr m p xs \<Longrightarrow> m (p + length xs) = 0"
  by (induction xs arbitrary: p) fastforce+

lemma cstr_nth: "cstr m p xs \<Longrightarrow> i < length xs \<Longrightarrow> m (p + i) = xs ! i"
  by (induction xs arbitrary: p i) (force simp: less_Suc_eq_0_disj)+

lemma cstr_nonzero: "cstr m p xs \<Longrightarrow> 0 \<notin> set xs"
  by (induction xs arbitrary: p) auto

lemma cstr_cong:
  "(\<And>i. p \<le> i \<Longrightarrow> i \<le> p + length xs \<Longrightarrow> m i = m' i) \<Longrightarrow> cstr m p xs = cstr m' p xs"
  by (induction xs arbitrary: p) auto

lemma cstr_upd: "a < p \<or> p + length xs < a \<Longrightarrow> cstr (m(a := v)) p xs = cstr m p xs"
  by (rule cstr_cong) auto

lemma cstr_unique: "cstr m p xs \<Longrightarrow> cstr m p ys \<Longrightarrow> xs = ys"
proof (induction xs arbitrary: p ys)
  case Nil
  then show ?case by (cases ys) auto
next
  case (Cons x xs)
  then show ?case by (cases ys) auto
qed

lemma strlen_loop_cstr:
  assumes "cstr m p xs" and "k \<le> length xs"
  shows "strlen_loop m p k = Some (length xs)"
  using assms(2)
proof (induction rule: inc_induct)
  case base
  from assms(1) show ?case by (subst strlen_loop.simps) (simp add: cstr_end)
next
  case (step k)
  have "xs ! k \<in> set xs" using step.hyps by simp
  with assms(1) step.hyps have "m (p + k) \<noteq> 0"
    by (metis cstr_nonzero cstr_nth)
  with step.IH show ?case by (subst strlen_loop.simps) simp
qed

lemma strlen_cstr: "cstr m p xs \<Longrightarrow> strlen m p = Some (length xs)"
  by (simp add: strlen_def strlen_loop_cstr)

lemma strcmp_cstr:
  "cstr m p xs \<Longrightarrow> cstr m q ys \<Longrightarrow> \<exists>r. strcmp m p q = Some r \<and> (r = 0 \<longleftrightarrow> xs = ys)"
proof (induction xs arbitrary: p q ys)
  case Nil
  show ?case
  proof (cases ys)
    case (Cons y zs)
    with Nil have "m p = 0" "m q \<noteq> m p" by auto
    then show ?thesis by (subst strcmp.simps) (simp add: Cons)
  qed (use Nil in \<open>subst strcmp.simps, simp\<close>)
next
  case (Cons x xs)
  show ?case
  proof (cases "m p = m q")
    case True
    with Cons.prems obtain ys' where "ys = x # ys'" by (cases ys) auto
    with Cons True show ?thesis by (subst strcmp.simps) auto
  next
    case False
    with Cons.prems have "x # xs \<noteq> ys" by auto
    with False show ?thesis by (subst strcmp.simps) auto
  qed
qed

lemma strchr_cstr:
  "cstr m p xs \<Longrightarrow>
     strchr m p c = Some (if c \<in> set xs then Some (p + length (takeWhile (\<lambda>x. x \<noteq> c) xs)) else None)"
proof (induction xs arbitrary: p)
  case Nil
  then show ?case by (subst strchr.simps) simp
next
  case (Cons x xs)
  then show ?case by (subst strchr.simps) auto
qed

lemma strcpy_cstr:
  "cstr m t xs \<Longrightarrow> s + length xs < t \<or> t + length xs < s \<Longrightarrow>
     \<exists>m'. strcpy m s t = Some m' \<and> cstr m' s xs \<and> (\<forall>i. i < s \<or> s + length xs < i \<longrightarrow> m' i = m i)"
proof (induction xs arbitrary: m s t)
  case Nil
  then show ?case by (subst strcpy.simps) auto
next
  case (Cons x xs)
  define m1 where "m1 = m(s := x)"
  from Cons.prems have c: "m t = x" "x \<noteq> 0" "cstr m1 (t + 1) xs"
    by (auto simp: cstr_upd m1_def)
  have "s + 1 + length xs < t + 1 \<or> t + 1 + length xs < s + 1" using Cons.prems by auto
  from Cons.IH[OF c(3) this] obtain m' where m':
    "strcpy m1 (s + 1) (t + 1) = Some m'" "cstr m' (s + 1) xs"
    "\<forall>i. i < s + 1 \<or> s + 1 + length xs < i \<longrightarrow> m' i = m1 i"
    by blast
  have "strcpy m s t = Some m'"
    using c m'(1) by (subst strcpy.simps) (simp add: m1_def)
  moreover have "cstr m' s (x # xs)" using c(2) m'(2,3) by (simp add: m1_def)
  moreover have "\<forall>i. i < s \<or> s + length (x # xs) < i \<longrightarrow> m' i = m i"
    using m'(3) by (simp add: m1_def)
  ultimately show ?case by blast
qed

lemma strncpy_copy_cstr:
  "cstr m t xs \<Longrightarrow> s + n \<le> t \<or> t + length xs < s \<Longrightarrow>
     strncpy_copy m s t n i
     = (if s \<le> i \<and> i < s + n then (if i - s < length xs then xs ! (i - s) else 0) else m i)"
proof (induction n arbitrary: m s t xs)
  case 0
  then show ?case by auto
next
  case (Suc n)
  show ?case
  proof (cases xs)
    case Nil
    with Suc.prems show ?thesis by (simp add: stosb_bfill bfill_def)
  next
    case (Cons x ys)
    define m1 where "m1 = m(s := x)"
    from Cons Suc.prems have c: "m t = x" "x \<noteq> 0" "cstr m1 (t + 1) ys"
      by (auto simp: cstr_upd m1_def)
    have "strncpy_copy m s t (Suc n) = strncpy_copy m1 (s + 1) (t + 1) n"
      using c by (simp add: m1_def)
    moreover have "s + 1 + n \<le> t + 1 \<or> t + 1 + length ys < s + 1"
      using Suc.prems Cons by auto
    note Suc.IH[OF c(3) this]
    ultimately have *: "strncpy_copy m s t (Suc n) i = (if s + 1 \<le> i \<and> i < s + 1 + n
        then (if i - (s + 1) < length ys then ys ! (i - (s + 1)) else 0) else m1 i)"
      by simp
    consider "i < s" | "i = s" | j where "i = s + Suc j"
      by (metis add_Suc_right less_imp_Suc_add linorder_neqE_nat)
    then show ?thesis unfolding * Cons by cases (simp_all add: m1_def)
  qed
qed

text \<open>Two strings compare equal on \<open>n\<close> bytes iff their first \<open>n\<close> bytes are the same, where
  the second may be a field of \<open>n\<close> bytes with no terminator.\<close>

lemma strncmp_field_iff:
  assumes "cstr m p xs" and "0 \<notin> set ys"
    and field: "\<And>i. i < n \<Longrightarrow> m (q + i) = (if i < length ys then ys ! i else 0)"
  shows "strncmp m p q n = 0 \<longleftrightarrow> take n xs = take n ys"
  using assms
proof (induction n arbitrary: p q xs ys)
  case 0
  then show ?case by simp
next
  case (Suc n)
  have q: "m q = (case ys of [] \<Rightarrow> 0 | y # _ \<Rightarrow> y)"
    using Suc.prems(3)[of 0] by (cases ys) auto
  have tl: "m (q + 1 + i) = (if i < length (tl ys) then tl ys ! i else 0)" if "i < n" for i
    using Suc.prems(3)[of "Suc i"] that by (cases ys) auto
  show ?case
  proof (cases xs)
    case Nil
    with Suc.prems q show ?thesis by (cases ys) auto
  next
    case (Cons x xs')
    note xs = this
    show ?thesis
    proof (cases ys)
      case Nil
      with Suc.prems q xs show ?thesis by auto
    next
      case (Cons y ys')
      have "strncmp m (p + 1) (q + 1) n = 0 \<longleftrightarrow> take n xs' = take n ys'"
        using Suc.prems xs Cons tl by (intro Suc.IH) auto
      with Suc.prems q xs Cons show ?thesis by auto
    qed
  qed
qed

text \<open>A name stored with \<open>strncpy\<close> in an \<open>n\<close>-byte field, the way \<open>dirlink\<close> fills
  \<open>de.name\<close>, compares equal to exactly the names that agree with it on their first \<open>n\<close>
  bytes, and no byte outside the field changes.\<close>

theorem strncpy_strncmp_roundtrip:
  assumes "cstr m t xs" and "cstr m q ys"
    and "s + n \<le> t \<or> t + length xs < s" and "s + n \<le> q \<or> q + length ys < s"
  shows "(strncmp (strncpy m s t (int n)) q s n = 0 \<longleftrightarrow> take n ys = take n xs)
    \<and> (\<forall>i. i < s \<or> s + n \<le> i \<longrightarrow> strncpy m s t (int n) i = m i)"
proof (intro conjI allI impI)
  let ?m = "strncpy m s t (int n)"
  have at: "?m i = (if s \<le> i \<and> i < s + n then (if i - s < length xs then xs ! (i - s) else 0) else m i)" for i
    using strncpy_copy_cstr[OF assms(1,3)] by (simp add: strncpy_def)
  then show "?m i = m i" if "i < s \<or> s + n \<le> i" for i using that by auto
  have "cstr ?m q ys"
    using assms(2,4) by (subst cstr_cong[where m' = m]) (auto simp: at)
  moreover have "?m (s + i) = (if i < length xs then xs ! i else 0)" if "i < n" for i
    using that by (simp add: at)
  ultimately show "strncmp ?m q s n = 0 \<longleftrightarrow> take n ys = take n xs"
    using cstr_nonzero[OF assms(1)] by (intro strncmp_field_iff)
qed

lemma safestrcpy_copy_cstr:
  "cstr m t xs \<Longrightarrow> s + n < t \<or> t + length xs < s \<Longrightarrow>
     cstr (safestrcpy_copy m s t n) s (take n xs)
     \<and> (\<forall>i. i < s \<or> s + n < i \<longrightarrow> safestrcpy_copy m s t n i = m i)"
proof (induction n arbitrary: m s t xs)
  case 0
  then show ?case by simp
next
  case (Suc n)
  show ?case
  proof (cases xs)
    case Nil
    with Suc.prems show ?thesis by auto
  next
    case (Cons x ys)
    define m1 where "m1 = m(s := x)"
    from Cons Suc.prems have c: "m t = x" "x \<noteq> 0" "cstr m1 (t + 1) ys"
      by (auto simp: cstr_upd m1_def)
    have eq: "safestrcpy_copy m s t (Suc n) = safestrcpy_copy m1 (s + 1) (t + 1) n"
      using c by (simp add: m1_def)
    have m1: "m1 s = x" "\<And>i. i \<noteq> s \<Longrightarrow> m1 i = m i" by (auto simp: m1_def)
    have "s + 1 + n < t + 1 \<or> t + 1 + length ys < s + 1"
      using Suc.prems Cons by auto
    from Suc.IH[OF c(3) this] c(2) m1 show ?thesis unfolding eq Cons by simp
  qed
qed

text \<open>\<open>safestrcpy\<close> into a buffer of \<open>n > 0\<close> bytes leaves a NUL-terminated string there,
  the longest prefix of the source that fits, and writes nothing outside the buffer.\<close>

theorem safestrcpy_terminates_within:
  assumes "cstr m t xs" and "0 < n" and "s + n \<le> t \<or> t + length xs < s"
  shows "cstr (safestrcpy m s t (int n)) s (take (n - 1) xs)
    \<and> (\<forall>i. i < s \<or> s + n \<le> i \<longrightarrow> safestrcpy m s t (int n) i = m i)"
proof -
  have "nat (int n - 1) = n - 1" using assms(2) by simp
  moreover have "s + (n - 1) < t \<or> t + length xs < s" using assms(2,3) by auto
  note safestrcpy_copy_cstr[OF assms(1) this]
  ultimately show ?thesis using assms(2) by (auto simp: safestrcpy_def)
qed

subsection \<open>Witnesses\<close>

text \<open>The name ``ab'' at 20, the names ``abc'' at 30 and a three-byte field at 0.\<close>

definition sample_mem :: bytes where
  "sample_mem = (\<lambda>_. 0)(20 := 97, 21 := 98, 30 := 97, 31 := 98, 32 := 99)"

lemma sample_mem_strings:
  "cstr sample_mem 20 [97, 98]" "cstr sample_mem 30 [97, 98, 99]"
  by (simp_all add: sample_mem_def)

theorem strncpy_strncmp_roundtrip_witness:
  "strncmp (strncpy sample_mem 0 20 (int 3)) 30 0 3 \<noteq> 0
   \<and> strncmp (strncpy sample_mem 0 20 (int 2)) 30 0 2 = 0"
  using strncpy_strncmp_roundtrip[OF sample_mem_strings, of 0 3]
    strncpy_strncmp_roundtrip[OF sample_mem_strings, of 0 2]
  by simp

theorem safestrcpy_terminates_within_witness:
  "cstr (safestrcpy sample_mem 0 30 (int 3)) 0 [97, 98]"
  using safestrcpy_terminates_within[OF sample_mem_strings(2), of 3 0] by simp

end
