(* ===== verification/Spinlock.thy ===== *)
theory Spinlock
  imports Xv6_Prelude
begin

text \<open>
  Spin locks: \<^verbatim>\<open>src/xv6/spinlock.c\<close>, and \<^verbatim>\<open>mycpu\<close> of \<^verbatim>\<open>src/xv6/proc.c\<close>.

  The machine has the \<^verbatim>\<open>cpus\<close> array, the interrupt flag of every processor (a processor is
  known by its APIC id), the locks, and the kernel memory that \<^verbatim>\<open>getcallerpcs\<close> reads. The
  type \<open>'l\<close> of lock addresses is arbitrary. \<open>spin_acquire\<close> ends with \<open>Blocked\<close> when the
  \<^verbatim>\<open>xchg\<close> found the lock taken; the processor then retries with \<open>acquire_spin\<close>.

  \<open>acquire_code\<close> and \<open>release_code\<close> are the same routines as sequences of atomic actions, of which \<^verbatim>\<open>xchg\<close> is
  one; \<open>lock_step\<close> interleaves the actions of the processors. Its invariant gives mutual exclusion, that
  \<^verbatim>\<open>holding\<close> answers correctly, and that interrupts stay off on a processor that owns a lock. Memory is
  sequentially consistent, so \<^verbatim>\<open>__sync_synchronize\<close> has no counterpart.
  The locale \<open>lock_api\<close> states what the rest of the kernel relies on; it is interpreted for the
  concrete locks of one processor and for the lock sets \<open>klocks\<close> the other theories use.
\<close>

subsection \<open>State\<close>

record spinlock =
  lk_locked :: u32
  lk_name :: string
  lk_cpu :: "nat option"
  lk_pcs :: "nat \<Rightarrow> u32"

record cpu =
  apicid :: u8
  ncli :: int
  intena :: bool

record 'l machine =
  cpus :: "nat \<Rightarrow> cpu"
  ncpu :: nat
  eflags_IF :: "u8 \<Rightarrow> bool"
  lks :: "'l \<Rightarrow> spinlock"
  kword :: "u32 \<Rightarrow> u32"

definition KERNBASE :: u32 where "KERNBASE = 0x80000000"

subsection \<open>Operations\<close>

definition initlock :: "string \<Rightarrow> spinlock \<Rightarrow> spinlock" where
  "initlock name lk = lk\<lparr>lk_name := name, lk_locked := 0, lk_cpu := None\<rparr>"

text \<open>\<open>me\<close> is what \<^verbatim>\<open>lapicid()\<close> returns on the executing processor.\<close>

definition mycpu :: "u8 \<Rightarrow> (nat, 'l machine) kop" where
  "mycpu me = (\<lambda>s.
     if eflags_IF s me then Panic (''mycpu called with interrupts enabled'' @ [CHR 0x0A])
     else case List.find (\<lambda>i. apicid (cpus s i) = me) [0..<ncpu s] of
            Some i \<Rightarrow> Ok i s
          | None \<Rightarrow> Panic (''unknown apicid'' @ [CHR 0x0A]))"

definition cli :: "u8 \<Rightarrow> (unit, 'l machine) kop" where
  "cli me = kmod (\<lambda>s. s\<lparr>eflags_IF := (eflags_IF s)(me := False)\<rparr>)"

definition sti :: "u8 \<Rightarrow> (unit, 'l machine) kop" where
  "sti me = kmod (\<lambda>s. s\<lparr>eflags_IF := (eflags_IF s)(me := True)\<rparr>)"

definition upd_cpu :: "nat \<Rightarrow> (cpu \<Rightarrow> cpu) \<Rightarrow> 'l machine \<Rightarrow> 'l machine" where
  "upd_cpu c f s = s\<lparr>cpus := (cpus s)(c := f (cpus s c))\<rparr>"

definition upd_lk :: "'l \<Rightarrow> (spinlock \<Rightarrow> spinlock) \<Rightarrow> 'l machine \<Rightarrow> 'l machine" where
  "upd_lk l f s = s\<lparr>lks := (lks s)(l := f (lks s l))\<rparr>"

definition pushcli :: "u8 \<Rightarrow> (unit, 'l machine) kop" where
  "pushcli me =
     kbind (kget (\<lambda>s. eflags_IF s me)) (\<lambda>eflags.
     kthen (cli me) (
     kbind (mycpu me) (\<lambda>c.
     kthen (kmod (\<lambda>s. if ncli (cpus s c) = 0 then upd_cpu c (intena_update (\<lambda>_. eflags)) s else s))
       (kmod (upd_cpu c (ncli_update (\<lambda>n. n + 1)))))))"

definition popcli :: "u8 \<Rightarrow> (unit, 'l machine) kop" where
  "popcli me =
     kbind (kget (\<lambda>s. eflags_IF s me)) (\<lambda>i.
     if i then kpanic ''popcli - interruptible'' else
     kbind (mycpu me) (\<lambda>c.
     kthen (kmod (upd_cpu c (ncli_update (\<lambda>n. n - 1)))) (
     kbind (kget (\<lambda>s. cpus s c)) (\<lambda>cpu.
     if ncli cpu < 0 then kpanic ''popcli''
     else if ncli cpu = 0 \<and> intena cpu then sti me else kret ()))))"

definition spin_holding :: "u8 \<Rightarrow> 'l \<Rightarrow> (bool, 'l machine) kop" where
  "spin_holding me l =
     kthen (pushcli me) (
     kbind (mycpu me) (\<lambda>c.
     kbind (kget (\<lambda>s. lk_locked (lks s l) \<noteq> 0 \<and> lk_cpu (lks s l) = Some c)) (\<lambda>r.
     kthen (popcli me) (kret r))))"

text \<open>The frame-pointer walk: \<open>i\<close> is the loop index, \<open>k\<close> the iterations left of the ten.\<close>

fun pcs_walk :: "(u32 \<Rightarrow> u32) \<Rightarrow> nat \<Rightarrow> u32 \<Rightarrow> nat \<Rightarrow> (nat \<Rightarrow> u32) \<Rightarrow> (nat \<Rightarrow> u32)" where
  "pcs_walk mem 0 ebp i pcs = pcs"
| "pcs_walk mem (Suc k) ebp i pcs =
     (if ebp = 0 \<or> ebp < KERNBASE \<or> ebp = 0xffffffff
      then (\<lambda>j. if i \<le> j \<and> j < i + Suc k then 0 else pcs j)
      else pcs_walk mem k (mem ebp) (i + 1) (pcs(i := mem (ebp + 4))))"

definition getcallerpcs :: "(u32 \<Rightarrow> u32) \<Rightarrow> u32 \<Rightarrow> (nat \<Rightarrow> u32) \<Rightarrow> (nat \<Rightarrow> u32)" where
  "getcallerpcs mem v pcs = pcs_walk mem 10 (v - 8) 0 pcs"

text \<open>The locked exchange instruction of \<^verbatim>\<open>x86.h\<close> reads and writes the word in one step.\<close>

definition xchg :: "'l \<Rightarrow> u32 \<Rightarrow> (u32, 'l machine) kop" where
  "xchg l newval = (\<lambda>s. Ok (lk_locked (lks s l)) (upd_lk l (lk_locked_update (\<lambda>_. newval)) s))"

text \<open>One round of the \<^verbatim>\<open>xchg\<close> loop of \<^verbatim>\<open>acquire\<close> and, when it ends the loop, the rest; \<open>v\<close> is the address of the argument.\<close>

definition acquire_spin :: "u8 \<Rightarrow> u32 \<Rightarrow> 'l \<Rightarrow> (unit, 'l machine) kop" where
  "acquire_spin me v l =
     kbind (xchg l 1) (\<lambda>old.
     if old \<noteq> 0 then (\<lambda>s. Blocked s) else
     kbind (mycpu me) (\<lambda>c.
     kthen (kmod (upd_lk l (lk_cpu_update (\<lambda>_. Some c))))
       (kmod (\<lambda>s. upd_lk l (\<lambda>lk. lk\<lparr>lk_pcs := getcallerpcs (kword s) v (lk_pcs lk)\<rparr>) s))))"

definition spin_acquire :: "u8 \<Rightarrow> u32 \<Rightarrow> 'l \<Rightarrow> (unit, 'l machine) kop" where
  "spin_acquire me v l =
     kthen (pushcli me) (
     kbind (spin_holding me l) (\<lambda>h.
     if h then kpanic ''acquire'' else acquire_spin me v l))"

definition spin_release :: "u8 \<Rightarrow> 'l \<Rightarrow> (unit, 'l machine) kop" where
  "spin_release me l =
     kbind (spin_holding me l) (\<lambda>h.
     if \<not> h then kpanic ''release'' else
     kthen (kmod (upd_lk l (\<lambda>lk. lk\<lparr>lk_pcs := (lk_pcs lk)(0 := 0), lk_cpu := None\<rparr>))) (
     kthen (kmod (upd_lk l (lk_locked_update (\<lambda>_. 0)))) (popcli me)))"

definition cpu_ix :: "'l machine \<Rightarrow> u8 \<Rightarrow> nat option" where
  "cpu_ix s me = List.find (\<lambda>i. apicid (cpus s i) = me) [0..<ncpu s]"

subsection \<open>Each operation in closed form\<close>

lemma cpu_ix_inj: "cpu_ix s a = Some c \<Longrightarrow> cpu_ix s b = Some c \<Longrightarrow> a = b"
  by (auto simp: cpu_ix_def find_Some_iff)

lemma mycpu_ok [simp]: "\<not> eflags_IF s me \<Longrightarrow> cpu_ix s me = Some c \<Longrightarrow> mycpu me s = Ok c s"
  by (simp add: mycpu_def cpu_ix_def)

lemma mycpu_unknown: "\<not> eflags_IF s me \<Longrightarrow> cpu_ix s me = None \<Longrightarrow>
    mycpu me s = Panic (''unknown apicid'' @ [CHR 0x0A])"
  by (simp add: mycpu_def cpu_ix_def)

lemma cpu_ix_upd [simp]:
  "cpu_ix (upd_cpu c (ncli_update f) s) = cpu_ix s" "cpu_ix (upd_cpu c (intena_update g) s) = cpu_ix s"
  "cpu_ix (upd_lk l h s) = cpu_ix s" "cpu_ix (s\<lparr>eflags_IF := i\<rparr>) = cpu_ix s"
  by (auto simp: cpu_ix_def upd_cpu_def upd_lk_def fun_eq_iff intro!: arg_cong2[where f = List.find])

lemma upd_simps [simp]:
  "eflags_IF (upd_cpu c f s) = eflags_IF s" "lks (upd_cpu c f s) = lks s" "kword (upd_cpu c f s) = kword s"
  "cpus (upd_cpu c f s) = (cpus s)(c := f (cpus s c))"
  "eflags_IF (upd_lk l g s) = eflags_IF s" "cpus (upd_lk l g s) = cpus s" "kword (upd_lk l g s) = kword s"
  "lks (upd_lk l g s) = (lks s)(l := g (lks s l))"
  by (simp_all add: upd_cpu_def upd_lk_def)

text \<open>The state after \<^verbatim>\<open>pushcli\<close>.\<close>

definition pushed :: "u8 \<Rightarrow> nat \<Rightarrow> 'l machine \<Rightarrow> 'l machine" where
  "pushed me c s = s\<lparr>eflags_IF := (eflags_IF s)(me := False),
     cpus := (cpus s)(c := (cpus s c)\<lparr>
       intena := (if ncli (cpus s c) = 0 then eflags_IF s me else intena (cpus s c)),
       ncli := ncli (cpus s c) + 1\<rparr>)\<rparr>"

lemma pushed_simps [simp]:
  "lks (pushed me c s) = lks s" "kword (pushed me c s) = kword s" "cpu_ix (pushed me c s) = cpu_ix s"
  "eflags_IF (pushed me c s) = (eflags_IF s)(me := False)"
  "ncli (cpus (pushed me c s) d) = ncli (cpus s d) + (if d = c then 1 else 0)"
  by (auto simp: pushed_def cpu_ix_def fun_eq_iff intro!: arg_cong2[where f = List.find])

lemma pushcli_ok: "cpu_ix s me = Some c \<Longrightarrow> pushcli me s = Ok () (pushed me c s)"
  by (auto simp: pushcli_def cli_def pushed_def upd_cpu_def kthen_apply kbind_apply fun_eq_iff)

lemma popcli_inner:
  assumes "cpu_ix s me = Some c" "\<not> eflags_IF s me" "1 < ncli (cpus s c)"
  shows "popcli me s = Ok () (upd_cpu c (ncli_update (\<lambda>n. n - 1)) s)"
  using assms by (simp add: popcli_def kthen_apply kbind_apply)

lemma popcli_outer:
  assumes "cpu_ix s me = Some c" "\<not> eflags_IF s me" "ncli (cpus s c) = 1"
  shows "popcli me s = Ok () (s\<lparr>cpus := (cpus s)(c := (cpus s c)\<lparr>ncli := 0\<rparr>),
    eflags_IF := (eflags_IF s)(me := intena (cpus s c))\<rparr>)"
  using assms by (auto simp: popcli_def kthen_apply kbind_apply sti_def upd_cpu_def fun_eq_iff)

lemma spin_holding_ok:
  assumes "cpu_ix s me = Some c" "0 \<le> ncli (cpus s c)" "eflags_IF s me \<Longrightarrow> ncli (cpus s c) = 0"
  shows "spin_holding me l s = Ok (lk_locked (lks s l) \<noteq> 0 \<and> lk_cpu (lks s l) = Some c)
    (if ncli (cpus s c) = 0 then upd_cpu c (intena_update (\<lambda>_. eflags_IF s me)) s else s)"
proof (cases "ncli (cpus s c) = 0")
  case True
  have "popcli me (pushed me c s) = Ok () ((pushed me c s)\<lparr>
      cpus := (cpus (pushed me c s))(c := (cpus (pushed me c s) c)\<lparr>ncli := 0\<rparr>),
      eflags_IF := (eflags_IF (pushed me c s))(me := intena (cpus (pushed me c s) c))\<rparr>)"
    using True assms(1) by (intro popcli_outer) simp_all
  moreover have "(cpus s c)\<lparr>intena := eflags_IF s me, ncli := 0\<rparr> = (cpus s c)\<lparr>intena := eflags_IF s me\<rparr>"
    using True by (intro cpu.equality) simp_all
  ultimately have "popcli me (pushed me c s)
      = Ok () (upd_cpu c (intena_update (\<lambda>_. eflags_IF s me)) s)"
    using True by (simp add: pushed_def upd_cpu_def)
  with True assms(1) show ?thesis by (simp add: spin_holding_def pushcli_ok)
next
  case False
  with assms(3) have "\<not> eflags_IF s me" by blast
  moreover have "popcli me (pushed me c s) = Ok () (upd_cpu c (ncli_update (\<lambda>n. n - 1)) (pushed me c s))"
    using False assms(1,2) by (intro popcli_inner) simp_all
  ultimately have "popcli me (pushed me c s) = Ok () s"
    using False by (simp add: pushed_def upd_cpu_def fun_upd_idem)
  with False assms(1) show ?thesis by (simp add: spin_holding_def pushcli_ok)
qed

lemma spin_holding_nested:
  assumes "cpu_ix s me = Some c" "0 < ncli (cpus s c)" "\<not> eflags_IF s me"
  shows "spin_holding me l s = Ok (lk_locked (lks s l) \<noteq> 0 \<and> lk_cpu (lks s l) = Some c) s"
  using assms by (subst spin_holding_ok) auto

definition taken :: "nat \<Rightarrow> u32 \<Rightarrow> 'l \<Rightarrow> 'l machine \<Rightarrow> 'l machine" where
  "taken c v l s = upd_lk l (\<lambda>lk. lk\<lparr>lk_locked := 1, lk_cpu := Some c,
     lk_pcs := getcallerpcs (kword s) v (lk_pcs lk)\<rparr>) s"

lemma acquire_spin_ok:
  assumes "cpu_ix s me = Some c" "\<not> eflags_IF s me"
  shows "acquire_spin me v l s =
    (if lk_locked (lks s l) \<noteq> 0 then Blocked (upd_lk l (lk_locked_update (\<lambda>_. 1)) s)
     else Ok () (taken c v l s))"
proof -
  have "upd_lk l f (upd_lk l g s) = upd_lk l (\<lambda>lk. f (g lk)) s" for f g
    by (simp add: upd_lk_def)
  then show ?thesis
    using assms by (simp add: acquire_spin_def xchg_def taken_def kthen_apply kbind_apply)
qed

lemma spin_acquire_ok:
  assumes "cpu_ix s me = Some c" "0 \<le> ncli (cpus s c)"
  shows "spin_acquire me v l s =
    (if lk_locked (lks s l) \<noteq> 0 then
       if lk_cpu (lks s l) = Some c then Panic ''acquire''
       else Blocked (upd_lk l (lk_locked_update (\<lambda>_. 1)) (pushed me c s))
     else Ok () (taken c v l (pushed me c s)))"
  using assms by (simp add: spin_acquire_def pushcli_ok spin_holding_nested acquire_spin_ok)

lemma pushcli_unknown: "cpu_ix s me = None \<Longrightarrow> pushcli me s = Panic (''unknown apicid'' @ [CHR 0x0A])"
  by (simp add: pushcli_def cli_def mycpu_unknown)

lemma spin_acquire_cpu: "spin_acquire me v l s \<noteq> Panic (''unknown apicid'' @ [CHR 0x0A]) \<Longrightarrow> cpu_ix s me \<noteq> None"
  by (cases "cpu_ix s me") (simp_all add: spin_acquire_def pushcli_unknown)

lemma spin_release_cpu: "spin_release me l s = Ok () t \<Longrightarrow> cpu_ix s me \<noteq> None"
  by (cases "cpu_ix s me") (simp_all add: spin_release_def spin_holding_def pushcli_unknown)

definition dropped :: "u8 \<Rightarrow> nat \<Rightarrow> 'l \<Rightarrow> 'l machine \<Rightarrow> 'l machine" where
  "dropped me c l s = (upd_lk l (\<lambda>lk. lk\<lparr>lk_pcs := (lk_pcs lk)(0 := 0), lk_cpu := None, lk_locked := 0\<rparr>) s)
     \<lparr>cpus := (cpus s)(c := (cpus s c)\<lparr>ncli := ncli (cpus s c) - 1\<rparr>),
      eflags_IF := (eflags_IF s)(me := ncli (cpus s c) = 1 \<and> intena (cpus s c))\<rparr>"

lemma dropped_simps [simp]:
  "lks (dropped me c l s) = (lks s)(l := (lks s l)\<lparr>lk_pcs := (lk_pcs (lks s l))(0 := 0), lk_cpu := None, lk_locked := 0\<rparr>)"
  "cpu_ix (dropped me c l s) = cpu_ix s"
  "ncli (cpus (dropped me c l s) d) = ncli (cpus s d) - (if d = c then 1 else 0)"
  "eflags_IF (dropped me c l s) = (eflags_IF s)(me := ncli (cpus s c) = 1 \<and> intena (cpus s c))"
  by (auto simp: dropped_def cpu_ix_def upd_lk_def fun_eq_iff intro!: arg_cong2[where f = List.find])

lemma taken_simps [simp]:
  "cpu_ix (taken c v l s) = cpu_ix s" "cpus (taken c v l s) = cpus s" "eflags_IF (taken c v l s) = eflags_IF s"
  "lk_locked (lks (taken c v l s) k) = (if k = l then 1 else lk_locked (lks s k))"
  "lk_cpu (lks (taken c v l s) k) = (if k = l then Some c else lk_cpu (lks s k))"
  by (auto simp: taken_def)

lemma spin_release_ok:
  assumes "cpu_ix s me = Some c" "0 < ncli (cpus s c)" "\<not> eflags_IF s me"
  shows "spin_release me l s =
    (if lk_locked (lks s l) \<noteq> 0 \<and> lk_cpu (lks s l) = Some c then Ok () (dropped me c l s)
     else Panic ''release'')"
proof -
  let ?t = "upd_lk l (lk_locked_update (\<lambda>_. 0))
    (upd_lk l (\<lambda>lk. lk\<lparr>lk_pcs := (lk_pcs lk)(0 := 0), lk_cpu := None\<rparr>) s)"
  have "popcli me ?t = Ok () (dropped me c l s)"
  proof (cases "ncli (cpus s c) = 1")
    case True
    then have "popcli me ?t = Ok () (?t\<lparr>cpus := (cpus ?t)(c := (cpus ?t c)\<lparr>ncli := 0\<rparr>),
        eflags_IF := (eflags_IF ?t)(me := intena (cpus ?t c))\<rparr>)"
      using assms by (intro popcli_outer) simp_all
    with True show ?thesis by (simp add: dropped_def upd_lk_def)
  next
    case False
    then have "popcli me ?t = Ok () (upd_cpu c (ncli_update (\<lambda>n. n - 1)) ?t)"
      using assms by (intro popcli_inner) simp_all
    moreover have "ncli_update (\<lambda>n. n - 1) (cpus s c) = (cpus s c)\<lparr>ncli := ncli (cpus s c) - 1\<rparr>"
      by (intro cpu.equality) simp_all
    ultimately show ?thesis
      using False assms(3) by (simp add: dropped_def upd_lk_def upd_cpu_def fun_upd_idem)
  qed
  then show ?thesis using assms by (auto simp: spin_release_def spin_holding_nested)
qed

subsection \<open>The instructions\<close>

text \<open>The routines as sequences of atomic actions. An action accesses at most one shared word; the \<^verbatim>\<open>cpu\<close> structure and the interrupt
  flag belong to the executing processor, and the call-stack words of a lock to its owner. \<open>Xchg\<close> is repeated until it finds the
  word zero.\<close>

datatype mop =
  ReadIF | Cli | SaveIF | IncCli | ReadLocked | ReadCpu | CheckIF | DecCli | StiIf | PanicIf bool string
| Xchg | SetCpu | SetPcs | ClrPcs | ClrCpu | ClrLocked

definition pushcli_code :: "mop list" where
  "pushcli_code = [ReadIF, Cli, SaveIF, IncCli]"

definition popcli_code :: "mop list" where
  "popcli_code = [CheckIF, DecCli, StiIf]"

definition holding_code :: "mop list" where
  "holding_code = pushcli_code @ [ReadLocked, ReadCpu] @ popcli_code"

definition acquire_code :: "mop list" where
  "acquire_code = pushcli_code @ holding_code @ [PanicIf True ''acquire'', Xchg, SetCpu, SetPcs]"

definition release_code :: "mop list" where
  "release_code = holding_code @ [PanicIf False ''release'', ClrPcs, ClrCpu, ClrLocked] @ popcli_code"

text \<open>The local variables: \<^verbatim>\<open>eflags\<close> of \<^verbatim>\<open>pushcli\<close>, and \<^verbatim>\<open>r\<close> of \<^verbatim>\<open>holding\<close>.\<close>

record lregs =
  eflags_r :: bool
  result_r :: bool

fun exec_mop :: "u8 \<Rightarrow> u32 \<Rightarrow> 'l \<Rightarrow> mop \<Rightarrow> lregs \<Rightarrow> (lregs, 'l machine) kop" where
  "exec_mop me v l ReadIF r = kbind (kget (\<lambda>s. eflags_IF s me)) (\<lambda>f. kret (r\<lparr>eflags_r := f\<rparr>))"
| "exec_mop me v l Cli r = kthen (cli me) (kret r)"
| "exec_mop me v l SaveIF r = kbind (mycpu me) (\<lambda>c.
     kthen (kmod (\<lambda>s. if ncli (cpus s c) = 0 then upd_cpu c (intena_update (\<lambda>_. eflags_r r)) s else s)) (kret r))"
| "exec_mop me v l IncCli r = kbind (mycpu me) (\<lambda>c. kthen (kmod (upd_cpu c (ncli_update (\<lambda>n. n + 1)))) (kret r))"
| "exec_mop me v l ReadLocked r = kbind (kget (\<lambda>s. lk_locked (lks s l) \<noteq> 0)) (\<lambda>b. kret (r\<lparr>result_r := b\<rparr>))"
| "exec_mop me v l ReadCpu r = (if \<not> result_r r then kret r else kbind (mycpu me) (\<lambda>c.
     kbind (kget (\<lambda>s. lk_cpu (lks s l) = Some c)) (\<lambda>b. kret (r\<lparr>result_r := b\<rparr>))))"
| "exec_mop me v l CheckIF r = kbind (kget (\<lambda>s. eflags_IF s me)) (\<lambda>f.
     if f then kpanic ''popcli - interruptible'' else kret r)"
| "exec_mop me v l DecCli r = kbind (mycpu me) (\<lambda>c. kthen (kmod (upd_cpu c (ncli_update (\<lambda>n. n - 1)))) (
     kbind (kget (\<lambda>s. ncli (cpus s c))) (\<lambda>n. if n < 0 then kpanic ''popcli'' else kret r)))"
| "exec_mop me v l StiIf r = kbind (mycpu me) (\<lambda>c. kbind (kget (\<lambda>s. cpus s c)) (\<lambda>cpu.
     kthen (if ncli cpu = 0 \<and> intena cpu then sti me else kret ()) (kret r)))"
| "exec_mop me v l (PanicIf b e) r = (if result_r r = b then kpanic e else kret r)"
| "exec_mop me v l Xchg r = kbind (xchg l 1) (\<lambda>old. if old \<noteq> 0 then (\<lambda>s. Blocked s) else kret r)"
| "exec_mop me v l SetCpu r = kbind (mycpu me) (\<lambda>c. kthen (kmod (upd_lk l (lk_cpu_update (\<lambda>_. Some c)))) (kret r))"
| "exec_mop me v l SetPcs r = kthen (kmod (\<lambda>s. upd_lk l (\<lambda>lk. lk\<lparr>lk_pcs := getcallerpcs (kword s) v (lk_pcs lk)\<rparr>) s)) (kret r)"
| "exec_mop me v l ClrPcs r = kthen (kmod (upd_lk l (\<lambda>lk. lk\<lparr>lk_pcs := (lk_pcs lk)(0 := 0)\<rparr>))) (kret r)"
| "exec_mop me v l ClrCpu r = kthen (kmod (upd_lk l (lk_cpu_update (\<lambda>_. None)))) (kret r)"
| "exec_mop me v l ClrLocked r = kthen (kmod (upd_lk l (lk_locked_update (\<lambda>_. 0)))) (kret r)"

primrec run_mops :: "u8 \<Rightarrow> u32 \<Rightarrow> 'l \<Rightarrow> mop list \<Rightarrow> lregs \<Rightarrow> (lregs, 'l machine) kop" where
  "run_mops me v l [] r = kret r"
| "run_mops me v l (i # is) r = kbind (exec_mop me v l i r) (run_mops me v l is)"

text \<open>Run by one processor without interruption they are the routines above.\<close>

lemma kbind_assoc: "kbind (kbind a f) g = kbind a (\<lambda>x. kbind (f x) g)"
  by (simp add: fun_eq_iff kbind_apply split: res.split)

lemma run_mops_append: "run_mops me v l (is @ js) r = kbind (run_mops me v l is r) (run_mops me v l js)"
  by (induction "is" arbitrary: r) (simp_all add: fun_eq_iff kbind_apply split: res.split)

lemma pushcli_code_runs: "run_mops me v l pushcli_code r s =
    kbind (pushcli me) (\<lambda>_. kret (r\<lparr>eflags_r := eflags_IF s me\<rparr>)) s"
  by (cases "cpu_ix s me")
    (auto simp: pushcli_code_def pushcli_def cli_def kbind_apply kthen_apply mycpu_unknown)

lemma popcli_code_runs: "run_mops me v l popcli_code r s = kbind (popcli me) (\<lambda>_. kret r) s"
  by (cases "eflags_IF s me"; cases "cpu_ix s me")
    (auto simp: popcli_code_def popcli_def sti_def kbind_apply kthen_apply mycpu_unknown)

lemma holding_code_runs: "kbind (run_mops me v l holding_code r) (\<lambda>r. kret (result_r r)) s = spin_holding me l s"
proof (cases "cpu_ix s me")
  case None
  then show ?thesis by (simp add: holding_code_def run_mops_append kbind_apply pushcli_code_runs spin_holding_def pushcli_unknown)
next
  case (Some c)
  then show ?thesis
    by (auto simp: holding_code_def run_mops_append kbind_apply kthen_apply pushcli_code_runs pushcli_ok popcli_code_runs spin_holding_def
        split: res.split)
qed

lemma holding_then: "kbind (run_mops me v l holding_code r) (\<lambda>r. F (result_r r)) s = kbind (spin_holding me l) F s"
  unfolding holding_code_runs[of me v l r, symmetric] by (simp add: kbind_apply split: res.split)

lemma acquire_code_runs: "kbind (run_mops me v l acquire_code r) (\<lambda>_. kret ()) s = spin_acquire me v l s"
proof -
  have tail: "kbind (run_mops me v l [PanicIf True ''acquire'', Xchg, SetCpu, SetPcs] r) (\<lambda>_. kret ()) =
      (\<lambda>h. if h then kpanic ''acquire'' else acquire_spin me v l) (result_r r)" for r
    by (auto simp: fun_eq_iff acquire_spin_def xchg_def kbind_apply kthen_apply split: res.split)
  have "kbind (run_mops me v l (holding_code @ [PanicIf True ''acquire'', Xchg, SetCpu, SetPcs]) r) (\<lambda>_. kret ()) s
      = kbind (spin_holding me l) (\<lambda>h. if h then kpanic ''acquire'' else acquire_spin me v l) s" for r s
    unfolding run_mops_append kbind_assoc tail by (rule holding_then)
  then show ?thesis
    unfolding acquire_code_def run_mops_append[of me v l pushcli_code] kbind_assoc spin_acquire_def
    by (simp add: kbind_apply kthen_apply pushcli_code_runs split: res.split)
qed

lemma release_code_runs: "kbind (run_mops me v l release_code r) (\<lambda>_. kret ()) s = spin_release me l s"
proof -
  have tail: "kbind (run_mops me v l ([PanicIf False ''release'', ClrPcs, ClrCpu, ClrLocked] @ popcli_code) r) (\<lambda>_. kret ()) =
      (\<lambda>h. if \<not> h then kpanic ''release'' else
     kthen (kmod (upd_lk l (\<lambda>lk. lk\<lparr>lk_pcs := (lk_pcs lk)(0 := 0), lk_cpu := None\<rparr>))) (
     kthen (kmod (upd_lk l (lk_locked_update (\<lambda>_. 0)))) (popcli me))) (result_r r)" for r
    by (auto simp: fun_eq_iff run_mops_append kbind_apply kthen_apply popcli_code_runs upd_lk_def split: res.split)
  show ?thesis unfolding release_code_def run_mops_append[of me v l holding_code] kbind_assoc tail spin_release_def by (rule holding_then)
qed

subsection \<open>The processors together\<close>

text \<open>A processor is idle or in a call of \<^verbatim>\<open>acquire\<close> or \<^verbatim>\<open>release\<close>, before the action \<open>t_pc\<close> of its code. \<open>own\<close> is the set of locks that the
  code of a processor has: from the return of \<^verbatim>\<open>acquire\<close> to the call of \<^verbatim>\<open>release\<close>. The program does not read \<open>own\<close> and \<open>t_had\<close>, which
  records whether the lock was in \<open>own\<close> when \<^verbatim>\<open>release\<close> was called. An interrupt handler is a sequence of calls that the
  processor makes while it is idle with interrupts on.\<close>

record 'l task =
  t_acq :: bool
  t_lock :: 'l
  t_arg :: u32
  t_had :: bool
  t_regs :: lregs
  t_pc :: nat

record 'l system =
  mach :: "'l machine"
  task :: "u8 \<Rightarrow> 'l task option"
  own :: "u8 \<Rightarrow> 'l set"

definition code_of :: "'l task \<Rightarrow> mop list" where
  "code_of t = (if t_acq t then acquire_code else release_code)"

definition exec_task :: "u8 \<Rightarrow> 'l task \<Rightarrow> (lregs, 'l machine) kop" where
  "exec_task me t = exec_mop me (t_arg t) (t_lock t) (code_of t ! t_pc t) (t_regs t)"

inductive lock_step :: "'l system \<Rightarrow> 'l system \<Rightarrow> bool" where
  call_acquire: "task S me = None \<Longrightarrow>
    lock_step S (S\<lparr>task := (task S)(me := Some \<lparr>t_acq = True, t_lock = l, t_arg = v, t_had = False, t_regs = r, t_pc = 0\<rparr>)\<rparr>)"
| call_release: "task S me = None \<Longrightarrow>
    lock_step S (S\<lparr>task := (task S)(me := Some \<lparr>t_acq = False, t_lock = l, t_arg = v, t_had = l \<in> own S me, t_regs = r, t_pc = 0\<rparr>),
      own := (own S)(me := own S me - {l})\<rparr>)"
| act: "task S me = Some t \<Longrightarrow> t_pc t < length (code_of t) \<Longrightarrow> exec_task me t (mach S) = Ok r m' \<Longrightarrow>
    lock_step S (S\<lparr>mach := m', task := (task S)(me := Some (t\<lparr>t_regs := r, t_pc := Suc (t_pc t)\<rparr>))\<rparr>)"
| spin: "task S me = Some t \<Longrightarrow> t_pc t < length (code_of t) \<Longrightarrow> exec_task me t (mach S) = Blocked m' \<Longrightarrow>
    lock_step S (S\<lparr>mach := m'\<rparr>)"
| acquired: "task S me = Some t \<Longrightarrow> t_acq t \<Longrightarrow> t_pc t = length (code_of t) \<Longrightarrow>
    lock_step S (S\<lparr>task := (task S)(me := None), own := (own S)(me := insert (t_lock t) (own S me))\<rparr>)"
| released: "task S me = Some t \<Longrightarrow> \<not> t_acq t \<Longrightarrow> t_pc t = length (code_of t) \<Longrightarrow>
    lock_step S (S\<lparr>task := (task S)(me := None)\<rparr>)"
| interrupts: "task S me = None \<Longrightarrow> own S me = {} \<Longrightarrow>
    op = sti me \<or> op = cli me \<Longrightarrow> op (mach S) = Ok () m' \<Longrightarrow> lock_step S (S\<lparr>mach := m'\<rparr>)"

text \<open>After boot: no lock taken, no \<^verbatim>\<open>pushcli\<close> pending.\<close>

definition booted :: "'l system \<Rightarrow> bool" where
  "booted S \<longleftrightarrow> (\<forall>l. lk_locked (lks (mach S) l) = 0 \<and> lk_cpu (lks (mach S) l) = None)
     \<and> (\<forall>c. ncli (cpus (mach S) c) = 0) \<and> (\<forall>me. task S me = None \<and> own S me = {})"

subsection \<open>The invariant of the interleaving\<close>

lemma acquire_code_eq: "acquire_code = [ReadIF, Cli, SaveIF, IncCli, ReadIF, Cli, SaveIF, IncCli, ReadLocked, ReadCpu, CheckIF, DecCli, StiIf,
    PanicIf True ''acquire'', Xchg, SetCpu, SetPcs]"
  by (simp add: acquire_code_def holding_code_def pushcli_code_def popcli_code_def)

lemma release_code_eq: "release_code = [ReadIF, Cli, SaveIF, IncCli, ReadLocked, ReadCpu, CheckIF, DecCli, StiIf,
    PanicIf False ''release'', ClrPcs, ClrCpu, ClrLocked, CheckIF, DecCli, StiIf]"
  by (simp add: release_code_def holding_code_def pushcli_code_def popcli_code_def)

text \<open>From the successful \<^verbatim>\<open>xchg\<close> to the store of zero a processor has the lock word (\<open>has\<close>); it is named in the lock from the store
  of \<^verbatim>\<open>cpu\<close> to its removal (\<open>named\<close>).\<close>

definition has :: "'l system \<Rightarrow> u8 \<Rightarrow> 'l \<Rightarrow> bool" where
  "has S me l \<longleftrightarrow> l \<in> own S me \<or> (\<exists>t. task S me = Some t \<and> t_lock t = l \<and> (if t_acq t then 15 \<le> t_pc t else t_had t \<and> t_pc t \<le> 12))"

definition named :: "'l system \<Rightarrow> u8 \<Rightarrow> 'l \<Rightarrow> bool" where
  "named S me l \<longleftrightarrow> l \<in> own S me \<or> (\<exists>t. task S me = Some t \<and> t_lock t = l \<and> (if t_acq t then 16 \<le> t_pc t else t_had t \<and> t_pc t \<le> 11))"

text \<open>What the call under way adds to the depth of \<^verbatim>\<open>pushcli\<close> nesting.\<close>

definition depth :: "'l task \<Rightarrow> int" where
  "depth t = (let pc = t_pc t in
     if t_acq t then (if pc \<le> 3 then 0 else if pc \<le> 7 then 1 else if pc \<le> 11 then 2 else 1)
     else (if t_had t then 1 else 0) + (if pc \<le> 3 then 0 else if pc \<le> 7 then 1 else if pc \<le> 14 then 0 else -1))"

text \<open>The places between a \<^verbatim>\<open>cli\<close> and the count, and between the count and a \<^verbatim>\<open>sti\<close>.\<close>

definition masked :: "'l task \<Rightarrow> bool" where
  "masked t \<longleftrightarrow> t_pc t = 2 \<or> t_pc t = 3 \<or> \<not> t_acq t \<and> (t_pc t = 8 \<or> t_pc t = 15)"

text \<open>What is known of the local variables, and that the checks have been passed.\<close>

definition task_ok :: "'l set \<Rightarrow> 'l task \<Rightarrow> bool" where
  "task_ok A t \<longleftrightarrow> (let pc = t_pc t; r = result_r (t_regs t); l = t_lock t in
     if t_acq t then pc \<le> 17 \<and> (pc = 9 \<longrightarrow> l \<in> A \<longrightarrow> r) \<and> (10 \<le> pc \<and> pc \<le> 13 \<longrightarrow> (r \<longleftrightarrow> l \<in> A)) \<and> (14 \<le> pc \<longrightarrow> l \<notin> A)
     else l \<notin> A \<and> pc \<le> 16 \<and> (pc = 5 \<longrightarrow> t_had t \<longrightarrow> r) \<and> (6 \<le> pc \<and> pc \<le> 9 \<longrightarrow> (r \<longleftrightarrow> t_had t)) \<and> (10 \<le> pc \<longrightarrow> t_had t))"

definition cpu_inv :: "'l system \<Rightarrow> u8 \<Rightarrow> bool" where
  "cpu_inv S me \<longleftrightarrow> finite (own S me) \<and> (\<forall>t. task S me = Some t \<longrightarrow> task_ok (own S me) t) \<and>
     (case cpu_ix (mach S) me of
        None \<Rightarrow> own S me = {} \<and> (\<forall>t. task S me = Some t \<longrightarrow> t_pc t \<le> 2 \<and> \<not> t_had t)
      | Some c \<Rightarrow> ncli (cpus (mach S) c) = int (card (own S me)) + (case task S me of None \<Rightarrow> 0 | Some t \<Rightarrow> depth t)
          \<and> (eflags_IF (mach S) me \<longrightarrow> ncli (cpus (mach S) c) = 0 \<and> (\<forall>t. task S me = Some t \<longrightarrow> \<not> masked t)))"

definition word_inv :: "'l system \<Rightarrow> bool" where
  "word_inv S \<longleftrightarrow> (\<forall>l. lk_locked (lks (mach S) l) \<noteq> 0 \<longleftrightarrow> (\<exists>me. has S me l)) \<and> (\<forall>l a b. has S a l \<longrightarrow> has S b l \<longrightarrow> a = b)
     \<and> (\<forall>l me c. cpu_ix (mach S) me = Some c \<longrightarrow> (lk_cpu (lks (mach S) l) = Some c \<longleftrightarrow> named S me l))"

definition lock_inv :: "'l system \<Rightarrow> bool" where
  "lock_inv S \<longleftrightarrow> word_inv S \<and> (\<forall>me. cpu_inv S me)"

lemma lock_inv_booted: "booted S \<Longrightarrow> lock_inv S"
  by (simp add: booted_def lock_inv_def word_inv_def cpu_inv_def has_def named_def split: option.split)

lemma cpu_invD:
  assumes "cpu_inv S me" "task S me = Some t"
  shows "task_ok (own S me) t" "finite (own S me)"
    "cpu_ix (mach S) me = Some c \<Longrightarrow> ncli (cpus (mach S) c) = int (card (own S me)) + depth t"
    "cpu_ix (mach S) me = Some c \<Longrightarrow> eflags_IF (mach S) me \<Longrightarrow> ncli (cpus (mach S) c) = 0 \<and> \<not> masked t"
    "cpu_ix (mach S) me = None \<Longrightarrow> own S me = {} \<and> t_pc t \<le> 2 \<and> \<not> t_had t"
  using assms by (auto simp: cpu_inv_def)

text \<open>A step of one processor leaves what the invariant says of another one.\<close>

lemma cpu_inv_other:
  assumes "cpu_inv S b" "own S' b = own S b" "task S' b = task S b" "cpu_ix (mach S') = cpu_ix (mach S)"
    "eflags_IF (mach S') b = eflags_IF (mach S) b" "\<And>c. cpu_ix (mach S) b = Some c \<Longrightarrow> ncli (cpus (mach S') c) = ncli (cpus (mach S) c)"
  shows "cpu_inv S' b"
  using assms by (auto simp: cpu_inv_def split: option.splits)

lemma has_other: "own S' b = own S b \<Longrightarrow> task S' b = task S b \<Longrightarrow> has S' b l = has S b l"
  "own S' b = own S b \<Longrightarrow> task S' b = task S b \<Longrightarrow> named S' b l = named S b l"
  by (simp_all add: has_def named_def)

text \<open>The places of each action in the two codes.\<close>

definition at_mop :: "'l task \<Rightarrow> mop \<Rightarrow> bool" where
  "at_mop t i \<longleftrightarrow> t_pc t < length (code_of t) \<and> code_of t ! t_pc t = i"

primrec places :: "mop \<Rightarrow> mop list \<Rightarrow> nat \<Rightarrow> nat list" where
  "places i [] k = []"
| "places i (x # xs) k = (if x = i then k # places i xs (k + 1) else places i xs (k + 1))"

lemma places_iff: "n < length xs \<and> xs ! n = i \<longleftrightarrow> n + k \<in> set (places i xs k)"
proof (induction xs arbitrary: n k)
  case (Cons x xs)
  have ge: "j \<in> set (places i ys m) \<Longrightarrow> m \<le> j" for j ys m by (induction ys arbitrary: m) (auto split: if_splits dest: Suc_leD)
  show ?case using Cons.IH[of "n - 1" "k + 1"] ge[of k xs "k + 1"] by (cases n) auto
qed simp

lemma at_mop_places: "at_mop t i \<longleftrightarrow> t_pc t \<in> set (places i (code_of t) 0)"
  using places_iff[of "t_pc t" "code_of t" i 0] by (simp add: at_mop_def)

lemma at_mop_pcs:
  "at_mop t ReadIF \<longleftrightarrow> t_pc t = 0 \<or> t_acq t \<and> t_pc t = 4"
  "at_mop t Cli \<longleftrightarrow> t_pc t = 1 \<or> t_acq t \<and> t_pc t = 5"
  "at_mop t SaveIF \<longleftrightarrow> t_pc t = 2 \<or> t_acq t \<and> t_pc t = 6"
  "at_mop t IncCli \<longleftrightarrow> t_pc t = 3 \<or> t_acq t \<and> t_pc t = 7"
  "at_mop t ReadLocked \<longleftrightarrow> (if t_acq t then t_pc t = 8 else t_pc t = 4)"
  "at_mop t ReadCpu \<longleftrightarrow> (if t_acq t then t_pc t = 9 else t_pc t = 5)"
  "at_mop t CheckIF \<longleftrightarrow> (if t_acq t then t_pc t = 10 else t_pc t = 6 \<or> t_pc t = 13)"
  "at_mop t DecCli \<longleftrightarrow> (if t_acq t then t_pc t = 11 else t_pc t = 7 \<or> t_pc t = 14)"
  "at_mop t StiIf \<longleftrightarrow> (if t_acq t then t_pc t = 12 else t_pc t = 8 \<or> t_pc t = 15)"
  "at_mop t (PanicIf b e) \<longleftrightarrow> (if t_acq t then t_pc t = 13 \<and> b \<and> e = ''acquire'' else t_pc t = 9 \<and> \<not> b \<and> e = ''release'')"
  "at_mop t Xchg \<longleftrightarrow> t_acq t \<and> t_pc t = 14"
  "at_mop t SetCpu \<longleftrightarrow> t_acq t \<and> t_pc t = 15"
  "at_mop t SetPcs \<longleftrightarrow> t_acq t \<and> t_pc t = 16"
  "at_mop t ClrPcs \<longleftrightarrow> \<not> t_acq t \<and> t_pc t = 10"
  "at_mop t ClrCpu \<longleftrightarrow> \<not> t_acq t \<and> t_pc t = 11"
  "at_mop t ClrLocked \<longleftrightarrow> \<not> t_acq t \<and> t_pc t = 12"
  by (cases "t_acq t"; auto simp: at_mop_places code_of_def acquire_code_eq release_code_eq)+

text \<open>What each action does to the machine, as far as the invariant is concerned.\<close>

lemma mycpu_Ok: "mycpu me s = Ok c s' \<longleftrightarrow> \<not> eflags_IF s me \<and> cpu_ix s me = Some c \<and> s' = s"
  by (auto simp: mycpu_def cpu_ix_def split: option.split)

lemma lock_inv_by:
  assumes "lock_inv S" "\<And>b. b \<noteq> me \<Longrightarrow> own S' b = own S b \<and> task S' b = task S b \<and> eflags_IF (mach S') b = eflags_IF (mach S) b"
    "cpu_ix (mach S') = cpu_ix (mach S)" "\<And>c. cpu_ix (mach S) me \<noteq> Some c \<Longrightarrow> ncli (cpus (mach S') c) = ncli (cpus (mach S) c)"
    "cpu_inv S' me" "word_inv S'"
  shows "lock_inv S'"
proof -
  have "cpu_inv S' b" for b
  proof (cases "b = me")
    case False
    show ?thesis
    proof (rule cpu_inv_other[of S b])
      show "cpu_inv S b" using assms(1) by (simp add: lock_inv_def)
      show "ncli (cpus (mach S') c) = ncli (cpus (mach S) c)" if "cpu_ix (mach S) b = Some c" for c
        by (rule assms(4)) (use that False cpu_ix_inj in blast)
    qed (use assms(2,3) False in simp_all)
  qed (use assms(5) in simp)
  then show ?thesis using assms(6) by (simp add: lock_inv_def)
qed

lemma word_inv_same:
  assumes "word_inv S" "\<And>b l. has S' b l = has S b l" "\<And>b l. named S' b l = named S b l" "cpu_ix (mach S') = cpu_ix (mach S)"
    "\<And>l. lk_locked (lks (mach S') l) = lk_locked (lks (mach S) l)" "\<And>l. lk_cpu (lks (mach S') l) = lk_cpu (lks (mach S) l)"
  shows "word_inv S'"
  using assms by (simp add: word_inv_def)

text \<open>The actions that neither take nor drop a lock nor name its owner.\<close>

abbreviation advance :: "'l system \<Rightarrow> u8 \<Rightarrow> 'l task \<Rightarrow> lregs \<Rightarrow> 'l machine \<Rightarrow> 'l system" where
  "advance S me t r m \<equiv> S\<lparr>mach := m, task := (task S)(me := Some (t\<lparr>t_regs := r, t_pc := Suc (t_pc t)\<rparr>))\<rparr>"

lemma has_advance:
  assumes "task S me = Some t" "\<not> at_mop t Xchg" "\<not> at_mop t SetCpu" "\<not> at_mop t ClrCpu" "\<not> at_mop t ClrLocked"
  shows "has (advance S me t r m) b l = has S b l" "named (advance S me t r m) b l = named S b l"
  using assms by (auto simp: has_def named_def at_mop_pcs)

lemma exec_mop_Ok:
  "exec_mop me v l ReadIF r s = Ok r' s' \<longleftrightarrow> r' = r\<lparr>eflags_r := eflags_IF s me\<rparr> \<and> s' = s"
  "exec_mop me v l Cli r s = Ok r' s' \<longleftrightarrow> r' = r \<and> s' = s\<lparr>eflags_IF := (eflags_IF s)(me := False)\<rparr>"
  "exec_mop me v l SaveIF r s = Ok r' s' \<longleftrightarrow> \<not> eflags_IF s me \<and> (\<exists>c. cpu_ix s me = Some c \<and> r' = r
     \<and> s' = (if ncli (cpus s c) = 0 then upd_cpu c (intena_update (\<lambda>_. eflags_r r)) s else s))"
  "exec_mop me v l IncCli r s = Ok r' s' \<longleftrightarrow> \<not> eflags_IF s me \<and> (\<exists>c. cpu_ix s me = Some c \<and> r' = r \<and> s' = upd_cpu c (ncli_update (\<lambda>n. n + 1)) s)"
  "exec_mop me v l ReadLocked r s = Ok r' s' \<longleftrightarrow> r' = r\<lparr>result_r := lk_locked (lks s l) \<noteq> 0\<rparr> \<and> s' = s"
  "exec_mop me v l ReadCpu r s = Ok r' s' \<longleftrightarrow> (if result_r r then \<not> eflags_IF s me \<and> (\<exists>c. cpu_ix s me = Some c
     \<and> r' = r\<lparr>result_r := lk_cpu (lks s l) = Some c\<rparr> \<and> s' = s) else r' = r \<and> s' = s)"
  "exec_mop me v l CheckIF r s = Ok r' s' \<longleftrightarrow> \<not> eflags_IF s me \<and> r' = r \<and> s' = s"
  "exec_mop me v l DecCli r s = Ok r' s' \<longleftrightarrow> \<not> eflags_IF s me \<and> (\<exists>c. cpu_ix s me = Some c \<and> 0 < ncli (cpus s c) \<and> r' = r
     \<and> s' = upd_cpu c (ncli_update (\<lambda>n. n - 1)) s)"
  "exec_mop me v l StiIf r s = Ok r' s' \<longleftrightarrow> \<not> eflags_IF s me \<and> (\<exists>c. cpu_ix s me = Some c \<and> r' = r
     \<and> s' = s\<lparr>eflags_IF := (eflags_IF s)(me := ncli (cpus s c) = 0 \<and> intena (cpus s c))\<rparr>)"
  "exec_mop me v l (PanicIf b e) r s = Ok r' s' \<longleftrightarrow> result_r r \<noteq> b \<and> r' = r \<and> s' = s"
  "exec_mop me v l Xchg r s = Ok r' s' \<longleftrightarrow> lk_locked (lks s l) = 0 \<and> r' = r \<and> s' = upd_lk l (lk_locked_update (\<lambda>_. 1)) s"
  "exec_mop me v l SetCpu r s = Ok r' s' \<longleftrightarrow> \<not> eflags_IF s me \<and> (\<exists>c. cpu_ix s me = Some c \<and> r' = r \<and> s' = upd_lk l (lk_cpu_update (\<lambda>_. Some c)) s)"
  "exec_mop me v l SetPcs r s = Ok r' s' \<longleftrightarrow> r' = r \<and> s' = upd_lk l (\<lambda>lk. lk\<lparr>lk_pcs := getcallerpcs (kword s) v (lk_pcs lk)\<rparr>) s"
  "exec_mop me v l ClrPcs r s = Ok r' s' \<longleftrightarrow> r' = r \<and> s' = upd_lk l (\<lambda>lk. lk\<lparr>lk_pcs := (lk_pcs lk)(0 := 0)\<rparr>) s"
  "exec_mop me v l ClrCpu r s = Ok r' s' \<longleftrightarrow> r' = r \<and> s' = upd_lk l (lk_cpu_update (\<lambda>_. None)) s"
  "exec_mop me v l ClrLocked r s = Ok r' s' \<longleftrightarrow> r' = r \<and> s' = upd_lk l (lk_locked_update (\<lambda>_. 0)) s"
  by (auto simp: cli_def sti_def xchg_def fun_upd_idem kbind_apply kthen_apply mycpu_def cpu_ix_def[symmetric] split: option.splits)

lemma exec_mop_Blocked:
  "exec_mop me v l i r s = Blocked s' \<longleftrightarrow> i = Xchg \<and> lk_locked (lks s l) \<noteq> 0 \<and> s' = upd_lk l (lk_locked_update (\<lambda>_. 1)) s"
  by (cases i) (auto simp: cli_def sti_def xchg_def kbind_apply kthen_apply mycpu_def split: option.splits)

declare exec_mop.simps [simp del]

lemma cpu_inv_advance:
  assumes "lock_inv S" "task S me = Some t" "at_mop t i" "exec_mop me (t_arg t) (t_lock t) i (t_regs t) (mach S) = Ok r m"
  shows "cpu_inv (advance S me t r m) me"
proof -
  have I: "cpu_inv S me" "word_inv S" using assms(1) by (auto simp: lock_inv_def)
  note D = cpu_invD[OF I(1) assms(2)] and e = assms(4) and a = assms(3)[unfolded at_mop_pcs]
  show ?thesis
  proof (cases "cpu_ix (mach S) me")
    case None
    then have "i = ReadIF \<or> i = Cli" using D(5) assms(3,4) by (cases i) (auto simp: at_mop_pcs exec_mop_Ok split: if_splits)
    then show ?thesis using None D assms(3,4) by (auto simp: at_mop_pcs exec_mop_Ok cpu_inv_def task_ok_def Let_def)
  next
    case (Some c)
    have nm: "lk_cpu (lks (mach S) (t_lock t)) = Some c \<longleftrightarrow> named S me (t_lock t)" using I(2) Some by (auto simp: word_inv_def)
    have hs: "has S me (t_lock t) \<Longrightarrow> lk_locked (lks (mach S) (t_lock t)) \<noteq> 0" using I(2) by (auto simp: word_inv_def)
    note F = D(1,2) D(3,4)[OF Some]
    note S = at_mop_pcs exec_mop_Ok cpu_inv_def task_ok_def depth_def masked_def Let_def
    show ?thesis
    proof (cases i)
      case ReadIF
      show ?thesis using Some F e[unfolded ReadIF] assms(3)[unfolded ReadIF]  by (auto simp: S split: if_splits)
    next
      case Cli
      show ?thesis using Some F e[unfolded Cli] assms(3)[unfolded Cli]  by (auto simp: S split: if_splits)
    next
      case SaveIF
      show ?thesis using Some F e[unfolded SaveIF] assms(3)[unfolded SaveIF]  by (auto simp: S split: if_splits)
    next
      case IncCli
      show ?thesis using Some F e[unfolded IncCli] assms(3)[unfolded IncCli]  by (auto simp: S split: if_splits)
    next
      case ReadLocked
      show ?thesis using Some F e[unfolded ReadLocked] assms(3)[unfolded ReadLocked] nm hs by (auto simp: S has_def named_def assms(2) split: if_splits)
    next
      case ReadCpu
      show ?thesis using Some F e[unfolded ReadCpu] assms(3)[unfolded ReadCpu] nm hs by (auto simp: S has_def named_def assms(2) split: if_splits)
    next
      case CheckIF
      show ?thesis using Some F e[unfolded CheckIF] assms(3)[unfolded CheckIF]  by (auto simp: S split: if_splits)
    next
      case DecCli
      show ?thesis using Some F e[unfolded DecCli] assms(3)[unfolded DecCli]  by (auto simp: S split: if_splits)
    next
      case StiIf
      show ?thesis using Some F e[unfolded StiIf] assms(3)[unfolded StiIf]  by (auto simp: S split: if_splits)
    next
      case (PanicIf b e)
      show ?thesis using Some F e[unfolded PanicIf] assms(3)[unfolded PanicIf]  by (auto simp: S split: if_splits)
    next
      case Xchg
      show ?thesis using Some F e[unfolded Xchg] assms(3)[unfolded Xchg]  by (auto simp: S split: if_splits)
    next
      case SetCpu
      show ?thesis using Some F e[unfolded SetCpu] assms(3)[unfolded SetCpu]  by (auto simp: S split: if_splits)
    next
      case SetPcs
      show ?thesis using Some F e[unfolded SetPcs] assms(3)[unfolded SetPcs]  by (auto simp: S split: if_splits)
    next
      case ClrPcs
      show ?thesis using Some F e[unfolded ClrPcs] assms(3)[unfolded ClrPcs]  by (auto simp: S split: if_splits)
    next
      case ClrCpu
      show ?thesis using Some F e[unfolded ClrCpu] assms(3)[unfolded ClrCpu]  by (auto simp: S split: if_splits)
    next
      case ClrLocked
      show ?thesis using Some F e[unfolded ClrLocked] assms(3)[unfolded ClrLocked]  by (auto simp: S split: if_splits)
    qed
  qed
qed

lemma word_invD:
  assumes "word_inv S"
  shows "lk_locked (lks (mach S) l) \<noteq> 0 \<longleftrightarrow> (\<exists>me. has S me l)" "has S a l \<Longrightarrow> has S b l \<Longrightarrow> a = b"
    "cpu_ix (mach S) me = Some c \<Longrightarrow> lk_cpu (lks (mach S) l) = Some c \<longleftrightarrow> named S me l"
proof -
  note W = assms[unfolded word_inv_def]
  show "lk_locked (lks (mach S) l) \<noteq> 0 \<longleftrightarrow> (\<exists>me. has S me l)" by (rule W[THEN conjunct1, rule_format])
  show "has S a l \<Longrightarrow> has S b l \<Longrightarrow> a = b" by (rule W[THEN conjunct2, THEN conjunct1, rule_format])
  show "cpu_ix (mach S) me = Some c \<Longrightarrow> lk_cpu (lks (mach S) l) = Some c \<longleftrightarrow> named S me l" by (rule W[THEN conjunct2, THEN conjunct2, rule_format])
qed

lemma word_invI:
  assumes "\<And>l. lk_locked (lks (mach S) l) \<noteq> 0 \<longleftrightarrow> (\<exists>me. has S me l)" "\<And>l a b. has S a l \<Longrightarrow> has S b l \<Longrightarrow> a = b"
    "\<And>l me c. cpu_ix (mach S) me = Some c \<Longrightarrow> lk_cpu (lks (mach S) l) = Some c \<longleftrightarrow> named S me l"
  shows "word_inv S"
  unfolding word_inv_def by (intro conjI allI impI; rule assms; assumption)

lemma named_has: "named S b k \<Longrightarrow> has S b k"
  by (cases "task S b") (fastforce simp: named_def has_def split: if_splits)+

lemma word_inv_advance:
  assumes "lock_inv S" "task S me = Some t" "at_mop t i" "exec_mop me (t_arg t) (t_lock t) i (t_regs t) (mach S) = Ok r m"
  shows "word_inv (advance S me t r m)"
proof -
  have W: "word_inv S" and C: "cpu_inv S me" using assms(1) by (simp_all add: lock_inv_def)
  note D = cpu_invD(1)[OF C assms(2)]
  let ?S = "advance S me t r m" and ?l = "t_lock t"
  have oth: "has ?S b k = has S b k" "named ?S b k = named S b k" if "b \<noteq> me" for b k
    by (rule has_other; use that in simp)+
  note lk = word_invD(1)[OF W] and uni = word_invD(2)[OF W] and nm = word_invD(3)[OF W]
  note P = at_mop_pcs exec_mop_Ok
  consider "i = Xchg" | "i = SetCpu" | "i = ClrCpu" | "i = ClrLocked" | "i \<notin> {Xchg, SetCpu, ClrCpu, ClrLocked}" by blast
  then show ?thesis
  proof cases
    case 1
    have h: "has ?S me k \<longleftrightarrow> k = ?l \<or> has S me k" "named ?S me k = named S me k" for k
      using 1 assms(2,3) by (auto simp: P has_def named_def)
    have "\<not> has S b ?l" for b using 1 assms(4) lk[of ?l] by (auto simp: P)
    then have H: "has ?S b k \<longleftrightarrow> has S b k \<or> b = me \<and> k = ?l" "named ?S b k = named S b k" for b k using h oth by (cases "b = me"; auto)+
    have "lk_locked (lks m k) \<noteq> 0 \<longleftrightarrow> lk_locked (lks (mach S) k) \<noteq> 0 \<or> k = ?l" "lk_cpu (lks m k) = lk_cpu (lks (mach S) k)" "cpu_ix m = cpu_ix (mach S)" for k
      using 1 assms(4) by (auto simp: P)
    then show ?thesis using lk nm uni \<open>\<And>b. \<not> has S b ?l\<close> by (intro word_invI; unfold H; simp; metis)
  next
    case 2
    then have a: "at_mop t SetCpu" using assms(3) by simp
    have h: "has ?S me k = has S me k" "named ?S me k \<longleftrightarrow> k = ?l \<or> named S me k" for k using a assms(2) by (auto simp: P has_def named_def)
    have H: "has ?S b k = has S b k" "named ?S b k \<longleftrightarrow> named S b k \<or> b = me \<and> k = ?l" for b k using h oth by (cases "b = me"; auto)+
    have "has S me ?l" using a assms(2) by (auto simp: P has_def)
    then have nn: "\<not> named S b ?l" if "b \<noteq> me" for b using that uni named_has by metis
    obtain c where c: "cpu_ix (mach S) me = Some c" and m: "m = upd_lk ?l (lk_cpu_update (\<lambda>_. Some c)) (mach S)"
      using 2 assms(4) by (auto simp: P)
    have n: "lk_cpu (lks m k) = Some d \<longleftrightarrow> named S b k \<or> b = me \<and> k = ?l" if d: "cpu_ix (mach S) b = Some d" for b d k
    proof (cases "b = me")
      case True
      then show ?thesis using c d m nm[OF d, of k] by simp
    next
      case False
      then have "d \<noteq> c" using cpu_ix_inj[OF c] d by blast
      then show ?thesis using False m nm[OF d, of k] nn by simp
    qed
    show ?thesis by (rule word_invI; unfold H) (use m lk uni n in \<open>simp_all\<close>)
  next
    case 3
    then have a: "at_mop t ClrCpu" using assms(3) by simp
    have h: "has ?S me k = has S me k" "named ?S me k \<longleftrightarrow> k \<noteq> ?l \<and> named S me k" for k using a assms(2) D by (auto simp: P has_def named_def task_ok_def)
    have "has S me ?l" using a assms(2) D by (auto simp: P has_def task_ok_def)
    then have "\<not> named S b ?l" if "b \<noteq> me" for b using that uni named_has by metis
    then have H: "has ?S b k = has S b k" "named ?S b k \<longleftrightarrow> named S b k \<and> k \<noteq> ?l" for b k using h oth by (cases "b = me"; auto)+
    have "m = upd_lk ?l (lk_cpu_update (\<lambda>_. None)) (mach S)" using 3 assms(4) by (simp add: P)
    then show ?thesis using lk nm uni by (intro word_invI; unfold H; simp; metis)
  next
    case 4
    then have a: "at_mop t ClrLocked" using assms(3) by simp
    have h: "has ?S me k \<longleftrightarrow> k \<noteq> ?l \<and> has S me k" "named ?S me k = named S me k" for k using a assms(2) D by (auto simp: P has_def named_def task_ok_def)
    have "has S me ?l" using a assms(2) D by (auto simp: P has_def task_ok_def)
    then have "\<not> has S b ?l" if "b \<noteq> me" for b using that uni by blast
    then have H: "has ?S b k \<longleftrightarrow> has S b k \<and> k \<noteq> ?l" "named ?S b k = named S b k" for b k using h oth by (cases "b = me"; auto)+
    have "m = upd_lk ?l (lk_locked_update (\<lambda>_. 0)) (mach S)" using 4 assms(4) by (simp add: P)
    then show ?thesis using lk nm uni by (intro word_invI; unfold H; simp; metis)
  next
    case 5
    then have n: "\<not> at_mop t Xchg" "\<not> at_mop t SetCpu" "\<not> at_mop t ClrCpu" "\<not> at_mop t ClrLocked" using assms(3) by (auto simp: at_mop_def)
    have m: "lk_locked (lks m k) = lk_locked (lks (mach S) k)" "lk_cpu (lks m k) = lk_cpu (lks (mach S) k)" "cpu_ix m = cpu_ix (mach S)" for k
      using 5 assms(4) by (cases i; auto simp: P split: if_splits)+
    show ?thesis by (rule word_inv_same[OF W has_advance[OF assms(2) n]]) (simp_all add: m)
  qed
qed

text \<open>Calls and returns.\<close>

lemma has_idle:
  assumes "\<And>k. has S' me k = has S me k" "\<And>k. named S' me k = named S me k" "\<And>b. b \<noteq> me \<Longrightarrow> own S' b = own S b \<and> task S' b = task S b"
    "mach S' = mach S" "word_inv S"
  shows "word_inv S'"
proof (rule word_inv_same[OF assms(5)])
  show "has S' b l = has S b l" "named S' b l = named S b l" for b l
    using assms(1,2) has_other[of S' b S l] assms(3)[of b] by (cases "b = me"; simp)+
qed (simp_all add: assms(4))

lemma lock_inv_step:
  assumes "lock_step S S'" "lock_inv S"
  shows "lock_inv S'"
proof -
  have W: "word_inv S" and C: "cpu_inv S b" for b using assms(2) by (simp_all add: lock_inv_def)
  show ?thesis using assms(1)
  proof cases
    case (call_acquire me l v r)
    have "cpu_inv S' me" using C[of me] call_acquire by (auto simp: cpu_inv_def task_ok_def depth_def masked_def split: option.splits)
    moreover have "word_inv S'" by (rule has_idle[OF _ _ _ _ W, of _ me]) (simp_all add: call_acquire has_def named_def)
    ultimately show ?thesis by (rule lock_inv_by[OF assms(2), of me, rotated -2]) (simp_all add: call_acquire)
  next
    case (call_release me l v r)
    have "cpu_inv S' me" using C[of me] call_release int_card_Diff[of "own S me" l]
      by (auto simp: cpu_inv_def task_ok_def depth_def masked_def split: option.splits)
    moreover have "word_inv S'" by (rule has_idle[OF _ _ _ _ W, of _ me]) (auto simp: call_release has_def named_def)
    ultimately show ?thesis by (rule lock_inv_by[OF assms(2), of me, rotated -2]) (simp_all add: call_release)
  next
    case (act me t r m)
    have e: "at_mop t (code_of t ! t_pc t)" "exec_mop me (t_arg t) (t_lock t) (code_of t ! t_pc t) (t_regs t) (mach S) = Ok r m"
      using act by (simp_all add: at_mop_def exec_task_def)
    have m: "cpu_ix m = cpu_ix (mach S)" "b \<noteq> me \<Longrightarrow> eflags_IF m b = eflags_IF (mach S) b"
      "cpu_ix (mach S) me \<noteq> Some c \<Longrightarrow> ncli (cpus m c) = ncli (cpus (mach S) c)" for b c
      using e(2) by (cases "code_of t ! t_pc t"; auto simp: exec_mop_Ok split: if_splits)+
    show ?thesis unfolding act(1)
      by (rule lock_inv_by[OF assms(2) _ _ _ cpu_inv_advance[OF assms(2) act(2) e] word_inv_advance[OF assms(2) act(2) e]]) (simp_all add: m)
  next
    case (spin me t m)
    then have m: "m = upd_lk (t_lock t) (lk_locked_update (\<lambda>_. 1)) (mach S)" "lk_locked (lks (mach S) (t_lock t)) \<noteq> 0"
      by (auto simp: exec_task_def exec_mop_Blocked)
    have "cpu_inv S' me" by (rule cpu_inv_other[OF C]) (simp_all add: spin(1) m(1))
    moreover have "word_inv S'" using m(2) word_invD[OF W] unfolding spin(1) m(1) by (intro word_invI) (auto simp: has_def named_def)
    ultimately show ?thesis by (rule lock_inv_by[OF assms(2), of me, rotated -2]) (simp_all add: spin m)
  next
    case (acquired me t)
    have "cpu_inv S' me" using cpu_invD[OF C acquired(2)] acquired
      by (auto simp: cpu_inv_def task_ok_def depth_def masked_def code_of_def acquire_code_eq split: option.splits)
    moreover have "word_inv S'" by (rule has_idle[OF _ _ _ _ W, of _ me]) (auto simp: acquired has_def named_def code_of_def acquire_code_eq)
    ultimately show ?thesis by (rule lock_inv_by[OF assms(2), of me, rotated -2]) (simp_all add: acquired)
  next
    case (released me t)
    have "cpu_inv S' me" using cpu_invD[OF C released(2)] released
      by (auto simp: cpu_inv_def task_ok_def depth_def masked_def code_of_def release_code_eq split: option.splits)
    moreover have "word_inv S'" by (rule has_idle[OF _ _ _ _ W, of _ me]) (auto simp: released has_def named_def code_of_def release_code_eq)
    ultimately show ?thesis by (rule lock_inv_by[OF assms(2), of me, rotated -2]) (simp_all add: released)
  next
    case (interrupts me op m)
    then obtain b where m: "m = (mach S)\<lparr>eflags_IF := (eflags_IF (mach S))(me := b)\<rparr>" by (auto simp: sti_def cli_def)
    have "cpu_inv S' me" using C[of me] interrupts(2,3) by (auto simp: interrupts(1) m cpu_inv_def split: option.splits)
    moreover have "word_inv S'" by (rule word_inv_same[OF W]) (simp_all add: interrupts(1) m has_def named_def)
    ultimately show ?thesis by (rule lock_inv_by[OF assms(2), of me, rotated -2]) (simp_all add: interrupts(1) m)
  qed
qed

lemma lock_inv_reachable:
  assumes "lock_step\<^sup>*\<^sup>* S S'" "booted S"
  shows "lock_inv S'"
  using assms by (induction rule: rtranclp_induct) (auto intro: lock_inv_booted lock_inv_step)

text \<open>A call panics only when it is wrong.\<close>

lemma exec_mop_Panic:
  assumes "exec_mop me v l i r s = Panic e" "cpu_ix s me = Some c"
  shows "i = PanicIf (result_r r) e \<or> eflags_IF s me \<and> i \<in> {SaveIF, IncCli, ReadCpu, CheckIF, DecCli, StiIf, SetCpu} \<or> i = DecCli \<and> ncli (cpus s c) \<le> 0"
  using assms by (cases i) (auto simp: exec_mop.simps cli_def sti_def xchg_def kbind_apply kthen_apply mycpu_def cpu_ix_def split: if_splits option.splits)

lemma task_panics:
  assumes "lock_inv S" "task S me = Some t" "t_pc t < length (code_of t)" "exec_task me t (mach S) = Panic e" "cpu_ix (mach S) me = Some c"
  shows "if t_acq t then t_lock t \<in> own S me \<and> e = ''acquire'' else \<not> t_had t \<and> e = ''release''"
proof -
  have C: "cpu_inv S me" using assms(1) by (simp add: lock_inv_def)
  note D = cpu_invD[OF C assms(2)] and N = cpu_invD(3)[OF C assms(2,5)] and F = cpu_invD(4)[OF C assms(2,5)]
  define i where "i = code_of t ! t_pc t"
  have a: "at_mop t i" using assms(3) by (simp add: at_mop_def i_def)
  have p: "i = PanicIf (result_r (t_regs t)) e \<or> eflags_IF (mach S) me \<and> i \<in> {SaveIF, IncCli, ReadCpu, CheckIF, DecCli, StiIf, SetCpu} \<or> i = DecCli \<and> ncli (cpus (mach S) c) \<le> 0"
    using exec_mop_Panic[OF assms(4)[unfolded exec_task_def, folded i_def] assms(5)] .
  have "\<not> eflags_IF (mach S) me" if "i \<in> {SaveIF, IncCli, ReadCpu, CheckIF, DecCli, StiIf, SetCpu}"
  proof
    assume "eflags_IF (mach S) me"
    then have "ncli (cpus (mach S) c) = 0" "\<not> masked t" using F by auto
    then show False using that a N D(1) by (auto simp: at_mop_pcs masked_def depth_def task_ok_def Let_def split: if_splits)
  qed
  moreover have "0 < ncli (cpus (mach S) c)" if "i = DecCli" using that a N D(1) by (auto simp: at_mop_pcs depth_def task_ok_def Let_def split: if_splits)
  ultimately have "i = PanicIf (result_r (t_regs t)) e" using p by auto
  then show ?thesis using a D(1) by (auto simp: at_mop_pcs task_ok_def split: if_splits)
qed


text \<open>Schedules that can be evaluated: which processor calls a routine or makes its next action.\<close>

datatype 'l action = Acq u8 'l | Rel u8 'l | Go u8

fun do_action :: "'l action \<Rightarrow> 'l system \<Rightarrow> 'l system option" where
  "do_action (Acq me l) S = (if task S me \<noteq> None then None else
     Some (S\<lparr>task := (task S)(me := Some \<lparr>t_acq = True, t_lock = l, t_arg = 0, t_had = False, t_regs = \<lparr>eflags_r = False, result_r = False\<rparr>, t_pc = 0\<rparr>)\<rparr>))"
| "do_action (Rel me l) S = (if task S me \<noteq> None then None else
     Some (S\<lparr>task := (task S)(me := Some \<lparr>t_acq = False, t_lock = l, t_arg = 0, t_had = l \<in> own S me, t_regs = \<lparr>eflags_r = False, result_r = False\<rparr>, t_pc = 0\<rparr>),
       own := (own S)(me := own S me - {l})\<rparr>))"
| "do_action (Go me) S = (case task S me of None \<Rightarrow> None | Some t \<Rightarrow>
     if t_pc t < length (code_of t) then
       (case exec_task me t (mach S) of
          Ok r m \<Rightarrow> Some (S\<lparr>mach := m, task := (task S)(me := Some (t\<lparr>t_regs := r, t_pc := Suc (t_pc t)\<rparr>))\<rparr>)
        | Blocked m \<Rightarrow> Some (S\<lparr>mach := m\<rparr>) | Panic e \<Rightarrow> None)
     else if t_pc t = length (code_of t) then
       Some (if t_acq t then S\<lparr>task := (task S)(me := None), own := (own S)(me := insert (t_lock t) (own S me))\<rparr> else S\<lparr>task := (task S)(me := None)\<rparr>)
     else None)"

primrec run_actions :: "'l action list \<Rightarrow> 'l system \<Rightarrow> 'l system option" where
  "run_actions [] S = Some S"
| "run_actions (a # as) S = (case do_action a S of None \<Rightarrow> None | Some S' \<Rightarrow> run_actions as S')"

lemma do_action_step: "do_action a S = Some S' \<Longrightarrow> lock_step S S'"
  by (cases a) (auto intro: lock_step.intros split: if_splits option.splits res.splits)

lemma run_actions_steps: "run_actions as S = Some S' \<Longrightarrow> lock_step\<^sup>*\<^sup>* S S'"
proof (induction "as" arbitrary: S)
  case (Cons a "as")
  then obtain S1 where "do_action a S = Some S1" "run_actions as S1 = Some S'" by (auto split: option.splits)
  then show ?case using Cons.IH do_action_step by (meson converse_rtranclp_into_rtranclp)
qed simp

definition two_cpus :: "nat system" where
  "two_cpus = \<lparr>mach = \<lparr>cpus = (\<lambda>i. \<lparr>apicid = of_nat i, ncli = 0, intena = False\<rparr>), ncpu = 2,
     eflags_IF = (\<lambda>_. True), lks = (\<lambda>_. initlock ''l'' \<lparr>lk_locked = 0, lk_name = [], lk_cpu = None, lk_pcs = (\<lambda>_. 0)\<rparr>),
     kword = (\<lambda>_. 0)\<rparr>, task = (\<lambda>_. None), own = (\<lambda>_. {})\<rparr>"

text \<open>Processor 1 is inside \<^verbatim>\<open>acquire\<close> of the same lock, after its \<^verbatim>\<open>pushcli\<close>, when processor 0 calls \<^verbatim>\<open>acquire\<close> and returns from it.\<close>

definition race :: "nat action list" where
  "race = Acq 1 7 # replicate 4 (Go 1) @ Acq 0 7 # replicate 18 (Go 0)"

definition raced :: "nat system" where
  "raced = the (run_actions race two_cpus)"

lemma race_runs: "map_option (\<lambda>S. (own S 0, map_option t_pc (task S 1))) (run_actions race two_cpus) = Some ({7}, Some 4)"
  by code_simp


subsection \<open>What the rest of the kernel relies on\<close>

text \<open>The contract of a processor's locks: acquiring twice and releasing a lock not held panic,
  every other acquisition that returns and every other release change the set of held locks as
  expected, and an acquisition of a lock not held never panics.\<close>

locale lock_api =
  fixes acq rel :: "'l \<Rightarrow> (unit, 's) kop"
    and held :: "'s \<Rightarrow> 'l set"
    and ok :: "'s \<Rightarrow> bool"
  assumes acq_twice: "ok s \<Longrightarrow> l \<in> held s \<Longrightarrow> acq l s = Panic ''acquire''"
    and acq_new: "ok s \<Longrightarrow> l \<notin> held s \<Longrightarrow> acq l s \<noteq> Panic e"
    and acq_Ok: "ok s \<Longrightarrow> acq l s = Ok () t \<Longrightarrow> ok t \<and> held t = insert l (held s)"
    and rel_other: "ok s \<Longrightarrow> l \<notin> held s \<Longrightarrow> rel l s = Panic ''release''"
    and rel_held: "ok s \<Longrightarrow> l \<in> held s \<Longrightarrow> \<exists>t. rel l s = Ok () t \<and> ok t \<and> held t = held s - {l}"
begin

lemma reacquire_panics: "ok s \<Longrightarrow> acq l s = Ok () t \<Longrightarrow> acq l t = Panic ''acquire''"
  using acq_Ok acq_twice by blast

text \<open>A critical section around a body that keeps the set of held locks leaves it unchanged.\<close>

lemma section_balanced:
  assumes "ok s" "kthen (acq l) (kbind body (\<lambda>a. kthen (rel l) (kret a))) s = Ok a t"
    and body: "\<And>u b u'. ok u \<Longrightarrow> body u = Ok b u' \<Longrightarrow> ok u' \<and> held u' = held u"
  shows "l \<notin> held s \<and> ok t \<and> held t = held s"
proof -
  from assms(2) obtain s1 b s2 s3 where ops: "acq l s = Ok () s1" "body s1 = Ok b s2" "rel l s2 = Ok () s3" "t = s3"
    by (elim kthen_OkE kbind_OkE) auto
  then have l: "l \<notin> held s" using acq_twice[OF assms(1), of l] by auto
  from ops acq_Ok[OF assms(1)] have "ok s1" "held s1 = insert l (held s)" by auto
  with ops body have "ok s2" "held s2 = insert l (held s)" by auto
  with ops rel_held[of s2 l] l show ?thesis by auto
qed

end

definition held_by :: "u8 \<Rightarrow> 'l machine \<Rightarrow> 'l set" where
  "held_by me s = {l. lk_locked (lks s l) \<noteq> 0 \<and> lk_cpu (lks s l) \<noteq> None \<and> lk_cpu (lks s l) = cpu_ix s me}"

definition cpu_ok :: "u8 \<Rightarrow> 'l machine \<Rightarrow> bool" where
  "cpu_ok me s \<longleftrightarrow> (\<exists>c. cpu_ix s me = Some c \<and> ncli (cpus s c) = int (card (held_by me s)))
     \<and> finite (held_by me s) \<and> (eflags_IF s me \<longrightarrow> held_by me s = {})"

lemma held_by_taken:
  "cpu_ix s me = Some c \<Longrightarrow> held_by me (taken c v l (pushed me c s)) = insert l (held_by me s)"
  by (auto simp: held_by_def)

lemma held_by_dropped: "held_by me (dropped me c l s) = held_by me s - {l}"
  by (auto simp: held_by_def)

interpretation cpu_locks: lock_api "spin_acquire me v" "spin_release me" "held_by me" "cpu_ok me" for me v
proof
  fix s t l e
  assume "cpu_ok me s"
  then obtain c where c: "cpu_ix s me = Some c" and n: "ncli (cpus s c) = int (card (held_by me s))"
    and fin: "finite (held_by me s)" and i: "eflags_IF s me \<Longrightarrow> held_by me s = {}"
    by (auto simp: cpu_ok_def)
  have h: "l \<in> held_by me s \<longleftrightarrow> lk_locked (lks s l) \<noteq> 0 \<and> lk_cpu (lks s l) = Some c"
    using c by (auto simp: held_by_def)
  note acq = spin_acquire_ok[OF c, of v l]
  show "l \<in> held_by me s \<Longrightarrow> spin_acquire me v l s = Panic ''acquire''" using acq n h by simp
  show "l \<notin> held_by me s \<Longrightarrow> spin_acquire me v l s \<noteq> Panic e" using acq n h by auto
  show "spin_acquire me v l s = Ok () t \<Longrightarrow> cpu_ok me t \<and> held_by me t = insert l (held_by me s)"
    using acq n fin c h by (auto simp: cpu_ok_def held_by_taken split: if_splits)
  show "l \<notin> held_by me s \<Longrightarrow> spin_release me l s = Panic ''release''"
    unfolding spin_release_def using n i h by (simp add: spin_holding_ok[OF c])
  assume l: "l \<in> held_by me s"
  then have "0 < card (held_by me s)" "\<not> eflags_IF s me" using fin i by (auto simp: card_gt_0_iff)
  with l h n have "spin_release me l s = Ok () (dropped me c l s)" by (simp add: spin_release_ok[OF c])
  moreover have "cpu_ok me (dropped me c l s)"
    using l c n fin i int_card_Diff[OF fin l] unfolding cpu_ok_def held_by_dropped
    by (auto simp: card_1_singleton_iff split: if_splits)
  ultimately show "\<exists>t. spin_release me l s = Ok () t \<and> cpu_ok me t \<and> held_by me t = held_by me s - {l}"
    by (simp add: held_by_dropped)
qed

subsection \<open>Lock sets\<close>

text \<open>The other theories follow one kernel thread. Its lock state is the set of the locks
  its processor holds; \<open>lockid\<close> lists the spin locks of the kernel. \<open>LBuf\<close> and \<open>LInode\<close> are
  the spin locks inside the sleep locks of a buffer and of an inode.\<close>

datatype lockid =
  LPtable | LTicks | LKmem | LBcache | LLog | LIcache | LFtable | LCons | LIde | LPipe nat | LBuf nat | LInode nat

record kbase =
  klocks :: "lockid set"

definition acquire :: "lockid \<Rightarrow> (unit, 'a kbase_scheme) kop" where
  "acquire l = (\<lambda>s. if l \<in> klocks s then Panic ''acquire'' else Ok () (s\<lparr>klocks := insert l (klocks s)\<rparr>))"

definition release :: "lockid \<Rightarrow> (unit, 'a kbase_scheme) kop" where
  "release l = (\<lambda>s. if l \<in> klocks s then Ok () (s\<lparr>klocks := klocks s - {l}\<rparr>) else Panic ''release'')"

definition holding :: "lockid \<Rightarrow> 'a kbase_scheme \<Rightarrow> bool" where
  "holding l s \<longleftrightarrow> l \<in> klocks s"

lemma acquire_apply [simp]: "l \<notin> klocks s \<Longrightarrow> acquire l s = Ok () (s\<lparr>klocks := insert l (klocks s)\<rparr>)"
  by (simp add: acquire_def)

lemma release_apply [simp]: "l \<in> klocks s \<Longrightarrow> release l s = Ok () (s\<lparr>klocks := klocks s - {l}\<rparr>)"
  by (simp add: release_def)

lemma acquire_held [simp]: "l \<in> klocks s \<Longrightarrow> acquire l s = Panic ''acquire''"
  by (simp add: acquire_def)

lemma release_free [simp]: "l \<notin> klocks s \<Longrightarrow> release l s = Panic ''release''"
  by (simp add: release_def)

interpretation lock_sets: lock_api acquire release klocks "\<lambda>_. True"
  by unfold_locales (auto simp: acquire_def split: if_splits)

text \<open>The lock sets are the concrete locks seen through \<^const>\<open>held_by\<close>. A processor that found the lock taken is waiting: it has
  pushed once more than it has locks.\<close>

definition waiting :: "u8 \<Rightarrow> 'l \<Rightarrow> 'l machine \<Rightarrow> bool" where
  "waiting me l m \<longleftrightarrow> (\<exists>c. cpu_ix m me = Some c \<and> ncli (cpus m c) = int (card (held_by me m)) + 1)
     \<and> finite (held_by me m) \<and> \<not> eflags_IF m me \<and> l \<notin> held_by me m"

definition acquire_outcome :: "u8 \<Rightarrow> lockid \<Rightarrow> lockid machine \<Rightarrow> (unit, lockid machine) res \<Rightarrow> (unit, kbase) res \<Rightarrow> bool" where
  "acquire_outcome me l m r r' = (case r of
      Ok _ m' \<Rightarrow> lk_locked (lks m l) = 0 \<and> cpu_ok me m' \<and> r' = Ok () \<lparr>klocks = held_by me m'\<rparr> \<and> (\<forall>b. b \<noteq> me \<longrightarrow> held_by b m' = held_by b m)
    | Blocked m' \<Rightarrow> lk_locked (lks m l) \<noteq> 0 \<and> waiting me l m' \<and> r' = Ok () \<lparr>klocks = insert l (held_by me m')\<rparr> \<and> (\<forall>b. held_by b m' = held_by b m)
    | Panic e \<Rightarrow> r' = Panic e)"

definition release_outcome :: "u8 \<Rightarrow> lockid \<Rightarrow> lockid machine \<Rightarrow> (unit, lockid machine) res \<Rightarrow> (unit, kbase) res \<Rightarrow> bool" where
  "release_outcome me l m r r' = (case r of
      Ok _ m' \<Rightarrow> lk_locked (lks m' l) = 0 \<and> cpu_ok me m' \<and> r' = Ok () \<lparr>klocks = held_by me m'\<rparr> \<and> (\<forall>b. b \<noteq> me \<longrightarrow> held_by b m' = held_by b m)
    | Blocked m' \<Rightarrow> False
    | Panic e \<Rightarrow> r' = Panic e)"

lemma held_by_others:
  assumes "cpu_ix m me = Some c" "b \<noteq> me"
  shows "lk_locked (lks m l) = 0 \<Longrightarrow> held_by b (taken c v l (pushed me c m)) = held_by b m"
    "lk_locked (lks m l) = 0 \<Longrightarrow> held_by b (taken c v l m) = held_by b m"
    "lk_cpu (lks m l) = Some c \<Longrightarrow> held_by b (dropped me c l m) = held_by b m"
proof -
  have "cpu_ix m b \<noteq> Some c" using cpu_ix_inj[OF assms(1)] assms(2) by blast
  then show "lk_locked (lks m l) = 0 \<Longrightarrow> held_by b (taken c v l (pushed me c m)) = held_by b m"
    "lk_locked (lks m l) = 0 \<Longrightarrow> held_by b (taken c v l m) = held_by b m"
    "lk_cpu (lks m l) = Some c \<Longrightarrow> held_by b (dropped me c l m) = held_by b m" by (auto simp: held_by_def split: if_splits)
qed

lemma held_by_spun: "lk_locked (lks m l) \<noteq> 0 \<Longrightarrow> held_by b (upd_lk l (lk_locked_update (\<lambda>_. 1)) m) = held_by b m"
  "held_by b (pushed me c m) = held_by b m"
  by (auto simp: held_by_def)

lemma acquire_refines:
  assumes "cpu_ok me m" "held_by me m = klocks s"
  shows "acquire_outcome me l m (spin_acquire me v l m) (acquire l s)"
proof -
  obtain c where c: "cpu_ix m me = Some c" and n: "ncli (cpus m c) = int (card (held_by me m))" and f: "finite (held_by me m)"
    using assms(1) by (auto simp: cpu_ok_def)
  have h: "l \<in> klocks s \<longleftrightarrow> lk_locked (lks m l) \<noteq> 0 \<and> lk_cpu (lks m l) = Some c" using c assms(2) by (auto simp: held_by_def)
  have s: "klocks s = K \<Longrightarrow> s = \<lparr>klocks = K\<rparr>" for K by simp
  note acq = spin_acquire_ok[OF c, of v l]
  consider "l \<in> klocks s" | "l \<notin> klocks s" "lk_locked (lks m l) \<noteq> 0" | "l \<notin> klocks s" "lk_locked (lks m l) = 0" by blast
  then show ?thesis
  proof cases
    case 1
    then show ?thesis using acq n h by (simp add: acquire_outcome_def)
  next
    case 2
    then have "spin_acquire me v l m = Blocked (upd_lk l (lk_locked_update (\<lambda>_. 1)) (pushed me c m))" using acq n h by simp
    moreover have "waiting me l (upd_lk l (lk_locked_update (\<lambda>_. 1)) (pushed me c m))" using 2 c n f assms(2) by (simp add: waiting_def held_by_spun)
    ultimately show ?thesis using 2 assms(2) by (simp add: acquire_outcome_def held_by_spun)
  next
    case 3
    then have a: "spin_acquire me v l m = Ok () (taken c v l (pushed me c m))" using acq n by simp
    then show ?thesis using 3 assms cpu_locks.acq_Ok[OF assms(1) a] held_by_others(1)[OF c] by (simp add: acquire_outcome_def)
  qed
qed

lemma retry_refines:
  assumes "waiting me l m" "held_by me m = klocks s" "lk_locked (lks m l) = 0"
  shows "acquire_outcome me l m (acquire_spin me v l m) (acquire l s)"
proof -
  obtain c where c: "cpu_ix m me = Some c" "ncli (cpus m c) = int (card (held_by me m)) + 1" and f: "finite (held_by me m)" "\<not> eflags_IF m me" "l \<notin> held_by me m"
    using assms(1) by (auto simp: waiting_def)
  have hb: "held_by me (taken c v l m) = insert l (held_by me m)" using c(1) by (auto simp: held_by_def)
  have "cpu_ok me (taken c v l m)" unfolding cpu_ok_def hb using c f by simp
  then show ?thesis using c(1) f assms(2,3) held_by_others(2)[OF c(1)] by (simp add: acquire_spin_ok acquire_outcome_def hb)
qed

lemma release_refines:
  assumes "cpu_ok me m" "held_by me m = klocks s"
  shows "release_outcome me l m (spin_release me l m) (release l s)"
proof (cases "l \<in> klocks s")
  case True
  obtain c where c: "cpu_ix m me = Some c" and n: "ncli (cpus m c) = int (card (held_by me m))" and f: "finite (held_by me m)" "\<not> eflags_IF m me"
    using assms True by (auto simp: cpu_ok_def)
  have h: "lk_locked (lks m l) \<noteq> 0" "lk_cpu (lks m l) = Some c" using c assms(2) True by (auto simp: held_by_def)
  have "0 < ncli (cpus m c)" using n f(1) True assms(2) by (auto simp: card_gt_0_iff)
  then have r: "spin_release me l m = Ok () (dropped me c l m)" using h f(2) by (simp add: spin_release_ok[OF c])
  then show ?thesis using True assms cpu_locks.rel_held[OF assms(1), of l] held_by_others(3)[OF c _ h(2)] by (simp add: release_outcome_def)
next
  case False
  then show ?thesis using assms cpu_locks.rel_other[of me m l] by (simp add: release_outcome_def)
qed

text \<open>C1. For a processor in order, \<^verbatim>\<open>acquire\<close> and \<^verbatim>\<open>release\<close> on the machine refine the operations on the set of held locks. They panic in the
  same cases. \<^verbatim>\<open>acquire\<close> returns exactly when the lock word is zero and spins exactly when another processor has the lock; when a retry finds
  the word zero it returns with the lock added. \<^verbatim>\<open>release\<close> never waits and leaves the word zero. When they return the held locks are those of the
  set, and no operation changes what another processor holds.\<close>

theorem spinlock_refines_lock_sets:
  assumes "cpu_ok me m" "held_by me m = klocks s"
  shows "acquire_outcome me l m (spin_acquire me v l m) (acquire l s) \<and> release_outcome me l m (spin_release me l m) (release l s)
    \<and> (\<forall>m'. waiting me l m' \<and> held_by me m' = klocks s \<and> lk_locked (lks m' l) = 0 \<longrightarrow> acquire_outcome me l m' (acquire_spin me v l m') (acquire l s))"
  using acquire_refines[OF assms] release_refines[OF assms] retry_refines by blast

text \<open>Two processors: 3 has the log's lock; 5 can take another lock and has to wait for this one.\<close>

definition two_apics :: "lockid machine" where
  "two_apics = \<lparr>cpus = (\<lambda>i. \<lparr>apicid = (if i = 0 then 3 else 5), ncli = (if i = 0 then 1 else 0), intena = False\<rparr>), ncpu = 2,
     eflags_IF = (\<lambda>me. me \<noteq> 3), lks = (\<lambda>l. \<lparr>lk_locked = (if l = LLog then 1 else 0), lk_name = [], lk_cpu = (if l = LLog then Some 0 else None), lk_pcs = (\<lambda>_. 0)\<rparr>),
     kword = (\<lambda>_. 0)\<rparr>"

theorem spinlock_refines_lock_sets_witness:
  "cpu_ok 5 two_apics \<and> held_by 5 two_apics = {} \<and> lk_locked (lks two_apics LLog) \<noteq> 0
   \<and> acquire_outcome 5 LLog two_apics (spin_acquire 5 0 LLog two_apics) (acquire LLog \<lparr>klocks = {}\<rparr>)
   \<and> acquire_outcome 5 LCons two_apics (spin_acquire 5 0 LCons two_apics) (acquire LCons \<lparr>klocks = {}\<rparr>)"
proof -
  have ix: "cpu_ix two_apics 5 = Some 1" by (simp add: cpu_ix_def two_apics_def upt_rec)
  have h: "held_by 5 two_apics = {}" unfolding held_by_def ix by (simp add: two_apics_def)
  have "cpu_ok 5 two_apics" unfolding cpu_ok_def h ix by (simp add: two_apics_def)
  moreover have "lk_locked (lks two_apics LLog) \<noteq> 0" by (simp add: two_apics_def)
  ultimately show ?thesis using h spinlock_refines_lock_sets[of 5 two_apics "\<lparr>klocks = {}\<rparr>"] by simp
qed

end
