(* ===== verification/Sched.thy ===== *)
theory Sched
  imports Spinlock
begin

text \<open>
  Processes and their scheduling: the process table of \<^verbatim>\<open>src/xv6/proc.h\<close> and the parts of
  \<^verbatim>\<open>src/xv6/proc.c\<close> that switch between processes (\<^verbatim>\<open>scheduler\<close>, \<^verbatim>\<open>sched\<close>, \<^verbatim>\<open>yield\<close>, \<^verbatim>\<open>sleep\<close>,
  \<^verbatim>\<open>wakeup\<close>, \<^verbatim>\<open>kill\<close>), and the sleep locks of \<^verbatim>\<open>src/xv6/sleeplock.c\<close>.

  A process is its slot in the table. \<open>curproc\<close> is \<^verbatim>\<open>c->proc\<close> of the executing processor. A
  thread that calls \<open>sched\<close> leaves with \<open>Blocked\<close>; what it does when the scheduler switches back
  to it is a definition of its own (\<open>sleep_wake\<close>, \<open>yield_wake\<close>). \<open>scheduler_step\<close> is one step
  of the scheduler's loop. The kernel dies with \<^verbatim>\<open>panic("trap")\<close> on a null dereference.

  Shown: \<^verbatim>\<open>wakeup\<close> makes exactly the sleepers of a channel runnable; the scheduler is round robin
  with bounded waiting; \<^verbatim>\<open>kill\<close> marks one process and never leaves it asleep; sleep
  locks exclude each other.
\<close>

subsection \<open>State\<close>

datatype procstate = UNUSED | EMBRYO | SLEEPING | RUNNABLE | RUNNING | ZOMBIE

text \<open>A channel is the address a process sleeps on.\<close>

datatype chan =
  ChProc nat | ChTicks | ChPipeRead nat | ChPipeWrite nat | ChLog | ChBufLock nat | ChInodeLock nat
| ChInput | ChBuf nat

record trapframe =
  tf_edi :: u32
  tf_esi :: u32
  tf_ebp :: u32
  tf_oesp :: u32
  tf_ebx :: u32
  tf_edx :: u32
  tf_ecx :: u32
  tf_eax :: u32
  tf_gs :: u16
  tf_fs :: u16
  tf_es :: u16
  tf_ds :: u16
  tf_trapno :: u32
  tf_err :: u32
  tf_eip :: u32
  tf_cs :: u16
  tf_eflags :: u32
  tf_esp :: u32
  tf_ss :: u16

record kcontext =
  cx_edi :: u32
  cx_esi :: u32
  cx_ebx :: u32
  cx_ebp :: u32
  cx_eip :: u32

record proc =
  p_sz :: u32
  p_pgdir :: u32
  p_kstack :: u32
  p_state :: procstate
  p_pid :: int
  p_parent :: "nat option"
  p_tf :: trapframe
  p_context :: kcontext
  p_chan :: "chan option"
  p_killed :: bool
  p_ofile :: "nat \<Rightarrow> nat option"
  p_cwd :: "nat option"
  p_name :: string

record ksched = kbase +
  procs :: "nat \<Rightarrow> proc"
  curproc :: "nat option"
  nextpid :: int
  initproc :: "nat option"

definition upd_proc :: "nat \<Rightarrow> (proc \<Rightarrow> proc) \<Rightarrow> (unit, 'a ksched_scheme) kop" where
  "upd_proc p f = kmod (\<lambda>s. s\<lparr>procs := (procs s)(p := f (procs s p))\<rparr>)"

subsection \<open>Operations\<close>

definition wakeup1 :: "chan \<Rightarrow> (unit, 'a ksched_scheme) kop" where
  "wakeup1 ch = kfor [0..<NPROC] (\<lambda>p s.
     if p_state (procs s p) = SLEEPING \<and> p_chan (procs s p) = Some ch
     then upd_proc p (p_state_update (\<lambda>_. RUNNABLE)) s else Ok () s)"

definition wakeup :: "chan \<Rightarrow> (unit, 'a ksched_scheme) kop" where
  "wakeup ch = kthen (acquire LPtable) (kthen (wakeup1 ch) (release LPtable))"

text \<open>\<^verbatim>\<open>ncli\<close> is the number of held locks (theory \<open>Spinlock\<close>), and interrupts are off while it is
  positive, so the test on the interrupt flag cannot fail here.\<close>

definition sched :: "(unit, 'a ksched_scheme) kop" where
  "sched = (\<lambda>s.
     if \<not> holding LPtable s then Panic ''sched ptable.lock''
     else if klocks s \<noteq> {LPtable} then Panic ''sched locks''
     else case curproc s of
            None \<Rightarrow> Panic ''trap''
          | Some p \<Rightarrow> if p_state (procs s p) = RUNNING then Panic ''sched running'' else Blocked s)"

definition yield :: "(unit, 'a ksched_scheme) kop" where
  "yield =
     kthen (acquire LPtable) (
     kbind (kget curproc) (\<lambda>cp. case cp of
       None \<Rightarrow> kpanic ''trap''
     | Some p \<Rightarrow> kthen (upd_proc p (p_state_update (\<lambda>_. RUNNABLE))) sched))"

definition yield_wake :: "(unit, 'a ksched_scheme) kop" where
  "yield_wake = release LPtable"

definition sleep :: "chan \<Rightarrow> lockid option \<Rightarrow> (unit, 'a ksched_scheme) kop" where
  "sleep ch lk =
     kbind (kget curproc) (\<lambda>cp. case cp of
       None \<Rightarrow> kpanic ''sleep''
     | Some p \<Rightarrow> (case lk of
         None \<Rightarrow> kpanic ''sleep without lk''
       | Some l \<Rightarrow>
           kthen (if l \<noteq> LPtable then kthen (acquire LPtable) (release l) else kret ()) (
           kthen (upd_proc p (p_chan_update (\<lambda>_. Some ch))) (
           kthen (upd_proc p (p_state_update (\<lambda>_. SLEEPING))) sched))))"

definition sleep_wake :: "lockid \<Rightarrow> (unit, 'a ksched_scheme) kop" where
  "sleep_wake l =
     kbind (kget curproc) (\<lambda>cp. case cp of
       None \<Rightarrow> kpanic ''trap''
     | Some p \<Rightarrow>
         kthen (upd_proc p (p_chan_update (\<lambda>_. None)))
           (if l \<noteq> LPtable then kthen (release LPtable) (acquire l) else kret ()))"

fun kill_loop :: "int \<Rightarrow> nat list \<Rightarrow> (int, 'a ksched_scheme) kop" where
  "kill_loop pid [] = kthen (release LPtable) (kret (-1))"
| "kill_loop pid (p # ps) =
     kbind (kget (\<lambda>s. procs s p)) (\<lambda>pr.
     if p_pid pr = pid then
       kthen (upd_proc p (p_killed_update (\<lambda>_. True))) (
       kthen (if p_state pr = SLEEPING then upd_proc p (p_state_update (\<lambda>_. RUNNABLE)) else kret ()) (
       kthen (release LPtable) (kret 0)))
     else kill_loop pid ps)"

definition kill :: "int \<Rightarrow> (int, 'a ksched_scheme) kop" where
  "kill pid = kthen (acquire LPtable) (kill_loop pid [0..<NPROC])"

definition sys_pscnt :: "'a ksched_scheme \<Rightarrow> int" where
  "sys_pscnt s = foldl (\<lambda>n p. if p_state (procs s p) \<noteq> UNUSED then n + 1 else n) 0 [0..<NPROC]"

text \<open>Where the scheduler of a processor is: at the top of its outer loop, in the inner loop at
  slot \<open>i\<close> holding the table lock, or switched away to the process in slot \<open>i\<close>.\<close>

datatype sched_pc = Top | At nat | InProc nat

fun scheduler_step :: "sched_pc \<Rightarrow> (sched_pc, 'a ksched_scheme) kop" where
  "scheduler_step Top = kthen (acquire LPtable) (kret (At 0))"
| "scheduler_step (At i) =
     (if i < NPROC then
        kbind (kget (\<lambda>s. p_state (procs s i))) (\<lambda>st.
        if st \<noteq> RUNNABLE then kret (At (i + 1))
        else kthen (kmod (\<lambda>s. s\<lparr>curproc := Some i\<rparr>)) (
             kthen (upd_proc i (p_state_update (\<lambda>_. RUNNING))) (kret (InProc i))))
      else kthen (release LPtable) (kret Top))"
| "scheduler_step (InProc i) = kthen (kmod (\<lambda>s. s\<lparr>curproc := None\<rparr>)) (kret (At (i + 1)))"

subsection \<open>Sleep locks\<close>

record sleeplock =
  sl_locked :: bool
  sl_name :: string
  sl_pid :: int

text \<open>A sleep lock lives inside a buffer or an inode: the operations are given its spin lock
  \<open>l\<close>, its address \<open>ch\<close> as a channel, and how to read and write it in the kernel state.\<close>

definition initsleeplock :: "string \<Rightarrow> sleeplock \<Rightarrow> sleeplock" where
  "initsleeplock name lk = lk\<lparr>sl_name := name, sl_locked := False, sl_pid := 0\<rparr>"

definition mypid :: "(int, 'a ksched_scheme) kop" where
  "mypid = (\<lambda>s. case curproc s of None \<Rightarrow> Panic ''trap'' | Some p \<Rightarrow> Ok (p_pid (procs s p)) s)"

text \<open>From the head of the \<^verbatim>\<open>while\<close> loop on; a sleeper comes back here after \<open>sleep_wake l\<close>.\<close>

definition acquiresleep_loop ::
  "lockid \<Rightarrow> chan \<Rightarrow> ('a ksched_scheme \<Rightarrow> sleeplock) \<Rightarrow> ((sleeplock \<Rightarrow> sleeplock) \<Rightarrow> 'a ksched_scheme \<Rightarrow> 'a ksched_scheme)
   \<Rightarrow> (unit, 'a ksched_scheme) kop" where
  "acquiresleep_loop l ch get upd =
     kbind (kget (\<lambda>s. sl_locked (get s))) (\<lambda>b.
     if b then sleep ch (Some l) else
     kthen (kmod (upd (sl_locked_update (\<lambda>_. True)))) (
     kbind mypid (\<lambda>pid.
     kthen (kmod (upd (sl_pid_update (\<lambda>_. pid)))) (release l))))"

definition acquiresleep ::
  "lockid \<Rightarrow> chan \<Rightarrow> ('a ksched_scheme \<Rightarrow> sleeplock) \<Rightarrow> ((sleeplock \<Rightarrow> sleeplock) \<Rightarrow> 'a ksched_scheme \<Rightarrow> 'a ksched_scheme)
   \<Rightarrow> (unit, 'a ksched_scheme) kop" where
  "acquiresleep l ch get upd = kthen (acquire l) (acquiresleep_loop l ch get upd)"

definition releasesleep ::
  "lockid \<Rightarrow> chan \<Rightarrow> ((sleeplock \<Rightarrow> sleeplock) \<Rightarrow> 'a ksched_scheme \<Rightarrow> 'a ksched_scheme)
   \<Rightarrow> (unit, 'a ksched_scheme) kop" where
  "releasesleep l ch upd =
     kthen (acquire l) (
     kthen (kmod (upd (sl_locked_update (\<lambda>_. False)))) (
     kthen (kmod (upd (sl_pid_update (\<lambda>_. 0)))) (
     kthen (wakeup ch) (release l))))"

definition holdingsleep :: "lockid \<Rightarrow> ('a ksched_scheme \<Rightarrow> sleeplock) \<Rightarrow> (bool, 'a ksched_scheme) kop" where
  "holdingsleep l get =
     kthen (acquire l) (
     kbind (kget get) (\<lambda>lk.
     kbind (if sl_locked lk then kbind mypid (\<lambda>pid. kret (sl_pid lk = pid)) else kret False) (\<lambda>r.
     kthen (release l) (kret r))))"

subsection \<open>Wakeup, sleep and kill in closed form\<close>

lemma upd_proc_apply [simp]: "upd_proc p f s = Ok () (s\<lparr>procs := (procs s)(p := f (procs s p))\<rparr>)"
  by (simp add: upd_proc_def)

lemma kfor_procs:
  assumes "distinct ps"
  shows "kfor ps (\<lambda>p s. if P (procs s p) then upd_proc p f s else Ok () s) s
    = Ok () (s\<lparr>procs := (\<lambda>i. if i \<in> set ps \<and> P (procs s i) then f (procs s i) else procs s i)\<rparr>)"
  using assms
proof (induction ps arbitrary: s)
  case (Cons q ps)
  define s1 where "s1 = (if P (procs s q) then s\<lparr>procs := (procs s)(q := f (procs s q))\<rparr> else s)"
  have s1: "s1\<lparr>procs := g\<rparr> = s\<lparr>procs := g\<rparr>" for g by (simp add: s1_def)
  have p1: "procs s1 i = (if i = q \<and> P (procs s q) then f (procs s q) else procs s i)" for i
    by (simp add: s1_def)
  have "(\<lambda>i. if i \<in> set ps \<and> P (procs s1 i) then f (procs s1 i) else procs s1 i)
      = (\<lambda>i. if i \<in> set (q # ps) \<and> P (procs s i) then f (procs s i) else procs s i)"
    using Cons.prems by (intro ext) (auto simp: p1)
  moreover have "(if P (procs s q) then upd_proc q f s else Ok () s) = Ok () s1" by (simp add: s1_def)
  ultimately show ?case using Cons.IH[of s1] Cons.prems by (simp add: s1 kthen_apply)
qed simp

definition woken :: "chan \<Rightarrow> (nat \<Rightarrow> proc) \<Rightarrow> nat \<Rightarrow> proc" where
  "woken ch ps = (\<lambda>i. if i < NPROC \<and> p_state (ps i) = SLEEPING \<and> p_chan (ps i) = Some ch
     then (ps i)\<lparr>p_state := RUNNABLE\<rparr> else ps i)"

lemma wakeup1_apply: "wakeup1 ch s = Ok () (s\<lparr>procs := woken ch (procs s)\<rparr>)"
  by (simp add: wakeup1_def woken_def kfor_procs[where P = "\<lambda>p. p_state p = SLEEPING \<and> p_chan p = Some ch"])

lemma wakeup_apply [simp]: "LPtable \<notin> klocks s \<Longrightarrow> wakeup ch s = Ok () (s\<lparr>procs := woken ch (procs s)\<rparr>)"
  by (simp add: wakeup_def wakeup1_apply)

lemma woken_fields [simp]:
  "p_pid (woken ch ps i) = p_pid (ps i)" "p_killed (woken ch ps i) = p_killed (ps i)"
  "p_parent (woken ch ps i) = p_parent (ps i)" "p_chan (woken ch ps i) = p_chan (ps i)"
  "p_ofile (woken ch ps i) = p_ofile (ps i)" "p_cwd (woken ch ps i) = p_cwd (ps i)"
  "p_sz (woken ch ps i) = p_sz (ps i)" "p_pgdir (woken ch ps i) = p_pgdir (ps i)"
  by (simp_all add: woken_def)

lemma sched_blocks [simp]:
  "klocks s = {LPtable} \<Longrightarrow> curproc s = Some p \<Longrightarrow> p_state (procs s p) \<noteq> RUNNING \<Longrightarrow> sched s = Blocked s"
  by (simp add: sched_def holding_def)

lemma sched_locks [simp]: "LPtable \<in> klocks s \<Longrightarrow> klocks s \<noteq> {LPtable} \<Longrightarrow> sched s = Panic ''sched locks''"
  by (simp add: sched_def holding_def)

definition asleep :: "chan \<Rightarrow> nat \<Rightarrow> 'a ksched_scheme \<Rightarrow> 'a ksched_scheme" where
  "asleep ch p s = s\<lparr>klocks := {LPtable},
     procs := (procs s)(p := (procs s p)\<lparr>p_chan := Some ch, p_state := SLEEPING\<rparr>)\<rparr>"

lemma sleep_apply [simp]:
  assumes "klocks s = {l}" "curproc s = Some p"
  shows "sleep ch (Some l) s = Blocked (asleep ch p s)"
proof (cases "l = LPtable")
  case True
  with assms show ?thesis by (simp add: sleep_def asleep_def)
next
  case False
  then have "{LPtable, l} - {l} = {LPtable}" by blast
  with assms False show ?thesis by (simp add: sleep_def asleep_def)
qed

lemma sched_never_Ok [simp]: "sched s \<noteq> Ok a t"
  by (simp add: sched_def split: option.split)

lemma sleep_never_Ok [simp]: "sleep ch lk s \<noteq> Ok a t"
  by (auto simp: sleep_def elim!: kbind_OkE kthen_OkE split: option.splits)

text \<open>Sleeping with a second lock held is the panic \<^verbatim>\<open>sched locks\<close>.\<close>

lemma sleep_locks:
  assumes "l \<in> klocks s" "m \<in> klocks s" "m \<noteq> l" "l \<noteq> LPtable" "LPtable \<notin> klocks s" "curproc s = Some p"
  shows "sleep ch (Some l) s = Panic ''sched locks''"
proof -
  have "m \<in> insert LPtable (klocks s) - {l}" "m \<noteq> LPtable" using assms(2-5) by blast+
  then have "insert LPtable (klocks s) - {l} \<noteq> {LPtable}" by (metis singletonD)
  with assms show ?thesis by (simp add: sleep_def)
qed

text \<open>\<^verbatim>\<open>wakeup\<close> makes runnable exactly the table's processes that sleep on the channel, and
  changes nothing else of the kernel state. In particular a process that went to sleep on the
  channel through \<^verbatim>\<open>sleep\<close> is runnable after it.\<close>

theorem wakeup_exact:
  assumes "LPtable \<notin> klocks s"
  shows "wakeup ch s = Ok () (s\<lparr>procs := woken ch (procs s)\<rparr>)
    \<and> (\<forall>i<NPROC. p_state (woken ch (procs s) i) =
         (if p_state (procs s i) = SLEEPING \<and> p_chan (procs s i) = Some ch then RUNNABLE
          else p_state (procs s i)))
    \<and> (\<forall>p l t t'. p < NPROC \<longrightarrow> curproc t = Some p \<longrightarrow> klocks t = {l} \<longrightarrow> sleep ch (Some l) t = Blocked t'
         \<longrightarrow> p_state (woken ch (procs t') p) = RUNNABLE)"
  using assms by (auto simp: asleep_def woken_def)

definition kill_mark :: "proc \<Rightarrow> proc" where
  "kill_mark pr = pr\<lparr>p_killed := True, p_state := (if p_state pr = SLEEPING then RUNNABLE else p_state pr)\<rparr>"

lemma kill_loop_apply:
  "LPtable \<in> klocks s \<Longrightarrow> kill_loop pid ps s =
     (case List.find (\<lambda>p. p_pid (procs s p) = pid) ps of
        None \<Rightarrow> Ok (-1) (s\<lparr>klocks := klocks s - {LPtable}\<rparr>)
      | Some p \<Rightarrow> Ok 0 (s\<lparr>procs := (procs s)(p := kill_mark (procs s p)), klocks := klocks s - {LPtable}\<rparr>))"
  by (induction ps) (auto simp: kbind_apply kthen_apply kill_mark_def)

lemma kill_apply:
  assumes "LPtable \<notin> klocks s"
  shows "kill pid s =
     (case List.find (\<lambda>p. p_pid (procs s p) = pid) [0..<NPROC] of
        None \<Rightarrow> Ok (-1) s
      | Some p \<Rightarrow> Ok 0 (s\<lparr>procs := (procs s)(p := kill_mark (procs s p))\<rparr>))"
  using assms by (auto simp: kill_def kill_loop_apply split: option.split)

text \<open>\<^verbatim>\<open>kill\<close> returns -1 and changes nothing when no slot of the table has the pid; otherwise
  it returns 0, marks the first such slot killed, takes that process out of sleep, and changes
  nothing else.\<close>

theorem kill_marks:
  assumes "LPtable \<notin> klocks s"
  shows "((\<forall>p<NPROC. p_pid (procs s p) \<noteq> pid) \<and> kill pid s = Ok (-1) s)
    \<or> (\<exists>p<NPROC. p_pid (procs s p) = pid \<and> (\<forall>q<p. p_pid (procs s q) \<noteq> pid)
        \<and> kill pid s = Ok 0 (s\<lparr>procs := (procs s)(p := kill_mark (procs s p))\<rparr>)
        \<and> p_killed (kill_mark (procs s p)) \<and> p_state (kill_mark (procs s p)) \<noteq> SLEEPING)"
proof (cases "List.find (\<lambda>p. p_pid (procs s p) = pid) [0..<NPROC]")
  case None
  then have "\<forall>p<NPROC. p_pid (procs s p) \<noteq> pid" by (auto simp: find_None_iff)
  with None show ?thesis by (simp add: kill_apply[OF assms])
next
  case (Some p)
  then have "p < NPROC" "p_pid (procs s p) = pid" "\<forall>q<p. p_pid (procs s q) \<noteq> pid"
    by (auto simp: find_Some_iff)
  with Some show ?thesis by (auto simp: kill_apply[OF assms] kill_mark_def)
qed

lemma sys_pscnt_card: "sys_pscnt s = int (card {p. p < NPROC \<and> p_state (procs s p) \<noteq> UNUSED})"
proof -
  have "foldl (\<lambda>n p. if P p then n + 1 else n) k [0..<m] = k + int (card {p. p < m \<and> P p})" for P k m
  proof (induction m)
    case (Suc m)
    have "{p. p < Suc m \<and> P p} = (if P m then insert m {p. p < m \<and> P p} else {p. p < m \<and> P p})"
      by (auto simp: less_Suc_eq)
    with Suc show ?case by simp
  qed simp
  then show ?thesis by (simp add: sys_pscnt_def)
qed

subsection \<open>The scheduler\<close>

text \<open>\<open>sched_run p n c c'\<close>: a run of the scheduler of one processor in which it makes \<open>n\<close> steps,
  finds \<open>p\<close> runnable at each of them, and never switches to \<open>p\<close>. Between its steps the rest of
  the system may do anything.\<close>

inductive sched_run :: "nat \<Rightarrow> nat \<Rightarrow> sched_pc \<times> 'a ksched_scheme \<Rightarrow> sched_pc \<times> 'a ksched_scheme \<Rightarrow> bool" where
  start: "sched_run p 0 c c"
| loop: "sched_run p n c (pc, s) \<Longrightarrow> p_state (procs s p) = RUNNABLE \<Longrightarrow> scheduler_step pc s = Ok pc' s' \<Longrightarrow>
    pc' \<noteq> InProc p \<Longrightarrow> sched_run p (Suc n) c (pc', s')"
| others: "sched_run p n c (pc, s) \<Longrightarrow> sched_run p n c (pc, s')"

fun pc_ok :: "sched_pc \<Rightarrow> bool" where
  "pc_ok Top = True"
| "pc_ok (At i) = (i \<le> NPROC)"
| "pc_ok (InProc i) = (i < NPROC)"

text \<open>How many steps the loop can still make before it must switch to \<open>p\<close>.\<close>

fun sched_dist :: "nat \<Rightarrow> sched_pc \<Rightarrow> nat" where
  "sched_dist p Top = 2 * p + 1"
| "sched_dist p (At i) = (if i \<le> p then 2 * (p - i) else 2 * (NPROC - i) + 2 * p + 2)"
| "sched_dist p (InProc i) = (if i < p then 2 * (p - i) - 1 else 2 * (NPROC - i) + 2 * p + 1)"

lemma scheduler_step_At:
  assumes "scheduler_step (At i) s = Ok pc' s'"
  shows "(i < NPROC \<and> p_state (procs s i) \<noteq> RUNNABLE \<and> pc' = At (i + 1) \<and> s' = s)
    \<or> (i < NPROC \<and> p_state (procs s i) = RUNNABLE \<and> pc' = InProc i \<and> curproc s' = Some i
        \<and> p_state (procs s' i) = RUNNING)
    \<or> (NPROC \<le> i \<and> pc' = Top)"
  using assms by (auto simp: kbind_apply kthen_apply split: if_splits res.splits)

lemma scheduler_step_dist:
  assumes "p < NPROC" "pc_ok pc" "p_state (procs s p) = RUNNABLE" "scheduler_step pc s = Ok pc' s'" "pc' \<noteq> InProc p"
  shows "pc_ok pc' \<and> sched_dist p pc' < sched_dist p pc"
proof (cases pc)
  case Top
  then show ?thesis using assms by (auto simp: kthen_apply split: res.splits)
next
  case (At i)
  then show ?thesis using scheduler_step_At[of i s pc' s'] assms by (cases "i = p") auto
next
  case (InProc i)
  then show ?thesis using assms by (auto simp: kthen_apply)
qed

lemma sched_run_dist:
  assumes "sched_run p n c c'" "p < NPROC" "pc_ok (fst c)"
  shows "pc_ok (fst c') \<and> n + sched_dist p (fst c') \<le> sched_dist p (fst c)"
  using assms
proof (induction rule: sched_run.induct)
  case (loop p n c pc s pc' s')
  then have "pc_ok pc" "n + sched_dist p pc \<le> sched_dist p (fst c)" by simp_all
  with scheduler_step_dist[OF loop.prems(1) \<open>pc_ok pc\<close> loop.hyps(2-4)] show ?case by auto
qed auto

text \<open>C11. Bounded waiting: whatever the rest of the system does in between, the scheduler's
  loop makes at most \<^verbatim>\<open>2 * NPROC + 1\<close> steps that find a process runnable before it switches
  to that process.\<close>

theorem scheduler_bounded_waiting:
  assumes "sched_run p n (pc, s) c'" "p < NPROC" "pc_ok pc"
  shows "n \<le> 2 * NPROC + 1"
proof -
  have "sched_dist p pc \<le> 2 * NPROC + 1" using assms(2,3) by (cases pc) auto
  with sched_run_dist[OF assms(1,2)] assms(3) show ?thesis by simp
qed

text \<open>The loop itself never panics when the table lock is where it should be.\<close>

lemma scheduler_step_total:
  assumes "LPtable \<in> klocks s \<longleftrightarrow> pc \<noteq> Top"
  shows "\<exists>pc' s'. scheduler_step pc s = Ok pc' s' \<and> (LPtable \<in> klocks s' \<longleftrightarrow> pc' \<noteq> Top)"
  using assms by (cases pc) (auto simp: kbind_apply kthen_apply)

subsection \<open>Sleep locks\<close>

text \<open>What the operations need of the place a sleep lock is stored in: it can be read back after an
  update, and updating it touches neither the process table nor the spin locks.\<close>

locale sleeplock_place =
  fixes l :: lockid and ch :: chan
    and get :: "'a ksched_scheme \<Rightarrow> sleeplock"
    and upd :: "(sleeplock \<Rightarrow> sleeplock) \<Rightarrow> 'a ksched_scheme \<Rightarrow> 'a ksched_scheme"
  assumes not_ptable [simp]: "l \<noteq> LPtable"
    and get_upd [simp]: "get (upd f s) = f (get s)"
    and upd_upd [simp]: "upd f (upd g s) = upd (f \<circ> g) s"
    and get_frame [simp]: "get (s\<lparr>klocks := K\<rparr>) = get s" "get (s\<lparr>procs := P\<rparr>) = get s"
    and upd_frame [simp]: "klocks (upd f s) = klocks s" "procs (upd f s) = procs s" "curproc (upd f s) = curproc s"
    and upd_comm: "(upd f s)\<lparr>klocks := K\<rparr> = upd f (s\<lparr>klocks := K\<rparr>)" "(upd f s)\<lparr>procs := P\<rparr> = upd f (s\<lparr>procs := P\<rparr>)"
begin

lemma acquiresleep_free:
  assumes "l \<notin> klocks s" "\<not> sl_locked (get s)" "curproc s = Some p"
  shows "acquiresleep l ch get upd s = Ok () (upd (\<lambda>k. k\<lparr>sl_locked := True, sl_pid := p_pid (procs s p)\<rparr>) s)"
proof -
  have "(sl_pid_update (\<lambda>_. x) \<circ> sl_locked_update (\<lambda>_. True)) = (\<lambda>k :: sleeplock. k\<lparr>sl_locked := True, sl_pid := x\<rparr>)" for x
    by (simp add: fun_eq_iff)
  with assms show ?thesis
    by (simp add: acquiresleep_def acquiresleep_loop_def mypid_def upd_comm)
qed

lemma acquiresleep_taken:
  assumes "klocks s = {}" "sl_locked (get s)" "curproc s = Some p"
  shows "acquiresleep l ch get upd s = Blocked (asleep ch p s)"
  using assms by (simp add: acquiresleep_def acquiresleep_loop_def asleep_def)

lemma releasesleep_apply:
  assumes "l \<notin> klocks s" "LPtable \<notin> klocks s"
  shows "releasesleep l ch upd s
    = Ok () (upd (\<lambda>k. k\<lparr>sl_locked := False, sl_pid := 0\<rparr>) (s\<lparr>procs := woken ch (procs s)\<rparr>))"
proof -
  have "(sl_pid_update (\<lambda>_. 0) \<circ> sl_locked_update (\<lambda>_. False)) = (\<lambda>k :: sleeplock. k\<lparr>sl_locked := False, sl_pid := 0\<rparr>)"
    by (simp add: fun_eq_iff)
  moreover have "LPtable \<notin> insert l (klocks s)" using assms not_ptable by auto
  ultimately show ?thesis using assms by (simp add: releasesleep_def upd_comm)
qed

lemma holdingsleep_apply:
  assumes "l \<notin> klocks s" "curproc s = Some p"
  shows "holdingsleep l get s = Ok (sl_locked (get s) \<and> sl_pid (get s) = p_pid (procs s p)) s"
  using assms by (simp add: holdingsleep_def mypid_def)

text \<open>A sleep lock excludes: between its acquisition and its release every other acquisition
  goes to sleep, and the release wakes every process that did.\<close>

lemma excludes:
  assumes "l \<notin> klocks s" "curproc s = Some p" "acquiresleep l ch get upd s = Ok () s'"
    and "procs t = procs s'" "get t = get s'" "klocks t = {}" "curproc t = Some q"
  shows "acquiresleep l ch get upd t = Blocked (asleep ch q t)"
proof -
  have "sl_locked (get s')"
  proof (cases "sl_locked (get s)")
    case True
    with assms(1,3) show ?thesis by (simp add: acquiresleep_def acquiresleep_loop_def)
  next
    case False
    with acquiresleep_free[OF assms(1) False assms(2)] assms(3) show ?thesis by auto
  qed
  with assms show ?thesis by (intro acquiresleep_taken) simp_all
qed

end

subsection \<open>Witnesses\<close>

definition trapframe_zero :: trapframe where
  "trapframe_zero = \<lparr>tf_edi = 0, tf_esi = 0, tf_ebp = 0, tf_oesp = 0, tf_ebx = 0, tf_edx = 0, tf_ecx = 0,
     tf_eax = 0, tf_gs = 0, tf_fs = 0, tf_es = 0, tf_ds = 0, tf_trapno = 0, tf_err = 0, tf_eip = 0, tf_cs = 0,
     tf_eflags = 0, tf_esp = 0, tf_ss = 0\<rparr>"

definition proc_zero :: proc where
  "proc_zero = \<lparr>p_sz = 0, p_pgdir = 0, p_kstack = 0, p_state = UNUSED, p_pid = 0, p_parent = None,
     p_tf = trapframe_zero, p_context = \<lparr>cx_edi = 0, cx_esi = 0, cx_ebx = 0, cx_ebp = 0, cx_eip = 0\<rparr>,
     p_chan = None, p_killed = False, p_ofile = (\<lambda>_. None), p_cwd = None, p_name = []\<rparr>"

text \<open>Process 4 in slot 1 sleeps on the ticks.\<close>

definition sample_sched :: ksched where
  "sample_sched = \<lparr>klocks = {},
     procs = (\<lambda>_. proc_zero)(1 := proc_zero\<lparr>p_state := SLEEPING, p_chan := Some ChTicks, p_pid := 4\<rparr>),
     curproc = None, nextpid = 5, initproc = None\<rparr>"

theorem wakeup_exact_witness:
  "p_state (woken ChTicks (procs sample_sched) 1) = RUNNABLE
   \<and> p_state (woken ChLog (procs sample_sched) 1) = SLEEPING
   \<and> wakeup ChLog sample_sched = Ok () (sample_sched\<lparr>procs := woken ChLog (procs sample_sched)\<rparr>)"
proof -
  have s: "p_state (procs sample_sched 1) = SLEEPING" "p_chan (procs sample_sched 1) = Some ChTicks"
    and lk: "LPtable \<notin> klocks sample_sched" and n: "(1::nat) < NPROC"
    by (simp_all add: sample_sched_def NPROC_def)
  note w = wakeup_exact[OF lk, THEN conjunct2, THEN conjunct1, rule_format, OF n]
  show ?thesis using w[of ChTicks] w[of ChLog] s lk by simp
qed

theorem kill_marks_witness: "\<exists>s'. kill 4 sample_sched = Ok 0 s' \<and> p_state (procs s' 1) = RUNNABLE"
proof -
  have "LPtable \<notin> klocks sample_sched" by (simp add: sample_sched_def)
  moreover have "p_pid (procs sample_sched p) = 4 \<longleftrightarrow> p = 1" for p by (simp add: sample_sched_def proc_zero_def)
  moreover have "(1::nat) < NPROC" by (simp add: NPROC_def)
  moreover have "p_state (kill_mark (procs sample_sched 1)) = RUNNABLE"
    by (simp add: sample_sched_def kill_mark_def)
  ultimately show ?thesis using kill_marks[of sample_sched 4] by auto
qed

theorem scheduler_bounded_waiting_witness:
  "sched_run 1 1 (Top, sample_sched\<lparr>procs := woken ChTicks (procs sample_sched)\<rparr>)
     (At 0, sample_sched\<lparr>procs := woken ChTicks (procs sample_sched), klocks := {LPtable}\<rparr>) \<and> (1::nat) \<le> 2 * NPROC + 1"
proof -
  let ?s = "sample_sched\<lparr>procs := woken ChTicks (procs sample_sched)\<rparr>"
  have "sched_run 1 (Suc 0) (Top, ?s) (At 0, ?s\<lparr>klocks := {LPtable}\<rparr>)"
    by (rule sched_run.loop[OF sched_run.start]) (simp_all add: sample_sched_def woken_def NPROC_def)
  with scheduler_bounded_waiting[of 1 "Suc 0" Top ?s] show ?thesis by (simp add: NPROC_def)
qed

end
