(* ===== verification/Sleep_Wakeup.thy ===== *)
theory Sleep_Wakeup
  imports Sched
begin

text \<open>
  No lost wakeups: \<^verbatim>\<open>sleep\<close> and \<^verbatim>\<open>wakeup\<close> of \<^verbatim>\<open>src/xv6/proc.c\<close> as instruction sequences that
  threads on different processors interleave.

  \<open>sleep_code\<close> and \<open>wakeup_code\<close> list the atomic actions of the two routines in program
  order; run by one thread alone they are the definitions of theory \<open>Sched\<close>. Thread 0 runs
  the kernel's waiting idiom \<^verbatim>\<open>acquire(lk); while(!cond) sleep(chan, lk); release(lk)\<close>, every
  other thread may run \<^verbatim>\<open>acquire(lk); cond = 1; wakeup(chan); release(lk)\<close> (as \<^verbatim>\<open>pipe.c\<close>,
  \<^verbatim>\<open>log.c\<close>, \<^verbatim>\<open>sleeplock.c\<close> and \<^verbatim>\<open>ide.c\<close> do). \<^verbatim>\<open>swtch\<close> has two halves: the scheduler drops
  the table lock after the switch, and takes it before it switches back.
\<close>

subsection \<open>The two routines as instruction sequences\<close>

datatype instr =
  IAcq lockid | IRel lockid | IChan "chan option" | IState procstate | ISwtch | IWake1 chan
| ISetCond | IUnless nat | IGoto nat

definition sleep_code :: "chan \<Rightarrow> lockid \<Rightarrow> instr list" where
  "sleep_code ch lk =
     (if lk \<noteq> LPtable then [IAcq LPtable, IRel lk] else [])
     @ [IChan (Some ch), IState SLEEPING, ISwtch, IChan None]
     @ (if lk \<noteq> LPtable then [IRel LPtable, IAcq lk] else [])"

definition wakeup_code :: "chan \<Rightarrow> instr list" where
  "wakeup_code ch = [IAcq LPtable, IWake1 ch, IRel LPtable]"

definition waiter_prog :: "chan \<Rightarrow> lockid \<Rightarrow> instr list" where
  "waiter_prog ch lk = [IAcq lk, IUnless 11] @ sleep_code ch lk @ [IGoto 1, IRel lk]"

definition waker_prog :: "chan \<Rightarrow> lockid \<Rightarrow> instr list" where
  "waker_prog ch lk = [IAcq lk, ISetCond] @ wakeup_code ch @ [IRel lk]"

text \<open>One thread alone, on the kernel state of theory \<open>Sched\<close>.\<close>

fun exec_instr :: "nat \<Rightarrow> instr \<Rightarrow> (unit, 'a ksched_scheme) kop" where
  "exec_instr p (IAcq l) = acquire l"
| "exec_instr p (IRel l) = release l"
| "exec_instr p (IChan c) = upd_proc p (p_chan_update (\<lambda>_. c))"
| "exec_instr p (IState st) = upd_proc p (p_state_update (\<lambda>_. st))"
| "exec_instr p ISwtch = sched"
| "exec_instr p (IWake1 ch) = wakeup1 ch"
| "exec_instr p _ = kret ()"

lemma kthen_assoc: "kthen (kthen a b) c = kthen a (kthen b c)"
  by (simp add: fun_eq_iff kthen_apply split: res.split)

lemma kthen_sched: "kthen sched n = sched"
  by (simp add: fun_eq_iff kthen_apply split: res.split)

lemma sleep_code_runs_sleep:
  "curproc s = Some p \<Longrightarrow> kfor (sleep_code ch lk) (exec_instr p) s = sleep ch (Some lk) s"
  by (simp add: sleep_code_def sleep_def kthen_sched kthen_assoc)

lemma wakeup_code_runs_wakeup: "kfor (wakeup_code ch) (exec_instr p) s = wakeup ch s"
  by (simp add: wakeup_code_def wakeup_def kthen_apply split: res.split)

subsection \<open>Interleaving\<close>

record sw_state =
  owner :: "lockid \<Rightarrow> nat option"
  cond :: bool
  sw_st :: procstate
  sw_chan :: "chan option"
  parked :: bool
  pc :: "nat \<Rightarrow> nat"

definition fetch :: "chan \<Rightarrow> lockid \<Rightarrow> sw_state \<Rightarrow> nat \<Rightarrow> instr option" where
  "fetch ch lk s t = (let prog = (if t = 0 then waiter_prog ch lk else waker_prog ch lk) in
     if pc s t < length prog then Some (prog ! pc s t) else None)"

definition jump :: "nat \<Rightarrow> nat \<Rightarrow> sw_state \<Rightarrow> sw_state" where
  "jump t n s = s\<lparr>pc := (pc s)(t := n)\<rparr>"

abbreviation next_pc :: "nat \<Rightarrow> sw_state \<Rightarrow> sw_state" where
  "next_pc t s \<equiv> jump t (Suc (pc s t)) s"

inductive sw_step :: "chan \<Rightarrow> lockid \<Rightarrow> sw_state \<Rightarrow> sw_state \<Rightarrow> bool" for ch lk where
  acq: "fetch ch lk s t = Some (IAcq l) \<Longrightarrow> owner s l = None \<Longrightarrow>
    sw_step ch lk s (next_pc t (s\<lparr>owner := (owner s)(l := Some t)\<rparr>))"
| rel: "fetch ch lk s t = Some (IRel l) \<Longrightarrow> owner s l = Some t \<Longrightarrow>
    sw_step ch lk s (next_pc t (s\<lparr>owner := (owner s)(l := None)\<rparr>))"
| chan: "fetch ch lk s t = Some (IChan c) \<Longrightarrow> sw_step ch lk s (next_pc t (s\<lparr>sw_chan := c\<rparr>))"
| state: "fetch ch lk s t = Some (IState st) \<Longrightarrow> sw_step ch lk s (next_pc t (s\<lparr>sw_st := st\<rparr>))"
| park: "fetch ch lk s t = Some ISwtch \<Longrightarrow> \<not> parked s \<Longrightarrow> owner s LPtable = Some t \<Longrightarrow>
    sw_step ch lk s (s\<lparr>owner := (owner s)(LPtable := None), parked := True\<rparr>)"
| unpark: "fetch ch lk s t = Some ISwtch \<Longrightarrow> parked s \<Longrightarrow> owner s LPtable = None \<Longrightarrow> sw_st s = RUNNABLE \<Longrightarrow>
    sw_step ch lk s (next_pc t (s\<lparr>owner := (owner s)(LPtable := Some t), parked := False, sw_st := RUNNING\<rparr>))"
| wake1: "fetch ch lk s t = Some (IWake1 c) \<Longrightarrow>
    sw_step ch lk s (next_pc t (s\<lparr>sw_st := (if sw_st s = SLEEPING \<and> sw_chan s = Some c then RUNNABLE else sw_st s)\<rparr>))"
| setcond: "fetch ch lk s t = Some ISetCond \<Longrightarrow> sw_step ch lk s (next_pc t (s\<lparr>cond := True\<rparr>))"
| test: "fetch ch lk s t = Some (IUnless n) \<Longrightarrow>
    sw_step ch lk s (jump t (if cond s then n else Suc (pc s t)) s)"
| goto: "fetch ch lk s t = Some (IGoto n) \<Longrightarrow> sw_step ch lk s (jump t n s)"

definition sw_init :: "sw_state \<Rightarrow> bool" where
  "sw_init s \<longleftrightarrow> (\<forall>l. owner s l = None) \<and> \<not> cond s \<and> sw_st s = RUNNING \<and> \<not> parked s \<and> (\<forall>t. pc s t = 0)"

subsection \<open>The invariant\<close>

text \<open>Which program counters own which lock; that the condition is false from the test to the
  release of \<open>lk\<close>; and that from there until the sleeper is woken, a true condition means
  that some waker still has its \<^verbatim>\<open>wakeup1\<close> ahead.\<close>

definition waker_has_lk :: "nat \<Rightarrow> bool" where
  "waker_has_lk n \<longleftrightarrow> 1 \<le> n \<and> n \<le> 5"

definition waker_has_ptable :: "nat \<Rightarrow> bool" where
  "waker_has_ptable n \<longleftrightarrow> n = 3 \<or> n = 4"

lemma waker_has_simps [simp]:
  "\<not> waker_has_lk 0" "waker_has_lk (Suc 0)" "waker_has_lk 2" "waker_has_lk 3" "waker_has_lk 4" "waker_has_lk 5" "\<not> waker_has_lk 6"
  "\<not> waker_has_ptable 0" "\<not> waker_has_ptable (Suc 0)" "\<not> waker_has_ptable 2" "waker_has_ptable 3" "waker_has_ptable 4"
  "\<not> waker_has_ptable 5" "\<not> waker_has_ptable 6" "waker_has_lk (Suc (Suc 0))" "\<not> waker_has_ptable (Suc (Suc 0))"
  by (simp_all add: waker_has_lk_def waker_has_ptable_def)

definition sw_owns :: "lockid \<Rightarrow> sw_state \<Rightarrow> bool" where
  "sw_owns lk s \<longleftrightarrow>
     (owner s lk = Some 0 \<longleftrightarrow> pc s 0 \<in> {1, 2, 3, 10, 11}) \<and>
     (owner s LPtable = Some 0 \<longleftrightarrow> pc s 0 \<in> {3, 4, 5, 7, 8} \<or> (pc s 0 = 6 \<and> \<not> parked s)) \<and>
     (\<forall>w>0. (owner s lk = Some w \<longleftrightarrow> waker_has_lk (pc s w)) \<and> (owner s LPtable = Some w \<longleftrightarrow> waker_has_ptable (pc s w)))"

definition sw_asleep :: "chan \<Rightarrow> sw_state \<Rightarrow> bool" where
  "sw_asleep ch s \<longleftrightarrow>
     (parked s \<longrightarrow> pc s 0 = 6) \<and>
     (pc s 0 \<in> {5, 6} \<longrightarrow> sw_chan s = Some ch) \<and>
     (pc s 0 = 6 \<longrightarrow> sw_st s = SLEEPING \<or> (parked s \<and> sw_st s = RUNNABLE))"

definition wake_ahead :: "sw_state \<Rightarrow> bool" where
  "wake_ahead s \<longleftrightarrow> (\<exists>w>0. pc s w = 2 \<or> pc s w = 3)"

definition sw_cond :: "sw_state \<Rightarrow> bool" where
  "sw_cond s \<longleftrightarrow>
     (pc s 0 \<in> {2, 3} \<longrightarrow> \<not> cond s) \<and>
     (pc s 0 \<in> {4, 5} \<or> (pc s 0 = 6 \<and> sw_st s = SLEEPING) \<longrightarrow> cond s \<longrightarrow> wake_ahead s) \<and>
     ((\<exists>w>0. 2 \<le> pc s w) \<longrightarrow> cond s)"

definition sw_inv :: "chan \<Rightarrow> lockid \<Rightarrow> sw_state \<Rightarrow> bool" where
  "sw_inv ch lk s \<longleftrightarrow> sw_owns lk s \<and> sw_asleep ch s \<and> sw_cond s"

lemma sw_inv_init: "sw_init s \<Longrightarrow> sw_inv ch lk s"
  by (auto simp: sw_inv_def sw_init_def sw_owns_def sw_asleep_def sw_cond_def)

lemma waiter_prog_eq: "lk \<noteq> LPtable \<Longrightarrow> waiter_prog ch lk =
    [IAcq lk, IUnless 11, IAcq LPtable, IRel lk, IChan (Some ch), IState SLEEPING, ISwtch, IChan None,
     IRel LPtable, IAcq lk, IGoto 1, IRel lk]"
  by (simp add: waiter_prog_def sleep_code_def)

lemma waker_prog_eq: "waker_prog ch lk = [IAcq lk, ISetCond, IAcq LPtable, IWake1 ch, IRel LPtable, IRel lk]"
  by (simp add: waker_prog_def wakeup_code_def)

text \<open>The program counters at which each instruction stands.\<close>

lemma fetch_waiter:
  assumes "lk \<noteq> LPtable"
  shows "fetch ch lk s 0 = Some i \<longleftrightarrow>
    (pc s 0 = 0 \<and> i = IAcq lk) \<or> (pc s 0 = 1 \<and> i = IUnless 11) \<or> (pc s 0 = 2 \<and> i = IAcq LPtable) \<or>
    (pc s 0 = 3 \<and> i = IRel lk) \<or> (pc s 0 = 4 \<and> i = IChan (Some ch)) \<or> (pc s 0 = 5 \<and> i = IState SLEEPING) \<or>
    (pc s 0 = 6 \<and> i = ISwtch) \<or> (pc s 0 = 7 \<and> i = IChan None) \<or> (pc s 0 = 8 \<and> i = IRel LPtable) \<or>
    (pc s 0 = 9 \<and> i = IAcq lk) \<or> (pc s 0 = 10 \<and> i = IGoto 1) \<or> (pc s 0 = 11 \<and> i = IRel lk)"
  unfolding fetch_def Let_def if_P[OF refl] waiter_prog_eq[OF assms]
  by (auto simp: nth_Cons' less_Suc_eq numeral_eq_Suc split: if_splits)

lemma fetch_waker:
  assumes "0 < w"
  shows "fetch ch lk s w = Some i \<longleftrightarrow>
    (pc s w = 0 \<and> i = IAcq lk) \<or> (pc s w = 1 \<and> i = ISetCond) \<or> (pc s w = 2 \<and> i = IAcq LPtable) \<or>
    (pc s w = 3 \<and> i = IWake1 ch) \<or> (pc s w = 4 \<and> i = IRel LPtable) \<or> (pc s w = 5 \<and> i = IRel lk)"
  using assms unfolding fetch_def waker_prog_eq
  by (auto simp: nth_Cons' less_Suc_eq numeral_eq_Suc split: if_splits)

lemma jump_simps [simp]:
  "owner (jump t n s) = owner s" "cond (jump t n s) = cond s" "sw_st (jump t n s) = sw_st s"
  "sw_chan (jump t n s) = sw_chan s" "parked (jump t n s) = parked s"
  "pc (jump t n s) u = (if u = t then n else pc s u)"
  by (simp_all add: jump_def)

lemma sw_ownsD:
  assumes "sw_owns lk s"
  shows "owner s lk = Some 0 \<longleftrightarrow> pc s 0 \<in> {1, 2, 3, 10, 11}"
    and "owner s LPtable = Some 0 \<longleftrightarrow> pc s 0 \<in> {3, 4, 5, 7, 8} \<or> (pc s 0 = 6 \<and> \<not> parked s)"
    and "0 < w \<Longrightarrow> owner s lk = Some w \<longleftrightarrow> waker_has_lk (pc s w)"
    and "0 < w \<Longrightarrow> owner s LPtable = Some w \<longleftrightarrow> waker_has_ptable (pc s w)"
  using assms unfolding sw_owns_def by blast+

lemma wake_ahead_upd [simp]:
  "wake_ahead (s\<lparr>owner := a\<rparr>) = wake_ahead s" "wake_ahead (s\<lparr>cond := b\<rparr>) = wake_ahead s"
  "wake_ahead (s\<lparr>sw_st := d\<rparr>) = wake_ahead s" "wake_ahead (s\<lparr>sw_chan := e\<rparr>) = wake_ahead s"
  "wake_ahead (s\<lparr>parked := f\<rparr>) = wake_ahead s" "wake_ahead (jump 0 n s) = wake_ahead s"
  by (auto simp: wake_ahead_def)

lemma wake_ahead_here [simp]: "0 < w \<Longrightarrow> n = 2 \<or> n = 3 \<Longrightarrow> wake_ahead (jump w n s)"
  by (auto simp: wake_ahead_def)

lemma wake_ahead_keep: "pc s w \<noteq> 2 \<Longrightarrow> pc s w \<noteq> 3 \<Longrightarrow> wake_ahead s \<Longrightarrow> wake_ahead (jump w n s)"
  unfolding wake_ahead_def by (metis jump_simps(6))

lemma sw_owns_waker_acq:
  assumes "sw_owns lk s" "0 < w" "lk \<noteq> LPtable" "owner s l = None"
    "(pc s w = 0 \<and> l = lk) \<or> (pc s w = 2 \<and> l = LPtable)"
  shows "sw_owns lk (next_pc w (s\<lparr>owner := (owner s)(l := Some w)\<rparr>))"
  unfolding sw_owns_def
proof (intro conjI allI impI, goal_cases)
  case 1 show ?case using assms(2-5) sw_ownsD(1)[OF assms(1)] by (elim disjE) auto
next
  case 2 show ?case using assms(2-5) sw_ownsD(2)[OF assms(1)] by (elim disjE) auto
next
  case (3 u) then show ?case
    using assms(2-5) sw_ownsD(3)[OF assms(1), of u] sw_ownsD(3)[OF assms(1), of w] by (elim disjE; cases "u = w") auto
next
  case (4 u) then show ?case
    using assms(2-5) sw_ownsD(4)[OF assms(1), of u] sw_ownsD(4)[OF assms(1), of w] by (elim disjE; cases "u = w") auto
qed

lemma sw_owns_waker_rel:
  assumes "sw_owns lk s" "0 < w" "lk \<noteq> LPtable" "owner s l = Some w"
    "(pc s w = 4 \<and> l = LPtable) \<or> (pc s w = 5 \<and> l = lk)"
  shows "sw_owns lk (next_pc w (s\<lparr>owner := (owner s)(l := None)\<rparr>))"
  unfolding sw_owns_def
proof (intro conjI allI impI, goal_cases)
  case 1 show ?case using assms(2-5) sw_ownsD(1)[OF assms(1)] by (elim disjE) auto
next
  case 2 show ?case using assms(2-5) sw_ownsD(2)[OF assms(1)] by (elim disjE) auto
next
  case (3 u) then show ?case
    using assms(2-5) sw_ownsD(3)[OF assms(1), of u] sw_ownsD(3)[OF assms(1), of w] by (elim disjE; cases "u = w") auto
next
  case (4 u) then show ?case
    using assms(2-5) sw_ownsD(4)[OF assms(1), of u] sw_ownsD(4)[OF assms(1), of w] by (elim disjE; cases "u = w") auto
qed

lemma sw_owns_waker_other:
  assumes "sw_owns lk s" "0 < w" "pc s w = 1 \<or> pc s w = 3"
  shows "sw_owns lk (next_pc w s)"
proof -
  have "waker_has_lk (Suc (pc s w)) = waker_has_lk (pc s w)"
    "waker_has_ptable (Suc (pc s w)) = waker_has_ptable (pc s w)" using assms(3) by auto
  with assms(1,2) show ?thesis by (auto simp: sw_owns_def)
qed

lemma sw_owns_upd [simp]:
  "sw_owns lk (s\<lparr>cond := b\<rparr>) = sw_owns lk s" "sw_owns lk (s\<lparr>sw_st := d\<rparr>) = sw_owns lk s"
  "sw_owns lk (s\<lparr>sw_chan := e\<rparr>) = sw_owns lk s" "sw_owns lk (jump t n (s\<lparr>cond := b\<rparr>)) = sw_owns lk (jump t n s)"
  "sw_owns lk (jump t n (s\<lparr>sw_st := d\<rparr>)) = sw_owns lk (jump t n s)"
  by (simp_all add: sw_owns_def)

lemma sw_condD:
  assumes "sw_cond s"
  shows "pc s 0 \<in> {2, 3} \<Longrightarrow> \<not> cond s"
    and "pc s 0 \<in> {4, 5} \<or> (pc s 0 = 6 \<and> sw_st s = SLEEPING) \<Longrightarrow> cond s \<Longrightarrow> wake_ahead s"
    and "0 < u \<Longrightarrow> 2 \<le> pc s u \<Longrightarrow> cond s"
  using assms unfolding sw_cond_def by blast+

lemma sw_cond_waker_keep:
  assumes "sw_cond s" "0 < w" "pc s w \<notin> {1, 3}" "pc t = pc s" "cond t = cond s" "sw_st t = sw_st s"
  shows "sw_cond (next_pc w t)"
proof -
  note C = sw_condD[OF assms(1)]
  have "wake_ahead t = wake_ahead s" using assms(4) by (simp add: wake_ahead_def)
  moreover have "wake_ahead s \<Longrightarrow> wake_ahead (next_pc w t)"
    using assms(2-4) calculation by (cases "pc s w = 2") (auto intro: wake_ahead_keep)
  moreover have "2 \<le> pc (next_pc w t) u \<Longrightarrow> 0 < u \<Longrightarrow> cond s" for u
    using C(3)[of u] assms(2-4) by (cases "u = w") (auto simp: numeral_2_eq_2 split: if_splits)
  ultimately show ?thesis
    unfolding sw_cond_def using C(1,2) assms(2,4-6) by (intro conjI impI; (elim exE conjE)?; simp)
qed

text \<open>A step of a waker.\<close>

lemma sw_inv_waker:
  assumes "lk \<noteq> LPtable" "sw_inv ch lk s" "0 < w"
  shows "fetch ch lk s w = Some (IAcq l) \<Longrightarrow> owner s l = None
      \<Longrightarrow> sw_inv ch lk (next_pc w (s\<lparr>owner := (owner s)(l := Some w)\<rparr>))" (is "?F1 \<Longrightarrow> ?O1 \<Longrightarrow> ?G1")
    and "fetch ch lk s w = Some (IRel l) \<Longrightarrow> owner s l = Some w
      \<Longrightarrow> sw_inv ch lk (next_pc w (s\<lparr>owner := (owner s)(l := None)\<rparr>))" (is "?F2 \<Longrightarrow> ?O2 \<Longrightarrow> ?G2")
    and "fetch ch lk s w = Some (IWake1 d)
      \<Longrightarrow> sw_inv ch lk (next_pc w (s\<lparr>sw_st := (if sw_st s = SLEEPING \<and> sw_chan s = Some d then RUNNABLE else sw_st s)\<rparr>))"
      (is "?F3 \<Longrightarrow> ?G3")
    and "fetch ch lk s w = Some ISetCond \<Longrightarrow> sw_inv ch lk (next_pc w (s\<lparr>cond := True\<rparr>))" (is "?F4 \<Longrightarrow> ?G4")
proof -
  from assms(2) have i: "sw_owns lk s" "sw_asleep ch s" "sw_cond s" by (auto simp: sw_inv_def)
  note F = fetch_waker[OF assms(3)] and O = sw_ownsD[OF i(1)] and C = sw_condD[OF i(3)]
  show ?G1 if ?F1 ?O1
  proof -
    have "(pc s w = 0 \<and> l = lk) \<or> (pc s w = 2 \<and> l = LPtable)" using that(1) unfolding F by auto
    then show ?thesis
      unfolding sw_inv_def
      using sw_owns_waker_acq[OF i(1) assms(3,1) that(2)] sw_cond_waker_keep[OF i(3) assms(3)] i(2) assms(3)
      by (auto simp: sw_asleep_def)
  qed
  show ?G2 if ?F2 ?O2
  proof -
    have "(pc s w = 4 \<and> l = LPtable) \<or> (pc s w = 5 \<and> l = lk)" using that(1) unfolding F by auto
    then show ?thesis
      unfolding sw_inv_def
      using sw_owns_waker_rel[OF i(1) assms(3,1) that(2)] sw_cond_waker_keep[OF i(3) assms(3)] i(2) assms(3)
      by (auto simp: sw_asleep_def)
  qed
  show ?G3 if ?F3
  proof -
    have p: "pc s w = 3" "d = ch" using that unfolding F by auto
    with O(4)[OF assms(3)] have "owner s LPtable \<noteq> Some 0" using assms(3) by simp
    with O(2) have "pc s 0 \<notin> {3, 4, 5, 7, 8}" "pc s 0 = 6 \<longrightarrow> parked s" by blast+
    moreover have "cond s" using C(3)[OF assms(3)] p(1) by simp
    ultimately show ?thesis
      using i(2) C(1) assms(3) p sw_owns_waker_other[OF i(1) assms(3)]
      unfolding sw_inv_def sw_cond_def sw_asleep_def by auto
  qed
  show ?G4 if ?F4
  proof -
    have p: "pc s w = 1" using that unfolding F by auto
    with O(3)[OF assms(3)] have "owner s lk \<noteq> Some 0" using assms(3) by simp
    with O(1) have "pc s 0 \<notin> {1, 2, 3, 10, 11}" by blast
    moreover have "wake_ahead (next_pc w (s\<lparr>cond := True\<rparr>))" using assms(3) p by simp
    ultimately show ?thesis
      using i(2) assms(3) p sw_owns_waker_other[OF i(1) assms(3)]
      unfolding sw_inv_def sw_cond_def sw_asleep_def by auto
  qed
qed

text \<open>A step of the waiter: the wakers' program counters stay.\<close>

lemma sw_inv_waiter:
  assumes "lk \<noteq> LPtable" "sw_inv ch lk s" "\<And>w. 0 < w \<Longrightarrow> pc s' w = pc s w"
    and "owner s' lk = Some 0 \<longleftrightarrow> pc s' 0 \<in> {1, 2, 3, 10, 11}"
    and "owner s' LPtable = Some 0 \<longleftrightarrow> pc s' 0 \<in> {3, 4, 5, 7, 8} \<or> (pc s' 0 = 6 \<and> \<not> parked s')"
    and "\<And>l w. 0 < w \<Longrightarrow> owner s' l = Some w \<longleftrightarrow> owner s l = Some w"
    and "sw_asleep ch s'" "cond s' = cond s"
    and "pc s' 0 \<in> {2, 3} \<Longrightarrow> \<not> cond s" 
    and "pc s' 0 \<in> {4, 5} \<or> (pc s' 0 = 6 \<and> sw_st s' = SLEEPING) \<Longrightarrow> cond s \<Longrightarrow> wake_ahead s"
  shows "sw_inv ch lk s'"
proof -
  have "sw_owns lk s" "sw_cond s" using assms(2) by (auto simp: sw_inv_def)
  then have "sw_owns lk s'" using assms(3-6) by (simp add: sw_owns_def)
  moreover have "wake_ahead s' = wake_ahead s" using assms(3) unfolding wake_ahead_def by metis
  moreover have "(\<exists>w>0. 2 \<le> pc s' w) \<longleftrightarrow> (\<exists>w>0. 2 \<le> pc s w)" using assms(3) by metis
  ultimately show ?thesis
    using \<open>sw_cond s\<close> assms(7-10) unfolding sw_inv_def sw_cond_def by metis
qed

lemma sw_inv_step:
  assumes "sw_step ch lk s s'" "lk \<noteq> LPtable" "sw_inv ch lk s"
  shows "sw_inv ch lk s'"
proof -
  from assms(3) have i: "sw_owns lk s" "sw_asleep ch s" "sw_cond s" by (auto simp: sw_inv_def)
  note O = sw_ownsD(1,2)[OF i(1)] and C = sw_condD(1,2)[OF i(3)] and A = i(2)[unfolded sw_asleep_def]
    and F = fetch_waiter[OF assms(2)] and W = sw_inv_waker[OF assms(2,3)]
  show ?thesis using assms(1)
  proof cases
    case (acq t l)
    show ?thesis
    proof (cases "t = 0")
      case True
      from acq True F assms(2) have "(pc s 0 = 0 \<and> l = lk) \<or> (pc s 0 = 2 \<and> l = LPtable) \<or> (pc s 0 = 9 \<and> l = lk)" by auto
      with acq True show ?thesis
        by (elim disjE; intro sw_inv_waiter[OF assms(2,3)])
          (use assms(2) O A C in \<open>simp_all add: sw_asleep_def split: if_splits\<close>)
    next
      case False
      with acq W(1) show ?thesis by blast
    qed
  next
    case (rel t l)
    show ?thesis
    proof (cases "t = 0")
      case True
      from rel True F assms(2) have "(pc s 0 = 3 \<and> l = lk) \<or> (pc s 0 = 8 \<and> l = LPtable) \<or> (pc s 0 = 11 \<and> l = lk)" by auto
      with rel True show ?thesis
        by (elim disjE; intro sw_inv_waiter[OF assms(2,3)])
          (use assms(2) O A C in \<open>simp_all add: sw_asleep_def split: if_splits\<close>)
    next
      case False
      with rel W(2) show ?thesis by blast
    qed
  next
    case (chan t d)
    show ?thesis
    proof (cases "t = 0")
      case True
      from chan True F assms(2) have "(pc s 0 = 4 \<and> d = Some ch) \<or> (pc s 0 = 7 \<and> d = None)" by auto
      with chan True show ?thesis
        by (elim disjE; intro sw_inv_waiter[OF assms(2,3)])
          (use assms(2) O A C in \<open>simp_all add: sw_asleep_def split: if_splits\<close>)
    next
      case False
      with chan show ?thesis by (simp add: fetch_waker)
    qed
  next
    case (state t st)
    show ?thesis
    proof (cases "t = 0")
      case True
      from state True F assms(2) have "pc s 0 = 5 \<and> st = SLEEPING" by auto
      with state True show ?thesis
        by (intro sw_inv_waiter[OF assms(2,3)])
          (use assms(2) O A C in \<open>simp_all add: sw_asleep_def split: if_splits\<close>)
    next
      case False
      with state show ?thesis by (simp add: fetch_waker)
    qed
  next
    case (park t)
    show ?thesis
    proof (cases "t = 0")
      case True
      from park True F assms(2) have "pc s 0 = 6" by auto
      with park True show ?thesis
        by (intro sw_inv_waiter[OF assms(2,3)])
          (use assms(2) O A C in \<open>simp_all add: sw_asleep_def split: if_splits\<close>)
    next
      case False
      with park show ?thesis by (simp add: fetch_waker)
    qed
  next
    case (unpark t)
    show ?thesis
    proof (cases "t = 0")
      case True
      from unpark True F assms(2) have "pc s 0 = 6" by auto
      with unpark True show ?thesis
        by (intro sw_inv_waiter[OF assms(2,3)])
          (use assms(2) O A C in \<open>simp_all add: sw_asleep_def split: if_splits\<close>)
    next
      case False
      with unpark show ?thesis by (simp add: fetch_waker)
    qed
  next
    case (wake1 t d)
    show ?thesis
    proof (cases "t = 0")
      case True
      with wake1 show ?thesis by (simp add: F)
    next
      case False
      with wake1 W(3) show ?thesis by blast
    qed
  next
    case (setcond t)
    show ?thesis
    proof (cases "t = 0")
      case True
      with setcond show ?thesis by (simp add: F)
    next
      case False
      with setcond W(4) show ?thesis by blast
    qed
  next
    case (test t n)
    show ?thesis
    proof (cases "t = 0")
      case True
      from test True F assms(2) have "pc s 0 = 1 \<and> n = 11" by auto
      with test True show ?thesis
        by (intro sw_inv_waiter[OF assms(2,3)])
          (use assms(2) O A C in \<open>simp_all add: sw_asleep_def split: if_splits\<close>)
    next
      case False
      with test show ?thesis by (simp add: fetch_waker)
    qed
  next
    case (goto t n)
    show ?thesis
    proof (cases "t = 0")
      case True
      from goto True F assms(2) have "pc s 0 = 10 \<and> n = 1" by auto
      with goto True show ?thesis
        by (intro sw_inv_waiter[OF assms(2,3)])
          (use assms(2) O A C in \<open>simp_all add: sw_asleep_def split: if_splits\<close>)
    next
      case False
      with goto show ?thesis by (simp add: fetch_waker)
    qed
  qed
qed

lemma sw_inv_reachable:
  assumes "(sw_step ch lk)\<^sup>*\<^sup>* s s'" "lk \<noteq> LPtable" "sw_init s"
  shows "sw_inv ch lk s'"
  using assms by (induction rule: rtranclp_induct) (auto intro: sw_inv_init sw_inv_step)

text \<open>C10. No wakeup is lost: in every interleaving of one waiter and any number of wakers, when the
  condition has been set and no waker is between setting it and its call of \<^verbatim>\<open>wakeup1\<close>, the
  waiter is not asleep. It is then parked only as a runnable process.\<close>

theorem no_lost_wakeup:
  assumes "(sw_step ch lk)\<^sup>*\<^sup>* s s'" "lk \<noteq> LPtable" "sw_init s"
    and "cond s'" "\<forall>w>0. pc s' w \<noteq> 2 \<and> pc s' w \<noteq> 3" "parked s'"
  shows "sw_st s' = RUNNABLE"
  using sw_inv_reachable[OF assms(1-3)] assms(4-6)
  unfolding sw_inv_def sw_asleep_def sw_cond_def wake_ahead_def by blast

text \<open>The locks of the idiom exclude each other.\<close>

lemma sw_mutual_exclusion:
  assumes "(sw_step ch lk)\<^sup>*\<^sup>* s s'" "lk \<noteq> LPtable" "sw_init s" "0 < w" "waker_has_lk (pc s' w)"
  shows "pc s' 0 \<notin> {1, 2, 3, 10, 11}"
  using sw_inv_reachable[OF assms(1-3)] assms(4,5) unfolding sw_inv_def
  by (metis sw_ownsD(1,3) option.inject less_numeral_extra(3))

subsection \<open>Witness\<close>

text \<open>Running a schedule, a list of thread numbers.\<close>

definition sw_next :: "chan \<Rightarrow> lockid \<Rightarrow> nat \<Rightarrow> sw_state \<Rightarrow> sw_state option" where
  "sw_next ch lk t s = (case fetch ch lk s t of
       Some (IAcq l) \<Rightarrow> if owner s l = None then Some (next_pc t (s\<lparr>owner := (owner s)(l := Some t)\<rparr>)) else None
     | Some (IRel l) \<Rightarrow> if owner s l = Some t then Some (next_pc t (s\<lparr>owner := (owner s)(l := None)\<rparr>)) else None
     | Some (IChan c) \<Rightarrow> Some (next_pc t (s\<lparr>sw_chan := c\<rparr>))
     | Some (IState st) \<Rightarrow> Some (next_pc t (s\<lparr>sw_st := st\<rparr>))
     | Some ISwtch \<Rightarrow> if \<not> parked s \<and> owner s LPtable = Some t
         then Some (s\<lparr>owner := (owner s)(LPtable := None), parked := True\<rparr>) else None
     | Some (IWake1 c) \<Rightarrow> Some (next_pc t (s\<lparr>sw_st := (if sw_st s = SLEEPING \<and> sw_chan s = Some c then RUNNABLE else sw_st s)\<rparr>))
     | Some ISetCond \<Rightarrow> Some (next_pc t (s\<lparr>cond := True\<rparr>))
     | Some (IUnless n) \<Rightarrow> Some (jump t (if cond s then n else Suc (pc s t)) s)
     | _ \<Rightarrow> None)"

fun sw_exec :: "chan \<Rightarrow> lockid \<Rightarrow> nat list \<Rightarrow> sw_state \<Rightarrow> sw_state option" where
  "sw_exec ch lk [] s = Some s"
| "sw_exec ch lk (t # ts) s = (case sw_next ch lk t s of None \<Rightarrow> None | Some s' \<Rightarrow> sw_exec ch lk ts s')"

lemma sw_next_step: "sw_next ch lk t s = Some s' \<Longrightarrow> sw_step ch lk s s'"
  unfolding sw_next_def using sw_step.intros[where s = s and t = t and ch = ch and lk = lk]
  by (auto split: option.splits instr.splits if_splits)

lemma sw_exec_steps: "sw_exec ch lk ts s = Some s' \<Longrightarrow> (sw_step ch lk)\<^sup>*\<^sup>* s s'"
  by (induction ts arbitrary: s) (auto intro: converse_rtranclp_into_rtranclp dest!: sw_next_step split: option.splits)

definition sw_start :: sw_state where
  "sw_start = \<lparr>owner = (\<lambda>_. None), cond = False, sw_st = RUNNING, sw_chan = None, parked = False, pc = (\<lambda>_. 0)\<rparr>"

text \<open>The waiter goes to sleep, then thread 1 sets the condition and wakes it.\<close>

definition sw_woken :: sw_state where
  "sw_woken = the (sw_exec ChLog LLog [0, 0, 0, 0, 0, 0, 0, 1, 1, 1, 1] sw_start)"

lemma sw_woken_run:
  "\<exists>s. sw_exec ChLog LLog [0, 0, 0, 0, 0, 0, 0, 1, 1, 1, 1] sw_start = Some s
    \<and> cond s \<and> parked s \<and> pc s = (\<lambda>t. if t = 0 then 6 else if t = 1 then 4 else 0)"
  by (simp add: sw_start_def sw_next_def fetch_def waiter_prog_eq waker_prog_eq jump_def fun_eq_iff)

theorem no_lost_wakeup_witness: "(sw_step ChLog LLog)\<^sup>*\<^sup>* sw_start sw_woken \<and> parked sw_woken \<and> sw_st sw_woken = RUNNABLE"
proof -
  have r: "(sw_step ChLog LLog)\<^sup>*\<^sup>* sw_start sw_woken" "cond sw_woken" "parked sw_woken"
    "pc sw_woken = (\<lambda>t. if t = 0 then 6 else if t = 1 then 4 else 0)"
    using sw_woken_run sw_exec_steps unfolding sw_woken_def by (metis option.sel)+
  moreover have "sw_init sw_start" by (simp add: sw_init_def sw_start_def)
  ultimately show ?thesis using no_lost_wakeup[of ChLog LLog sw_start sw_woken] by simp
qed

end
