(* ===== verification/Kalloc.thy ===== *)
theory Kalloc
  imports Sched
begin

text \<open>
  The physical page allocator: \<^verbatim>\<open>src/xv6/kalloc.c\<close>, with the address arithmetic of
  \<^verbatim>\<open>src/xv6/memlayout.h\<close> and \<^verbatim>\<open>src/xv6/mmu.h\<close>.

  Physical memory is a family of frames of 4096 bytes. The free list is threaded through the
  first word of each free page, as in the code; \<open>freelist\<close> holds the virtual address of its first
  page, or 0. \<open>kend\<close> is the address of the linker's symbol \<^verbatim>\<open>end\<close>.

  Shown: the list is never corrupted as long as only allocated pages are freed; what is allocated
  leaves the list and what is freed enters it; the pages of \<^verbatim>\<open>freerange\<close> all become free; a
  client of the interface never gets the same page twice.
\<close>

subsection \<open>Addresses\<close>

definition PGSIZE :: u32 where "PGSIZE = 4096"
definition EXTMEM :: u32 where "EXTMEM = 0x100000"
definition PHYSTOP :: u32 where "PHYSTOP = 0xE000000"
definition DEVSPACE :: u32 where "DEVSPACE = 0xFE000000"
definition KERNLINK :: u32 where "KERNLINK = KERNBASE + EXTMEM"

definition V2P :: "u32 \<Rightarrow> u32" where "V2P a = a - KERNBASE"
definition P2V :: "u32 \<Rightarrow> u32" where "P2V a = a + KERNBASE"

definition PGROUNDUP :: "u32 \<Rightarrow> u32" where "PGROUNDUP sz = (sz + PGSIZE - 1) AND NOT (PGSIZE - 1)"
definition PGROUNDDOWN :: "u32 \<Rightarrow> u32" where "PGROUNDDOWN a = a AND NOT (PGSIZE - 1)"

text \<open>The frame that holds a physical address.\<close>

definition pframe :: "u32 \<Rightarrow> nat" where
  "pframe pa = unat pa div 4096"

subsection \<open>State and operations\<close>

record kmem = ksched +
  pmem :: "nat \<Rightarrow> bytes"
  freelist :: u32
  use_lock :: bool
  kend :: u32

definition kmem_lock :: "(unit, 'a kmem_scheme) kop" where
  "kmem_lock = kbind (kget use_lock) (\<lambda>u. if u then acquire LKmem else kret ())"

definition kmem_unlock :: "(unit, 'a kmem_scheme) kop" where
  "kmem_unlock = kbind (kget use_lock) (\<lambda>u. if u then release LKmem else kret ())"

definition page_fill :: "u32 \<Rightarrow> u8 \<Rightarrow> 'a kmem_scheme \<Rightarrow> 'a kmem_scheme" where
  "page_fill v c s = s\<lparr>pmem := (pmem s)(pframe (V2P v) := (\<lambda>_. c))\<rparr>"

definition kfree :: "u32 \<Rightarrow> (unit, 'a kmem_scheme) kop" where
  "kfree v =
     kbind (kget kend) (\<lambda>e.
     if unat v mod unat PGSIZE \<noteq> 0 \<or> v < e \<or> PHYSTOP \<le> V2P v then kpanic ''kfree'' else
     kthen (kmod (page_fill v 1)) (
     kthen kmem_lock (
     kthen (kmod (\<lambda>s. s\<lparr>pmem := (pmem s)(pframe (V2P v) := wr32 (pmem s (pframe (V2P v))) 0 (freelist s))\<rparr>)) (
     kthen (kmod (freelist_update (\<lambda>_. v))) kmem_unlock))))"

definition kalloc :: "(u32, 'a kmem_scheme) kop" where
  "kalloc =
     kthen kmem_lock (
     kbind (kget freelist) (\<lambda>r.
     kthen (if r \<noteq> 0 then kmod (\<lambda>s. s\<lparr>freelist := rd32 (pmem s (pframe (V2P r))) 0\<rparr>) else kret ()) (
     kthen kmem_unlock (kret r))))"

text \<open>The pages \<^verbatim>\<open>p\<close> with \<^verbatim>\<open>p + PGSIZE <= vend\<close>, starting at \<^verbatim>\<open>PGROUNDUP(vstart)\<close>.\<close>

definition range_pages :: "u32 \<Rightarrow> u32 \<Rightarrow> u32 list" where
  "range_pages vstart vend =
     (let a = PGROUNDUP vstart in map (\<lambda>k. a + of_nat k * PGSIZE) [0..<(unat vend - unat a) div 4096])"

definition freerange :: "u32 \<Rightarrow> u32 \<Rightarrow> (unit, 'a kmem_scheme) kop" where
  "freerange vstart vend = kfor (range_pages vstart vend) kfree"

definition kinit1 :: "u32 \<Rightarrow> u32 \<Rightarrow> (unit, 'a kmem_scheme) kop" where
  "kinit1 vstart vend = kthen (kmod (use_lock_update (\<lambda>_. False))) (freerange vstart vend)"

definition kinit2 :: "u32 \<Rightarrow> u32 \<Rightarrow> (unit, 'a kmem_scheme) kop" where
  "kinit2 vstart vend = kthen (freerange vstart vend) (kmod (use_lock_update (\<lambda>_. True)))"

subsection \<open>The free list\<close>

fun klist :: "(nat \<Rightarrow> bytes) \<Rightarrow> u32 \<Rightarrow> u32 list \<Rightarrow> bool" where
  "klist m r [] \<longleftrightarrow> r = 0"
| "klist m r (v # vs) \<longleftrightarrow> r = v \<and> v \<noteq> 0 \<and> klist m (rd32 (m (pframe (V2P v))) 0) vs"

definition kpage :: "u32 \<Rightarrow> u32 \<Rightarrow> bool" where
  "kpage e v \<longleftrightarrow> unat v mod unat PGSIZE = 0 \<and> e \<le> v \<and> V2P v < PHYSTOP"

definition kmem_ok :: "'a kmem_scheme \<Rightarrow> u32 list \<Rightarrow> bool" where
  "kmem_ok s vs \<longleftrightarrow> klist (pmem s) (freelist s) vs \<and> distinct vs \<and> (\<forall>v\<in>set vs. kpage (kend s) v)
     \<and> LKmem \<notin> klocks s \<and> KERNBASE < kend s"

lemma unat_PGSIZE [simp]: "unat PGSIZE = 4096"
  by (simp add: PGSIZE_def)

lemma kpage_frame:
  assumes "kpage e v"
  shows "unat (V2P v) = 4096 * pframe (V2P v)"
proof -
  have "4096 dvd unat v" using assms by (simp add: kpage_def dvd_eq_mod_eq_0)
  then have "4096 dvd unat (v - KERNBASE)" by (simp add: unat_sub_if' KERNBASE_def)
  then show ?thesis by (simp add: pframe_def V2P_def)
qed

lemma pframe_inj:
  assumes "kpage e v" "kpage e w"
  shows "pframe (V2P v) = pframe (V2P w) \<longleftrightarrow> v = w"
proof
  assume "pframe (V2P v) = pframe (V2P w)"
  then have "unat (V2P v) = unat (V2P w)" using kpage_frame[OF assms(1)] kpage_frame[OF assms(2)] by simp
  then have "V2P v = V2P w" by (rule unsigned_word_eqI)
  then show "v = w" by (simp add: V2P_def)
qed simp

lemma klist_frame:
  assumes "\<And>v. v \<in> set vs \<Longrightarrow> m' (pframe (V2P v)) = m (pframe (V2P v))"
  shows "klist m' r vs = klist m r vs"
  using assms by (induction vs arbitrary: r) auto

lemma kfree_apply:
  assumes "kpage (kend s) v" "LKmem \<notin> klocks s"
  shows "kfree v s = Ok () (s\<lparr>pmem := (pmem s)(pframe (V2P v) := wr32 (\<lambda>_. 1) 0 (freelist s)), freelist := v\<rparr>)"
proof -
  have "s\<lparr>klocks := klocks s\<rparr> = s" "insert LKmem (klocks s) - {LKmem} = klocks s" using assms(2) by auto
  then show ?thesis
    using assms by (cases "use_lock s") (simp_all add: kfree_def kpage_def kmem_lock_def kmem_unlock_def page_fill_def not_less not_le)
qed

lemma kfree_bad: "\<not> kpage (kend s) v \<Longrightarrow> kfree v s = Panic ''kfree''"
proof -
  assume "\<not> kpage (kend s) v"
  then have c: "unat v mod unat PGSIZE \<noteq> 0 \<or> v < kend s \<or> PHYSTOP \<le> V2P v" by (simp add: kpage_def not_le not_less)
  show ?thesis by (simp only: kfree_def kbind_apply kget_apply res.case if_P[OF c] kpanic_apply)
qed

lemma kalloc_apply:
  assumes "LKmem \<notin> klocks s"
  shows "kalloc s = Ok (freelist s) (if freelist s = 0 then s else s\<lparr>freelist := rd32 (pmem s (pframe (V2P (freelist s)))) 0\<rparr>)"
proof -
  have "insert LKmem (klocks s) - {LKmem} = klocks s" using assms by auto
  then show ?thesis using assms by (cases "use_lock s") (simp_all add: kalloc_def kmem_lock_def kmem_unlock_def)
qed

lemma kfree_ok:
  assumes "kmem_ok s vs" "kpage (kend s) v" "v \<notin> set vs"
  shows "\<exists>s'. kfree v s = Ok () s' \<and> kmem_ok s' (v # vs) \<and> kend s' = kend s
    \<and> (\<forall>f. f \<noteq> pframe (V2P v) \<longrightarrow> pmem s' f = pmem s f)"
proof -
  let ?m = "(pmem s)(pframe (V2P v) := wr32 (\<lambda>_. 1) 0 (freelist s))"
  note k = assms(1)[unfolded kmem_ok_def]
  have "pframe (V2P w) \<noteq> pframe (V2P v)" if "w \<in> set vs" for w using pframe_inj[OF _ assms(2), of w] k that assms(3) by blast
  then have "klist ?m (freelist s) vs" using k by (subst klist_frame[where m = "pmem s"]) auto
  moreover have "v \<noteq> 0" using assms(2) k unfolding kpage_def by (metis not_le word_n1_ge word_not_simps(1) word_zero_le order.strict_trans2)
  ultimately show ?thesis using kfree_apply[OF assms(2)] k assms(2,3) by (simp add: kmem_ok_def)
qed

lemma kalloc_ok:
  assumes "kmem_ok s vs"
  shows "\<exists>s'. kalloc s = Ok (if vs = [] then 0 else hd vs) s' \<and> kmem_ok s' (tl vs) \<and> pmem s' = pmem s \<and> kend s' = kend s"
  using assms kalloc_apply[of s] by (cases vs) (auto simp: kmem_ok_def)

subsection \<open>The interface of the allocator\<close>

text \<open>What the clients of the allocator rely on: a state invariant over the list of free pages, the effect
  of the two operations on that list, and that pages in use keep their contents.\<close>

primrec repeat_op :: "nat \<Rightarrow> ('a, 's) kop \<Rightarrow> ('a list, 's) kop" where
  "repeat_op 0 m = kret []"
| "repeat_op (Suc n) m = kbind m (\<lambda>v. kbind (repeat_op n m) (\<lambda>vs. kret (v # vs)))"

locale page_allocator =
  fixes alloc :: "(u32, 's) kop"
    and free :: "u32 \<Rightarrow> (unit, 's) kop"
    and inv :: "'s \<Rightarrow> u32 list \<Rightarrow> bool"
    and page :: "'s \<Rightarrow> u32 \<Rightarrow> bool"
    and contents :: "'s \<Rightarrow> u32 \<Rightarrow> bytes"
  assumes alloc_law: "inv s vs \<Longrightarrow> \<exists>s'. alloc s = Ok (if vs = [] then 0 else hd vs) s' \<and> inv s' (tl vs)
      \<and> (\<forall>v. contents s' v = contents s v) \<and> page s' = page s"
    and free_law: "inv s vs \<Longrightarrow> page s v \<Longrightarrow> v \<notin> set vs \<Longrightarrow> \<exists>s'. free v s = Ok () s' \<and> inv s' (v # vs)
      \<and> (\<forall>w. page s w \<longrightarrow> w \<noteq> v \<longrightarrow> contents s' w = contents s w) \<and> page s' = page s"
    and inv_pages: "inv s vs \<Longrightarrow> distinct vs \<and> (\<forall>v\<in>set vs. v \<noteq> 0 \<and> page s v)"
begin

lemma alloc_free_roundtrip:
  assumes "inv s (v # vs)"
  shows "\<exists>s1 s2. alloc s = Ok v s1 \<and> free v s1 = Ok () s2 \<and> inv s2 (v # vs)"
proof -
  obtain s1 where 1: "alloc s = Ok v s1" "inv s1 vs" "page s1 = page s" using alloc_law[OF assms] by auto
  have "page s1 v" "v \<notin> set vs" using inv_pages[OF assms] 1(3) by auto
  with free_law[OF 1(2)] 1 show ?thesis by blast
qed

lemma allocs_distinct:
  assumes "inv s vs" "2 \<le> length vs"
  shows "\<exists>v w s1 s2. alloc s = Ok v s1 \<and> alloc s1 = Ok w s2 \<and> v \<noteq> w \<and> v \<noteq> 0 \<and> w \<noteq> 0 \<and> inv s2 (drop 2 vs)"
proof -
  obtain v w ws where vs: "vs = v # w # ws" using assms(2) by (cases vs; cases "tl vs") auto
  obtain s1 where 1: "alloc s = Ok v s1" "inv s1 (w # ws)" using alloc_law[OF assms(1)] vs by auto
  obtain s2 where 2: "alloc s1 = Ok w s2" "inv s2 ws" using alloc_law[OF 1(2)] by auto
  show ?thesis using 1 2 inv_pages[OF assms(1)] vs by auto
qed

text \<open>A run of allocations hands out the pages of the list in order, and memory runs out exactly at its
  end.\<close>

lemma allocs_run:
  assumes "inv s vs"
  shows "\<exists>s'. repeat_op n alloc s = Ok (take n vs @ replicate (n - length vs) 0) s' \<and> inv s' (drop n vs)"
  using assms
proof (induction n arbitrary: s vs)
  case (Suc n)
  obtain s1 where 1: "alloc s = Ok (if vs = [] then 0 else hd vs) s1" "inv s1 (tl vs)" using alloc_law[OF Suc.prems] by blast
  obtain s2 where "repeat_op n alloc s1 = Ok (take n (tl vs) @ replicate (n - length (tl vs)) 0) s2" "inv s2 (drop n (tl vs))"
    using Suc.IH[OF 1(2)] by blast
  with 1 show ?case by (cases vs) auto
qed simp

end

interpretation ka: page_allocator kalloc kfree kmem_ok "\<lambda>s. kpage (kend s)" "\<lambda>s v. pmem s (pframe (V2P v))"
proof
  show "\<exists>s'. kalloc s = Ok (if vs = [] then 0 else hd vs) s' \<and> kmem_ok s' (tl vs)
      \<and> (\<forall>v. pmem s' (pframe (V2P v)) = pmem s (pframe (V2P v))) \<and> kpage (kend s') = kpage (kend s)"
    if "kmem_ok s vs" for s :: "'a kmem_scheme" and vs using kalloc_ok[OF that] by auto
  show "\<exists>s'. kfree v s = Ok () s' \<and> kmem_ok s' (v # vs)
      \<and> (\<forall>w. kpage (kend s) w \<longrightarrow> w \<noteq> v \<longrightarrow> pmem s' (pframe (V2P w)) = pmem s (pframe (V2P w))) \<and> kpage (kend s') = kpage (kend s)"
    if "kmem_ok s vs" "kpage (kend s) v" "v \<notin> set vs" for s :: "'a kmem_scheme" and vs v
    using kfree_ok[OF that] pframe_inj[OF that(2)] by metis
  show "distinct vs \<and> (\<forall>v\<in>set vs. v \<noteq> 0 \<and> kpage (kend s) v)" if "kmem_ok s vs" for s :: "'a kmem_scheme" and vs
    using that unfolding kmem_ok_def kpage_def by (auto simp: not_le[symmetric] KERNBASE_def)
qed

subsection \<open>Filling the list\<close>

lemma kfor_kfree:
  assumes "kmem_ok s vs" "distinct (ps @ vs)" "\<forall>p\<in>set ps. kpage (kend s) p"
  shows "\<exists>s'. kfor ps kfree s = Ok () s' \<and> kmem_ok s' (rev ps @ vs) \<and> kend s' = kend s"
  using assms
proof (induction ps arbitrary: s vs)
  case (Cons p ps)
  obtain s1 where 1: "kfree p s = Ok () s1" "kmem_ok s1 (p # vs)" "kend s1 = kend s"
    using kfree_ok[OF Cons.prems(1), of p] Cons.prems(2,3) by auto
  obtain s2 where "kfor ps kfree s1 = Ok () s2" "kmem_ok s2 (rev ps @ p # vs)" "kend s2 = kend s1"
    using Cons.IH[OF 1(2)] Cons.prems(2,3) 1(3) by auto
  with 1 show ?case by simp
qed simp

lemma page_mask: "x AND NOT (PGSIZE - 1) = push_bit 12 (drop_bit 12 x)"
proof -
  have "PGSIZE - 1 = mask 12" by (simp add: PGSIZE_def mask_eq_exp_minus_1)
  then show ?thesis by (auto intro!: bit_word_eqI simp: bit_simps)
qed

lemma unat_u32: "unat (x :: u32) < 4294967296"
proof -
  have "unat x < 2 ^ LENGTH(32)" by (rule unsigned_less)
  then show ?thesis by simp
qed

lemma unat_page: "unat (push_bit 12 (drop_bit 12 x)) = unat x div 4096 * 4096" for x :: u32
proof -
  have "unat x div 4096 * 4096 < 2 ^ 32" using unat_u32[of x] by simp
  moreover have "push_bit 12 (drop_bit 12 (unat x)) = unat x div 4096 * 4096" by (simp add: push_bit_eq_mult drop_bit_eq_div)
  moreover have "unat (push_bit 12 (drop_bit 12 x)) = take_bit 32 (push_bit 12 (drop_bit 12 (unat x)))"
    using unat_u32[of x] by (simp add: unsigned_push_bit_eq unsigned_drop_bit_eq take_bit_nat_eq_self[of "unat x"])
  ultimately show ?thesis by (simp add: take_bit_nat_eq_self)
qed

lemma PGROUNDDOWN_val: "unat (PGROUNDDOWN v) = unat v div 4096 * 4096"
  by (simp add: PGROUNDDOWN_def page_mask unat_page)

lemma PGROUNDUP_val:
  assumes "unat v \<le> 2 ^ 32 - 4096"
  shows "unat (PGROUNDUP v) = (unat v + 4095) div 4096 * 4096"
proof -
  have a: "unat (v + PGSIZE - 1) = unat v + 4095"
    using assms by (simp add: PGSIZE_def unat_word_ariths(1) add.commute[of v])
  show ?thesis by (simp add: PGROUNDUP_def page_mask unat_page a)
qed

text \<open>The pages of a range are distinct whole pages inside it.\<close>

lemma range_pages_val:
  assumes "unat vstart \<le> 2 ^ 32 - 4096" "p \<in> set (range_pages vstart vend)"
  shows "unat p mod 4096 = 0" "unat vstart \<le> unat p" "unat p + 4096 \<le> unat vend"
proof -
  define a where "a = unat (PGROUNDUP vstart)"
  obtain k where k: "k < (unat vend - a) div 4096" "p = PGROUNDUP vstart + of_nat k * PGSIZE"
    using assms(2) by (auto simp: range_pages_def Let_def a_def)
  have "4096 * k + 4096 \<le> unat vend - a" using k(1) by (simp add: less_eq_div_iff_mult_less_eq Suc_le_eq[symmetric])
  then have le: "a + k * 4096 + 4096 \<le> unat vend" by simp
  moreover have "unat vend < 2 ^ 32" using unat_u32[of vend] by simp
  moreover have "unat (of_nat k * PGSIZE) = k * 4096" using le \<open>unat vend < 2 ^ 32\<close>
    by (simp add: PGSIZE_def unat_word_ariths(2) unsigned_of_nat take_bit_nat_eq_self)
  ultimately have u: "unat p = a + k * 4096" by (simp add: k(2) unat_word_ariths(1) a_def)
  have a: "a = (unat vstart + 4095) div 4096 * 4096" unfolding a_def by (rule PGROUNDUP_val[OF assms(1)])
  show "unat p mod 4096 = 0" unfolding u a by simp
  have "(unat vstart + 4095) div 4096 * 4096 + (unat vstart + 4095) mod 4096 = unat vstart + 4095" by simp
  moreover have "(unat vstart + 4095) mod 4096 < 4096" by simp
  ultimately show "unat vstart \<le> unat p" unfolding u a by linarith
  show "unat p + 4096 \<le> unat vend" using le u by simp
qed

lemma range_pages_distinct: "distinct (range_pages vstart vend)"
proof -
  have "inj_on (\<lambda>k. PGROUNDUP vstart + of_nat k * PGSIZE) {0..<(unat vend - unat (PGROUNDUP vstart)) div 4096}"
  proof (rule inj_onI)
    fix j k :: nat
    assume jk: "j \<in> {0..<(unat vend - unat (PGROUNDUP vstart)) div 4096}" "k \<in> {0..<(unat vend - unat (PGROUNDUP vstart)) div 4096}"
      and "PGROUNDUP vstart + of_nat j * PGSIZE = PGROUNDUP vstart + of_nat k * PGSIZE"
    then have e: "(of_nat (j * 4096) :: u32) = of_nat (k * 4096)" by (simp add: PGSIZE_def)
    have "j * 4096 < 2 ^ 32" "k * 4096 < 2 ^ 32" using jk unat_u32[of vend] by auto
    then have "unat (of_nat (j * 4096) :: u32) = j * 4096" "unat (of_nat (k * 4096) :: u32) = k * 4096"
      by (simp_all only: unsigned_of_nat) (simp_all add: take_bit_nat_eq_self)
    with e show "j = k" by simp
  qed
  then show ?thesis by (simp add: range_pages_def Let_def distinct_map)
qed

lemma freerange_ok:
  assumes "kmem_ok s vs" "kend s \<le> vstart" "unat vstart \<le> 2 ^ 32 - 4096" "vend \<le> P2V PHYSTOP"
    "set (range_pages vstart vend) \<inter> set vs = {}"
  shows "\<exists>s'. freerange vstart vend s = Ok () s' \<and> kmem_ok s' (rev (range_pages vstart vend) @ vs) \<and> kend s' = kend s"
  unfolding freerange_def
proof (rule kfor_kfree[OF assms(1)])
  show "distinct (range_pages vstart vend @ vs)" using range_pages_distinct assms(1,5) by (auto simp: kmem_ok_def)
  have "unat KERNBASE < unat (kend s)" using assms(1) by (simp add: kmem_ok_def word_less_nat_alt)
  then have e: "2147483648 < unat (kend s)" by (simp add: KERNBASE_def)
  have h: "unat vend \<le> 2382364672" using assms(4) by (simp add: P2V_def PHYSTOP_def KERNBASE_def word_le_nat_alt)
  show "\<forall>p\<in>set (range_pages vstart vend). kpage (kend s) p"
  proof
    fix p
    assume "p \<in> set (range_pages vstart vend)"
    note p = range_pages_val[OF assms(3) this]
    have le: "unat (kend s) \<le> unat p" using assms(2) p(2) by (simp add: word_le_nat_alt)
    then have "unat (p - KERNBASE) = unat p - 2147483648" using e by (simp add: unat_sub_if' KERNBASE_def)
    then have "V2P p < PHYSTOP" using p(3) h by (simp add: V2P_def PHYSTOP_def word_less_nat_alt)
    with p(1) le show "kpage (kend s) p" by (simp add: kpage_def word_le_nat_alt)
  qed
qed

lemma kfree_lock: "kfree v s = Ok () s' \<Longrightarrow> use_lock s' = use_lock s"
  by (auto simp: kfree_def kmem_lock_def kmem_unlock_def page_fill_def acquire_def release_def
      elim!: kbind_OkE kthen_OkE split: if_splits)

lemma kfor_kfree_lock: "kfor ps kfree s = Ok () s' \<Longrightarrow> use_lock s' = use_lock s"
proof (induction ps arbitrary: s)
  case (Cons p ps)
  then obtain s1 where "kfree p s = Ok () s1" "kfor ps kfree s1 = Ok () s'" by (auto elim: kthen_OkE)
  with Cons.IH kfree_lock[of p s s1] show ?case by simp
qed simp

lemma freerange_lock: "freerange a b s = Ok () s' \<Longrightarrow> use_lock s' = use_lock s"
  unfolding freerange_def by (rule kfor_kfree_lock)

lemma range_pages_set:
  assumes "unat vstart \<le> 2 ^ 32 - 4096"
  shows "set (range_pages vstart vend) = {p. unat p mod 4096 = 0 \<and> unat vstart \<le> unat p \<and> unat p + 4096 \<le> unat vend}"
proof (intro equalityI subsetI)
  fix p :: u32
  assume p: "p \<in> {p. unat p mod 4096 = 0 \<and> unat vstart \<le> unat p \<and> unat p + 4096 \<le> unat vend}"
  define a where "a = unat (PGROUNDUP vstart)"
  have a: "a = (unat vstart + 4095) div 4096 * 4096" unfolding a_def by (rule PGROUNDUP_val[OF assms])
  obtain m where m: "unat p = 4096 * m" using p by auto
  have "unat vstart + 4095 < 4096 * (m + 1)" using p m by simp
  then have "(unat vstart + 4095) div 4096 \<le> m" by (simp add: less_mult_imp_div_less less_Suc_eq_le[symmetric] mult.commute)
  then obtain k where k: "m = (unat vstart + 4095) div 4096 + k" using le_iff_add by blast
  have u: "unat p = a + k * 4096" using m a k by simp
  then have "k * 4096 < 2 ^ 32" "k < (unat vend - a) div 4096" using p unat_u32[of p] by (auto simp: less_eq_div_iff_mult_less_eq Suc_le_eq[symmetric])
  moreover have "p = PGROUNDUP vstart + of_nat k * PGSIZE"
  proof (rule unsigned_word_eqI)
    have "unat (of_nat k * PGSIZE) = k * 4096" using \<open>k * 4096 < 2 ^ 32\<close>
      by (simp add: PGSIZE_def unat_word_ariths(2) unsigned_of_nat take_bit_nat_eq_self)
    then show "unat p = unat (PGROUNDUP vstart + of_nat k * PGSIZE)" using u unat_u32[of p] by (simp add: unat_word_ariths(1) a_def)
  qed
  ultimately show "p \<in> set (range_pages vstart vend)" by (auto simp: range_pages_def Let_def a_def)
qed (use range_pages_val[OF assms] in auto)

subsection \<open>Properties\<close>

text \<open>C19. Allocation. With \<open>vs\<close> the free pages in list order, \<open>n\<close> calls of \<^verbatim>\<open>kalloc\<close> return the first \<open>n\<close> of them,
  all different, and 0 once the list is exhausted; no page in use changes, and the rest stays free.\<close>

theorem kalloc_run:
  assumes "kmem_ok s vs"
  shows "\<exists>s'. repeat_op n kalloc s = Ok (take n vs @ replicate (n - length vs) 0) s' \<and> kmem_ok s' (drop n vs)
    \<and> distinct (take n vs) \<and> (\<forall>v\<in>set (take n vs). kpage (kend s) v \<and> v \<notin> set (drop n vs))"
proof -
  have "distinct vs" "\<forall>v\<in>set vs. kpage (kend s) v" using ka.inv_pages[OF assms] by auto
  then have "distinct (take n vs @ drop n vs)" "\<forall>v\<in>set (take n vs). kpage (kend s) v" using in_set_takeD by (simp, fast)
  then show ?thesis using ka.allocs_run[OF assms, of n] by (auto simp only: distinct_append)
qed

text \<open>C20. Freeing. A page in use that is freed joins the front of the free list and the next \<^verbatim>\<open>kalloc\<close> returns it;
  an address that is not a page of free-able memory makes \<^verbatim>\<open>kfree\<close> panic.\<close>

theorem kfree_kalloc_roundtrip:
  assumes "kmem_ok s vs" "v \<notin> set vs"
  shows "if kpage (kend s) v then \<exists>s1 s2. kfree v s = Ok () s1 \<and> kalloc s1 = Ok v s2 \<and> kmem_ok s2 vs
         else kfree v s = Panic ''kfree''"
proof (cases "kpage (kend s) v")
  case True
  obtain s1 where 1: "kfree v s = Ok () s1" "kmem_ok s1 (v # vs)" using kfree_ok[OF assms(1) True assms(2)] by blast
  obtain s2 where "kalloc s1 = Ok v s2" "kmem_ok s2 vs" using kalloc_ok[OF 1(2)] by auto
  with 1 True show ?thesis by auto
qed (simp add: kfree_bad)

text \<open>C35. Start-up. \<^verbatim>\<open>kinit1\<close> on an empty list frees exactly the whole pages between its two addresses.\<close>

theorem kinit1_frees_range:
  assumes "kmem_ok s []" "kend s \<le> vstart" "unat vstart \<le> 2 ^ 32 - 4096" "vend \<le> P2V PHYSTOP"
  shows "\<exists>s' vs. kinit1 vstart vend s = Ok () s' \<and> kmem_ok s' vs \<and> \<not> use_lock s' \<and>
    set vs = {p. unat p mod 4096 = 0 \<and> unat vstart \<le> unat p \<and> unat p + 4096 \<le> unat vend}"
proof -
  have "kmem_ok (s\<lparr>use_lock := False\<rparr>) []" "kend (s\<lparr>use_lock := False\<rparr>) \<le> vstart" using assms(1,2) by (simp_all add: kmem_ok_def)
  from freerange_ok[OF this assms(3,4)] obtain s' where s': "freerange vstart vend (s\<lparr>use_lock := False\<rparr>) = Ok () s'"
    "kmem_ok s' (rev (range_pages vstart vend))" by auto
  have "\<not> use_lock s'" using freerange_lock[OF s'(1)] by simp
  then show ?thesis using s' range_pages_set[OF assms(3)] by (intro exI[of _ s'] exI[of _ "rev (range_pages vstart vend)"]) (simp add: kinit1_def)
qed

definition sample_kmem :: kmem where
  "sample_kmem = \<lparr>klocks = {}, procs = (\<lambda>_. proc_zero), curproc = Some 0, nextpid = 1, initproc = None,
     pmem = (\<lambda>f. if f = 1024 then wr32 (\<lambda>_. 1) 0 0x80401000 else wr32 (\<lambda>_. 1) 0 0), freelist = 0x80400000,
     use_lock = True, kend = 0x80200000\<rparr>"

lemma sample_kmem_ok: "kmem_ok sample_kmem [0x80400000, 0x80401000]"
  by (simp add: kmem_ok_def sample_kmem_def kpage_def V2P_def KERNBASE_def PHYSTOP_def pframe_def)

theorem kalloc_run_witness: "\<exists>s'. repeat_op 3 kalloc sample_kmem = Ok [0x80400000, 0x80401000, 0] s'"
  using kalloc_run[OF sample_kmem_ok, of 3] by auto

theorem kfree_kalloc_roundtrip_witness:
  "(\<exists>s1 s2. kfree 0x80402000 sample_kmem = Ok () s1 \<and> kalloc s1 = Ok 0x80402000 s2) \<and> kfree 0x80402001 sample_kmem = Panic ''kfree''"
proof -
  have "kpage (kend sample_kmem) 0x80402000" "\<not> kpage (kend sample_kmem) 0x80402001"
    by (simp_all add: kpage_def V2P_def KERNBASE_def PHYSTOP_def sample_kmem_def)
  then show ?thesis
    using kfree_kalloc_roundtrip[OF sample_kmem_ok, of "0x80402000"] kfree_kalloc_roundtrip[OF sample_kmem_ok, of "0x80402001"] by auto
qed

theorem kinit1_frees_range_witness:
  "\<exists>s' vs. kinit1 0x80200001 0x80400000 (sample_kmem\<lparr>freelist := 0\<rparr>) = Ok () s' \<and> kmem_ok s' vs \<and> 0x80201000 \<in> set vs"
proof -
  have "kmem_ok (sample_kmem\<lparr>freelist := 0\<rparr>) []" by (simp add: kmem_ok_def sample_kmem_def KERNBASE_def)
  from kinit1_frees_range[OF this, of "0x80200001" "0x80400000"] obtain s' vs where "kinit1 0x80200001 0x80400000 (sample_kmem\<lparr>freelist := 0\<rparr>) = Ok () s'"
    "kmem_ok s' vs" "set vs = {p. unat p mod 4096 = 0 \<and> unat (0x80200001 :: u32) \<le> unat p \<and> unat p + 4096 \<le> unat (0x80400000 :: u32)}"
    by (auto simp: sample_kmem_def P2V_def KERNBASE_def PHYSTOP_def)
  moreover from this(3) have "0x80201000 \<in> set vs" by simp
  ultimately show ?thesis by blast
qed

end
