(* ===== verification/Vm.thy ===== *)
theory Vm
  imports Kalloc
begin

text \<open>
  Virtual memory: \<^verbatim>\<open>src/xv6/vm.c\<close> (all but \<^verbatim>\<open>seginit\<close>, which fills hardware tables, and \<^verbatim>\<open>loaduvm\<close>, which
  is in theory \<open>Exec\<close>).

  A page table entry is a word at an index of a frame. \<^verbatim>\<open>walkpgdir\<close> returns the place of the entry, or
  \<open>None\<close> for its null pointer. The page-table and TSS registers that \<^verbatim>\<open>switchuvm\<close> loads are fields of the
  state. The loops over pages are recursive functions on the number of pages.

  Shown: entries of different pages do not interfere; mapping a page changes the translation of that page
  only; \<^verbatim>\<open>allocuvm\<close> gives a process zeroed pages of its own; \<^verbatim>\<open>copyout\<close> writes exactly the bytes asked for,
  into pages that the user may access.
\<close>

subsection \<open>Page table entries\<close>

definition PTE_P :: u32 where "PTE_P = 1"
definition PTE_W :: u32 where "PTE_W = 2"
definition PTE_U :: u32 where "PTE_U = 4"

definition PTE_ADDR :: "u32 \<Rightarrow> u32" where "PTE_ADDR pte = pte AND NOT 0xFFF"
definition PTE_FLAGS :: "u32 \<Rightarrow> u32" where "PTE_FLAGS pte = pte AND 0xFFF"

definition PDX :: "u32 \<Rightarrow> nat" where "PDX va = unat (drop_bit 22 va AND 0x3FF)"
definition PTX :: "u32 \<Rightarrow> nat" where "PTX va = unat (drop_bit 12 va AND 0x3FF)"

definition PGADDR :: "u32 \<Rightarrow> u32 \<Rightarrow> u32 \<Rightarrow> u32" where
  "PGADDR d t off = push_bit 22 d OR push_bit 12 t OR off"

definition NPDENTRIES :: nat where "NPDENTRIES = 1024"
definition KSTACKSIZE :: u32 where "KSTACKSIZE = 4096"

record kvm = kmem +
  kdata :: u32
  kpgdir :: u32
  cr3 :: u32
  tss_esp0 :: u32

definition rd_pte :: "'a kmem_scheme \<Rightarrow> nat \<times> nat \<Rightarrow> u32" where
  "rd_pte s l = rd32 (pmem s (fst l)) (4 * snd l)"

definition wr_pte :: "nat \<times> nat \<Rightarrow> u32 \<Rightarrow> 'a kmem_scheme \<Rightarrow> 'a kmem_scheme" where
  "wr_pte l v s = s\<lparr>pmem := (pmem s)(fst l := wr32 (pmem s (fst l)) (4 * snd l) v)\<rparr>"

subsection \<open>Mapping pages\<close>

definition walkpgdir :: "u32 \<Rightarrow> u32 \<Rightarrow> bool \<Rightarrow> ((nat \<times> nat) option, 'a kmem_scheme) kop" where
  "walkpgdir pgdir va alloc =
     kbind (kget (\<lambda>s. rd_pte s (pframe (V2P pgdir), PDX va))) (\<lambda>pde.
     if pde AND PTE_P \<noteq> 0 then kret (Some (pframe (PTE_ADDR pde), PTX va))
     else if \<not> alloc then kret None
     else kbind kalloc (\<lambda>pgtab.
       if pgtab = 0 then kret None else
       kthen (kmod (page_fill pgtab 0)) (
       kthen (kmod (wr_pte (pframe (V2P pgdir), PDX va) (V2P pgtab OR PTE_P OR PTE_W OR PTE_U)))
         (kret (Some (pframe (V2P pgtab), PTX va))))))"

text \<open>One round of the loop of \<^verbatim>\<open>mappages\<close>; \<open>False\<close> when no page table could be allocated.\<close>

definition map_page :: "u32 \<Rightarrow> u32 \<Rightarrow> u32 \<Rightarrow> u32 \<Rightarrow> (bool, 'a kmem_scheme) kop" where
  "map_page pgdir a pa perm =
     kbind (walkpgdir pgdir a True) (\<lambda>r. case r of
       None \<Rightarrow> kret False
     | Some l \<Rightarrow> kbind (kget (\<lambda>s. rd_pte s l)) (\<lambda>pte.
         if pte AND PTE_P \<noteq> 0 then kpanic ''remap''
         else kthen (kmod (wr_pte l (pa OR perm OR PTE_P))) (kret True)))"

primrec mappages_loop :: "nat \<Rightarrow> u32 \<Rightarrow> u32 \<Rightarrow> u32 \<Rightarrow> u32 \<Rightarrow> (int, 'a kmem_scheme) kop" where
  "mappages_loop 0 pgdir a pa perm = kbind (map_page pgdir a pa perm) (\<lambda>ok. kret (if ok then 0 else -1))"
| "mappages_loop (Suc n) pgdir a pa perm =
     kbind (map_page pgdir a pa perm) (\<lambda>ok.
     if ok then mappages_loop n pgdir (a + PGSIZE) (pa + PGSIZE) perm else kret (-1))"

text \<open>The loop runs from the page of \<open>va\<close> to the page of \<open>va + sz - 1\<close>, in 32-bit arithmetic.\<close>

definition mappages :: "u32 \<Rightarrow> u32 \<Rightarrow> u32 \<Rightarrow> u32 \<Rightarrow> u32 \<Rightarrow> (int, 'a kmem_scheme) kop" where
  "mappages pgdir va sz pa perm =
     mappages_loop (unat (PGROUNDDOWN (va + sz - 1) - PGROUNDDOWN va) div 4096) pgdir (PGROUNDDOWN va) pa perm"

subsection \<open>Freeing\<close>

primrec deallocuvm_loop :: "nat \<Rightarrow> u32 \<Rightarrow> u32 \<Rightarrow> u32 \<Rightarrow> (unit, 'a kmem_scheme) kop" where
  "deallocuvm_loop 0 pgdir a oldsz = kret ()"
| "deallocuvm_loop (Suc n) pgdir a oldsz =
     (if \<not> a < oldsz then kret () else
      kbind (walkpgdir pgdir a False) (\<lambda>r. case r of
        None \<Rightarrow> deallocuvm_loop n pgdir (PGADDR (of_nat (PDX a) + 1) 0 0 - PGSIZE + PGSIZE) oldsz
      | Some l \<Rightarrow>
          kbind (kget (\<lambda>s. rd_pte s l)) (\<lambda>pte.
          kthen (if pte AND PTE_P \<noteq> 0 then
                   if PTE_ADDR pte = 0 then kpanic ''kfree''
                   else kthen (kfree (P2V (PTE_ADDR pte))) (kmod (wr_pte l 0))
                 else kret ())
            (deallocuvm_loop n pgdir (a + PGSIZE) oldsz))))"

definition deallocuvm :: "u32 \<Rightarrow> u32 \<Rightarrow> u32 \<Rightarrow> (u32, 'a kmem_scheme) kop" where
  "deallocuvm pgdir oldsz newsz =
     (if oldsz \<le> newsz then kret oldsz else
      let a = PGROUNDUP newsz in
      kthen (deallocuvm_loop ((unat oldsz - unat a + 4095) div 4096) pgdir a oldsz) (kret newsz))"

definition freevm :: "u32 \<Rightarrow> (unit, 'a kmem_scheme) kop" where
  "freevm pgdir =
     (if pgdir = 0 then kpanic ''freevm: no pgdir'' else
      kthen (deallocuvm pgdir KERNBASE 0) (
      kthen (kfor [0..<NPDENTRIES] (\<lambda>i.
        kbind (kget (\<lambda>s. rd_pte s (pframe (V2P pgdir), i))) (\<lambda>pde.
        if pde AND PTE_P \<noteq> 0 then kfree (P2V (PTE_ADDR pde)) else kret ())))
        (kfree pgdir)))"

subsection \<open>The kernel part of a page table\<close>

definition kmap :: "u32 \<Rightarrow> (u32 \<times> u32 \<times> u32 \<times> u32) list" where
  "kmap data =
     [(KERNBASE, 0, EXTMEM, PTE_W),
      (KERNLINK, V2P KERNLINK, V2P data, 0),
      (data, V2P data, PHYSTOP, PTE_W),
      (DEVSPACE, DEVSPACE, 0, PTE_W)]"

primrec setupkvm_loop :: "(u32 \<times> u32 \<times> u32 \<times> u32) list \<Rightarrow> u32 \<Rightarrow> (int, 'a kmem_scheme) kop" where
  "setupkvm_loop [] pgdir = kret 0"
| "setupkvm_loop (k # ks) pgdir =
     (case k of (virt, phys_start, phys_end, perm) \<Rightarrow>
      kbind (mappages pgdir virt (phys_end - phys_start) phys_start perm) (\<lambda>r.
      if r < 0 then kret (-1) else setupkvm_loop ks pgdir))"

definition setupkvm :: "(u32, 'a kvm_scheme) kop" where
  "setupkvm =
     kbind kalloc (\<lambda>pgdir.
     if pgdir = 0 then kret 0 else
     kthen (kmod (page_fill pgdir 0)) (
     if DEVSPACE < P2V PHYSTOP then kpanic ''PHYSTOP too high'' else
     kbind (kget kdata) (\<lambda>data.
     kbind (setupkvm_loop (kmap data) pgdir) (\<lambda>r.
     if r < 0 then kthen (freevm pgdir) (kret 0) else kret pgdir))))"

definition switchkvm :: "(unit, 'a kvm_scheme) kop" where
  "switchkvm = kmod (\<lambda>s. s\<lparr>cr3 := V2P (kpgdir s)\<rparr>)"

definition kvmalloc :: "(unit, 'a kvm_scheme) kop" where
  "kvmalloc = kbind setupkvm (\<lambda>d. kthen (kmod (kpgdir_update (\<lambda>_. d))) switchkvm)"

definition switchuvm :: "nat option \<Rightarrow> (unit, 'a kvm_scheme) kop" where
  "switchuvm po = (case po of
     None \<Rightarrow> kpanic ''switchuvm: no process''
   | Some p \<Rightarrow> kbind (kget (\<lambda>s. procs s p)) (\<lambda>pr.
       if p_kstack pr = 0 then kpanic ''switchuvm: no kstack''
       else if p_pgdir pr = 0 then kpanic ''switchuvm: no pgdir''
       else kmod (\<lambda>s. s\<lparr>tss_esp0 := p_kstack pr + KSTACKSIZE, cr3 := V2P (p_pgdir pr)\<rparr>)))"

subsection \<open>User memory\<close>

text \<open>\<^verbatim>\<open>kalloc\<close> may return a null pointer here, which the code does not check: filling the page at address 0
  traps.\<close>

definition inituvm :: "u32 \<Rightarrow> bytes \<Rightarrow> u32 \<Rightarrow> (unit, 'a kvm_scheme) kop" where
  "inituvm pgdir init sz =
     (if PGSIZE \<le> sz then kpanic ''inituvm: more than a page'' else
      kbind kalloc (\<lambda>mem.
      if mem = 0 then kpanic ''trap'' else
      kthen (kmod (page_fill mem 0)) (
      kthen (kthen (mappages pgdir 0 PGSIZE (V2P mem) (PTE_W OR PTE_U)) (kret ()))
        (kmod (\<lambda>s. s\<lparr>pmem := (pmem s)(pframe (V2P mem) := bcopy init 0 (pmem s (pframe (V2P mem))) 0 (unat sz))\<rparr>)))))"

primrec allocuvm_loop :: "nat \<Rightarrow> u32 \<Rightarrow> u32 \<Rightarrow> u32 \<Rightarrow> u32 \<Rightarrow> (u32, 'a kmem_scheme) kop" where
  "allocuvm_loop 0 pgdir a oldsz newsz = kret newsz"
| "allocuvm_loop (Suc n) pgdir a oldsz newsz =
     (if \<not> a < newsz then kret newsz else
      kbind kalloc (\<lambda>mem.
      if mem = 0 then kthen (deallocuvm pgdir newsz oldsz) (kret 0) else
      kthen (kmod (page_fill mem 0)) (
      kbind (mappages pgdir a PGSIZE (V2P mem) (PTE_W OR PTE_U)) (\<lambda>r.
      if r < 0 then kthen (deallocuvm pgdir newsz oldsz) (kthen (kfree mem) (kret 0))
      else allocuvm_loop n pgdir (a + PGSIZE) oldsz newsz))))"

definition allocuvm :: "u32 \<Rightarrow> u32 \<Rightarrow> u32 \<Rightarrow> (u32, 'a kmem_scheme) kop" where
  "allocuvm pgdir oldsz newsz =
     (if KERNBASE \<le> newsz then kret 0
      else if newsz < oldsz then kret oldsz
      else let a = PGROUNDUP oldsz in
        allocuvm_loop ((unat newsz - unat a + 4095) div 4096) pgdir a oldsz newsz)"

definition clearpteu :: "u32 \<Rightarrow> u32 \<Rightarrow> (unit, 'a kmem_scheme) kop" where
  "clearpteu pgdir uva =
     kbind (walkpgdir pgdir uva False) (\<lambda>r. case r of
       None \<Rightarrow> kpanic ''clearpteu''
     | Some l \<Rightarrow> kmod (\<lambda>s. wr_pte l (rd_pte s l AND NOT PTE_U) s))"

text \<open>The pages from address \<open>i\<close> on; \<open>False\<close> is the jump to \<^verbatim>\<open>bad\<close>.\<close>

primrec copyuvm_loop :: "nat \<Rightarrow> u32 \<Rightarrow> u32 \<Rightarrow> u32 \<Rightarrow> (bool, 'a kmem_scheme) kop" where
  "copyuvm_loop 0 pgdir d i = kret True"
| "copyuvm_loop (Suc n) pgdir d i =
     kbind (walkpgdir pgdir i False) (\<lambda>r. case r of
       None \<Rightarrow> kpanic ''copyuvm: pte should exist''
     | Some l \<Rightarrow>
         kbind (kget (\<lambda>s. rd_pte s l)) (\<lambda>pte.
         if pte AND PTE_P = 0 then kpanic ''copyuvm: page not present'' else
         kbind kalloc (\<lambda>mem.
         if mem = 0 then kret False else
         kthen (kmod (\<lambda>s. s\<lparr>pmem := (pmem s)(pframe (V2P mem) := pmem s (pframe (PTE_ADDR pte)))\<rparr>)) (
         kbind (mappages d i PGSIZE (V2P mem) (PTE_FLAGS pte)) (\<lambda>m.
         if m < 0 then kthen (kfree mem) (kret False)
         else copyuvm_loop n pgdir d (i + PGSIZE))))))"

definition copyuvm :: "u32 \<Rightarrow> u32 \<Rightarrow> (u32, 'a kvm_scheme) kop" where
  "copyuvm pgdir sz =
     kbind setupkvm (\<lambda>d.
     if d = 0 then kret 0 else
     kbind (copyuvm_loop ((unat sz + 4095) div 4096) pgdir d 0) (\<lambda>ok.
     if ok then kret d else kthen (freevm d) (kret 0)))"

text \<open>\<^verbatim>\<open>uva2ka\<close> dereferences the result of \<^verbatim>\<open>walkpgdir\<close> without a test. A null entry is then the word at virtual
  address 0 of the page table that is loaded; it traps when that page is not mapped.\<close>

definition null_pte :: "'a kvm_scheme \<Rightarrow> u32 option" where
  "null_pte s =
     (let pde = rd_pte s (pframe (cr3 s), 0) in
      if pde AND PTE_P = 0 then None else
      let pte = rd_pte s (pframe (PTE_ADDR pde), 0) in
      if pte AND PTE_P = 0 then None else Some (rd32 (pmem s (pframe (PTE_ADDR pte))) 0))"

definition uva2ka :: "u32 \<Rightarrow> u32 \<Rightarrow> (u32, 'a kvm_scheme) kop" where
  "uva2ka pgdir uva =
     kbind (walkpgdir pgdir uva False) (\<lambda>r.
     kbind (kget (\<lambda>s. case r of Some l \<Rightarrow> Some (rd_pte s l) | None \<Rightarrow> null_pte s)) (\<lambda>v. case v of
       None \<Rightarrow> kpanic ''trap''
     | Some pte \<Rightarrow>
         if pte AND PTE_P = 0 then kret 0
         else if pte AND PTE_U = 0 then kret 0
         else kret (P2V (PTE_ADDR pte))))"

text \<open>Copying \<open>len\<close> bytes of a kernel buffer, page by page; each round copies at least one byte.\<close>

primrec copyout_loop :: "nat \<Rightarrow> u32 \<Rightarrow> u32 \<Rightarrow> bytes \<Rightarrow> nat \<Rightarrow> u32 \<Rightarrow> (int, 'a kvm_scheme) kop" where
  "copyout_loop 0 pgdir va p off len = kret 0"
| "copyout_loop (Suc f) pgdir va p off len =
     (if \<not> 0 < len then kret 0 else
      let va0 = PGROUNDDOWN va in
      kbind (uva2ka pgdir va0) (\<lambda>pa0.
      if pa0 = 0 then kret (-1) else
      let n0 = PGSIZE - (va - va0); n = (if len < n0 then len else n0); g = pframe (V2P pa0) in
      kthen (kmod (\<lambda>s. s\<lparr>pmem := (pmem s)(g := bcopy p off (pmem s g) (unat (va - va0)) (unat n))\<rparr>))
        (copyout_loop f pgdir (va0 + PGSIZE) p (off + unat n) (len - n))))"

definition copyout :: "u32 \<Rightarrow> u32 \<Rightarrow> bytes \<Rightarrow> u32 \<Rightarrow> (int, 'a kvm_scheme) kop" where
  "copyout pgdir va p len = copyout_loop (unat len) pgdir va p 0 len"

subsection \<open>Entries and indices\<close>

lemma rd_wr_pte: "rd_pte (wr_pte l v s) l' = (if l' = l then v else rd_pte s l')"
proof (cases "fst l' = fst l \<and> l' \<noteq> l")
  case True
  then have "snd l' \<noteq> snd l" by (auto simp: prod_eq_iff)
  then have "rd32 (wr32 m (4 * snd l) v) (4 * snd l') = rd32 m (4 * snd l')" for m by (intro rd32_wr32_other) auto
  with True show ?thesis by (auto simp: rd_pte_def wr_pte_def)
qed (auto simp: rd_pte_def wr_pte_def)

lemma wr_pte_frame [simp]: "f \<noteq> fst l \<Longrightarrow> pmem (wr_pte l v s) f = pmem s f" "kend (wr_pte l v s) = kend s"
  "freelist (wr_pte l v s) = freelist s" "klocks (wr_pte l v s) = klocks s" "use_lock (wr_pte l v s) = use_lock s"
  by (simp_all add: wr_pte_def)

lemma page_fill_frame [simp]: "f \<noteq> pframe (V2P v) \<Longrightarrow> pmem (page_fill v c s) f = pmem s f" "kend (page_fill v c s) = kend s"
  "freelist (page_fill v c s) = freelist s" "klocks (page_fill v c s) = klocks s" "use_lock (page_fill v c s) = use_lock s"
  "pmem (page_fill v c s) (pframe (V2P v)) = (\<lambda>_. c)"
  by (simp_all add: page_fill_def)

lemma low_mask: "(0xFFF :: u32) = mask 12" "(0x3FF :: u32) = mask 10"
  by (simp_all add: mask_eq_exp_minus_1)

lemma aligned_bits: "4096 dvd unat (x :: u32) \<Longrightarrow> n < 12 \<Longrightarrow> \<not> bit x n"
proof -
  assume a: "4096 dvd unat x" "n < 12"
  then have "take_bit 12 (unat x) = 0" by (simp add: take_bit_eq_mod mod_eq_0_iff_dvd)
  then have "\<not> bit (take_bit 12 (unat x)) n" by simp
  then show ?thesis using a(2) by (simp add: bit_take_bit_iff bit_unsigned_iff)
qed

definition pflags :: "u32 \<Rightarrow> bool" where
  "pflags f \<longleftrightarrow> f AND 0xFFF = f"

lemma pte_fields:
  assumes "4096 dvd unat x" "pflags f"
  shows "PTE_ADDR (x OR f) = x" "PTE_FLAGS (x OR f) = f"
proof -
  have f: "\<not> bit f n" if "12 \<le> n" for n using assms(2) that unfolding pflags_def low_mask by (metis bit_and_iff bit_mask_iff not_le)
  show "PTE_ADDR (x OR f) = x" unfolding PTE_ADDR_def low_mask
    using aligned_bits[OF assms(1)] f by (intro bit_word_eqI) (auto simp: bit_simps not_less not_le[symmetric])
  show "PTE_FLAGS (x OR f) = f" unfolding PTE_FLAGS_def low_mask
    using aligned_bits[OF assms(1)] f by (intro bit_word_eqI) (auto simp: bit_simps, meson not_le)
qed

lemma PTE_P_bit: "x AND PTE_P \<noteq> 0 \<longleftrightarrow> bit x 0"
proof -
  have "x AND PTE_P = take_bit 1 x" unfolding PTE_P_def by (simp add: and_one_eq take_bit_Suc)
  then show ?thesis by (simp add: PTE_P_def and_one_eq bit_0 odd_iff_mod_2_eq_one)
qed

lemma PTE_P_or [simp]: "(x OR PTE_P) AND PTE_P \<noteq> 0"
  unfolding PTE_P_bit by (simp add: bit_or_iff PTE_P_def bit_1_iff)

lemma PDX_bound: "PDX va < 1024" and PTX_bound: "PTX va < 1024"
proof -
  have "unat (y AND mask 10) < 2 ^ 10" for y :: u32
    using take_bit_nat_less_exp[of 10 "unat y"] by (simp flip: take_bit_eq_mask add: unsigned_take_bit_eq)
  then show "PDX va < 1024" "PTX va < 1024" by (simp_all add: PDX_def PTX_def low_mask)
qed

lemma same_page: "PDX a = PDX b \<and> PTX a = PTX b \<longleftrightarrow> drop_bit 12 a = drop_bit 12 b"
proof
  assume h: "PDX a = PDX b \<and> PTX a = PTX b"
  then have p: "take_bit 10 (drop_bit 22 a) = take_bit 10 (drop_bit 22 b)" "take_bit 10 (drop_bit 12 a) = take_bit 10 (drop_bit 12 b)"
    unfolding PDX_def PTX_def low_mask take_bit_eq_mask by (blast intro: unsigned_word_eqI)+
  show "drop_bit 12 a = drop_bit 12 b"
  proof (rule bit_word_eqI)
    fix n
    assume "n < LENGTH(32)"
    show "bit (drop_bit 12 a) n = bit (drop_bit 12 b) n"
    proof (cases "n < 10")
      case True
      then show ?thesis using arg_cong[OF p(2), of "\<lambda>x. bit x n"] by (simp add: bit_simps)
    next
      case False
      then have "bit (drop_bit 12 x) n = bit (take_bit 10 (drop_bit 22 x)) (n - 10)" if "n < 20" for x :: u32
      proof -
        have "n - 10 < 10" using that by simp
        then show ?thesis using False by (simp add: bit_simps)
      qed
      moreover have "\<not> bit (drop_bit 12 x) n" if "\<not> n < 20" for x :: u32 using that bit_imp_le_length[of x "12 + n"] by (auto simp: bit_drop_bit_eq)
      ultimately show ?thesis using p(1) by metis
    qed
  qed
next
  assume h: "drop_bit 12 a = drop_bit 12 b"
  have "drop_bit 22 x = drop_bit 10 (drop_bit 12 x)" for x :: u32 by (simp add: drop_bit_drop_bit)
  with h have "drop_bit 22 a = drop_bit 22 b" by metis
  with h show "PDX a = PDX b \<and> PTX a = PTX b" by (simp add: PDX_def PTX_def)
qed

subsection \<open>The translation of a page table\<close>

definition pde_of :: "'a kmem_scheme \<Rightarrow> u32 \<Rightarrow> nat \<Rightarrow> u32" where
  "pde_of s pgdir i = rd_pte s (pframe (V2P pgdir), i)"

definition present :: "u32 \<Rightarrow> bool" where
  "present e \<longleftrightarrow> e AND PTE_P \<noteq> 0"

definition table_at :: "'a kmem_scheme \<Rightarrow> u32 \<Rightarrow> nat \<Rightarrow> u32" where
  "table_at s pgdir i = P2V (PTE_ADDR (pde_of s pgdir i))"

definition pte_of :: "'a kmem_scheme \<Rightarrow> u32 \<Rightarrow> u32 \<Rightarrow> u32" where
  "pte_of s pgdir va = (if present (pde_of s pgdir (PDX va))
     then rd_pte s (pframe (PTE_ADDR (pde_of s pgdir (PDX va))), PTX va) else 0)"

text \<open>\<open>pg_ok s pgdir vs\<close>: the directory and its page tables are different pages, none of them free.\<close>

definition pg_ok :: "'a kmem_scheme \<Rightarrow> u32 \<Rightarrow> u32 list \<Rightarrow> bool" where
  "pg_ok s pgdir vs \<longleftrightarrow> kpage (kend s) pgdir \<and> pgdir \<notin> set vs \<and>
     (\<forall>i<1024. present (pde_of s pgdir i) \<longrightarrow>
        kpage (kend s) (table_at s pgdir i) \<and> table_at s pgdir i \<noteq> pgdir \<and> table_at s pgdir i \<notin> set vs) \<and>
     (\<forall>i<1024. \<forall>j<1024. present (pde_of s pgdir i) \<longrightarrow> present (pde_of s pgdir j) \<longrightarrow>
        table_at s pgdir i = table_at s pgdir j \<longrightarrow> i = j)"

text \<open>The pages that hold the page table.\<close>

definition pt_pages :: "'a kmem_scheme \<Rightarrow> u32 \<Rightarrow> u32 set" where
  "pt_pages s pgdir = insert pgdir {table_at s pgdir i | i. i < 1024 \<and> present (pde_of s pgdir i)}"

lemma V2P_P2V [simp]: "V2P (P2V x) = x" "P2V (V2P x) = x"
  by (simp_all add: V2P_def P2V_def)

lemma present_0 [simp]: "\<not> present 0"
  by (simp add: present_def)

lemma present_P [simp]: "present (x OR PTE_P)"
  unfolding present_def by (rule PTE_P_or)

lemma table_frame: "pframe (PTE_ADDR (pde_of s pgdir i)) = pframe (V2P (table_at s pgdir i))"
  by (simp add: table_at_def)

lemma pg_okD:
  assumes "pg_ok s pgdir vs"
  shows "kpage (kend s) pgdir" "pgdir \<notin> set vs"
    and "i < 1024 \<Longrightarrow> present (pde_of s pgdir i) \<Longrightarrow> kpage (kend s) (table_at s pgdir i)"
    and "i < 1024 \<Longrightarrow> present (pde_of s pgdir i) \<Longrightarrow> table_at s pgdir i \<noteq> pgdir"
    and "i < 1024 \<Longrightarrow> present (pde_of s pgdir i) \<Longrightarrow> table_at s pgdir i \<notin> set vs"
    and "i < 1024 \<Longrightarrow> j < 1024 \<Longrightarrow> present (pde_of s pgdir i) \<Longrightarrow> present (pde_of s pgdir j) \<Longrightarrow> table_at s pgdir i = table_at s pgdir j \<Longrightarrow> i = j"
  using assms unfolding pg_ok_def by blast+

lemma walk_present: "present (pde_of s pgdir (PDX va)) \<Longrightarrow>
  walkpgdir pgdir va alloc s = Ok (Some (pframe (V2P (table_at s pgdir (PDX va))), PTX va)) s"
  by (simp add: walkpgdir_def present_def pde_of_def table_at_def)

lemma walk_absent: "\<not> present (pde_of s pgdir (PDX va)) \<Longrightarrow> walkpgdir pgdir va False s = Ok None s"
  by (simp add: walkpgdir_def present_def pde_of_def)

lemma rd32_zero [simp]: "rd32 (\<lambda>_. 0) a = 0"
  by (simp add: rd32_def)

text \<open>A new page table, empty, in the free slot of the directory.\<close>

lemma new_table:
  assumes k: "kmem_ok s (v # vs)" and p: "pg_ok s pgdir (v # vs)" and i: "i < 1024" "\<not> present (pde_of s pgdir i)"
    and s1: "kmem_ok s1 vs" "pmem s1 = pmem s" "kend s1 = kend s"
  defines "s' \<equiv> wr_pte (pframe (V2P pgdir), i) (V2P v OR (PTE_P OR PTE_W OR PTE_U)) (page_fill v 0 s1)"
  shows "kmem_ok s' vs" "pg_ok s' pgdir vs" "pte_of s' pgdir = pte_of s pgdir" "pt_pages s' pgdir = insert v (pt_pages s pgdir)"
    "present (pde_of s' pgdir i)" "table_at s' pgdir i = v" "kend s' = kend s"
    "w \<noteq> pgdir \<Longrightarrow> w \<noteq> v \<Longrightarrow> kpage (kend s) w \<Longrightarrow> pmem s' (pframe (V2P w)) = pmem s (pframe (V2P w))"
proof -
  note P = pg_okD[OF p]
  have kv: "kpage (kend s) v" "v \<notin> set vs" "\<And>w. w \<in> set vs \<Longrightarrow> kpage (kend s) w" using k by (auto simp: kmem_ok_def)
  note inj = pframe_inj[where e = "kend s"]
  have e: "PTE_ADDR (V2P v OR (PTE_P OR PTE_W OR PTE_U)) = V2P v" "present (V2P v OR (PTE_P OR PTE_W OR PTE_U))"
  proof -
    have "4096 dvd unat (V2P v)" using kpage_frame[OF kv(1)] by simp
    then show "PTE_ADDR (V2P v OR (PTE_P OR PTE_W OR PTE_U)) = V2P v"
      by (rule pte_fields) (simp add: pflags_def PTE_P_def PTE_W_def PTE_U_def)
    have "V2P v OR (PTE_P OR PTE_W OR PTE_U) = (V2P v OR (PTE_W OR PTE_U)) OR PTE_P" by (simp add: or.commute or.left_commute)
    then show "present (V2P v OR (PTE_P OR PTE_W OR PTE_U))" by simp
  qed
  show other: "pmem s' (pframe (V2P w)) = pmem s (pframe (V2P w))" if "w \<noteq> pgdir" "w \<noteq> v" "kpage (kend s) w" for w
    using that inj[OF that(3) P(1)] inj[OF that(3) kv(1)] s1(2) by (simp add: s'_def)
  have vp: "v \<noteq> pgdir" using P(2) by auto
  have pde: "pde_of s' pgdir j = (if j = i then V2P v OR (PTE_P OR PTE_W OR PTE_U) else pde_of s pgdir j)" for j
  proof -
    have "rd_pte (page_fill v 0 s1) (pframe (V2P pgdir), j) = rd_pte s (pframe (V2P pgdir), j)"
      using inj[OF P(1) kv(1)] vp s1(2) by (simp add: rd_pte_def)
    then show ?thesis by (simp add: pde_of_def s'_def rd_wr_pte)
  qed
  show pi: "present (pde_of s' pgdir i)" "table_at s' pgdir i = v" using e by (simp_all add: pde table_at_def)
  have tj: "table_at s' pgdir j = table_at s pgdir j" if "j \<noteq> i" for j using that by (simp add: table_at_def pde)
  show ke: "kend s' = kend s" using s1(3) by (simp add: s'_def)
  have "pmem s' (pframe (V2P w)) = pmem s1 (pframe (V2P w))" if "w \<in> set vs" for w
    using other[of w] that kv P(2) s1(2) by auto
  then show "kmem_ok s' vs" using s1(1) klist_frame[of vs "pmem s'" "pmem s1"] by (simp add: kmem_ok_def s'_def)
  show "pg_ok s' pgdir vs" unfolding pg_ok_def ke
  proof (intro conjI allI impI, goal_cases)
    case (3 j)
    then show ?case by (cases "j = i") (auto simp: pi(2) tj pde kv P)
  next
    case (4 j)
    then show ?case using vp by (cases "j = i") (auto simp: pi(2) tj pde kv P)
  next
    case (5 j)
    then show ?case using kv(2) P(5)[of j] by (cases "j = i") (auto simp: pi(2) tj pde)
  next
    case (6 j l)
    then show ?case using P(5)[of j] P(5)[of l] P(6)[of j l] by (cases "j = i"; cases "l = i") (auto simp: pi(2) tj pde)
  qed (use P(1,2) in auto)
  have "pte_of s' pgdir va = pte_of s pgdir va" for va
  proof (cases "PDX va = i")
    case True
    have "rd_pte s' (pframe (V2P v), PTX va) = rd_pte (page_fill v 0 s1) (pframe (V2P v), PTX va)"
      using inj[OF kv(1) P(1)] vp by (simp add: s'_def rd_wr_pte)
    then have "rd_pte s' (pframe (V2P v), PTX va) = 0" by (simp add: rd_pte_def)
    then show ?thesis using True i(2) pi table_frame[of s' pgdir i] by (simp add: pte_of_def)
  next
    case False
    show ?thesis
    proof (cases "present (pde_of s pgdir (PDX va))")
      case True
      then have t: "kpage (kend s) (table_at s pgdir (PDX va))" "table_at s pgdir (PDX va) \<noteq> pgdir" "table_at s pgdir (PDX va) \<noteq> v"
        using P(3,4,5)[OF PDX_bound True] by auto
      have "rd_pte s' (pframe (V2P (table_at s pgdir (PDX va))), PTX va) = rd_pte s (pframe (V2P (table_at s pgdir (PDX va))), PTX va)"
        using other[OF t(2,3,1)] by (simp add: rd_pte_def)
      then show ?thesis using False True by (simp add: pte_of_def pde table_at_def)
    qed (simp add: pte_of_def pde False)
  qed
  then show "pte_of s' pgdir = pte_of s pgdir" by (simp add: fun_eq_iff)
  show "pt_pages s' pgdir = insert v (pt_pages s pgdir)" unfolding pt_pages_def
    using pi i tj by (auto simp: pde e split: if_splits) (metis pde)+
qed

lemma set_pte:
  fixes v :: u32
  assumes k: "kmem_ok s vs" and p: "pg_ok s pgdir vs" and here: "present (pde_of s pgdir (PDX va))"
  defines "t \<equiv> table_at s pgdir (PDX va)"
  defines "s' \<equiv> wr_pte (pframe (V2P t), PTX va) v s"
  shows "kmem_ok s' vs" "pg_ok s' pgdir vs" "pt_pages s' pgdir = pt_pages s pgdir" "kend s' = kend s"
    "pte_of s' pgdir va' = (if drop_bit 12 va' = drop_bit 12 va then v else pte_of s pgdir va')"
    "w \<notin> pt_pages s pgdir \<Longrightarrow> kpage (kend s) w \<Longrightarrow> pmem s' (pframe (V2P w)) = pmem s (pframe (V2P w))"
proof -
  note P = pg_okD[OF p] and inj = pframe_inj[where e = "kend s"]
  have t: "kpage (kend s) t" "t \<noteq> pgdir" "t \<notin> set vs" "t \<in> pt_pages s pgdir"
    using P(3,4,5)[OF PDX_bound here] PDX_bound here by (auto simp: t_def pt_pages_def)
  have keep: "pmem s' (pframe (V2P w)) = pmem s (pframe (V2P w))" if "w \<noteq> t" "kpage (kend s) w" for w
    using that inj[OF that(2) t(1)] by (simp add: s'_def)
  show "w \<notin> pt_pages s pgdir \<Longrightarrow> kpage (kend s) w \<Longrightarrow> pmem s' (pframe (V2P w)) = pmem s (pframe (V2P w))"
    using keep t(4) by metis
  show ke: "kend s' = kend s" by (simp add: s'_def)
  have pde: "pde_of s' pgdir j = pde_of s pgdir j" for j using keep[of pgdir] t(2) P(1) by (simp add: pde_of_def rd_pte_def)
  then have tab: "table_at s' pgdir = table_at s pgdir" by (simp add: table_at_def fun_eq_iff)
  show "pt_pages s' pgdir = pt_pages s pgdir" by (simp add: pt_pages_def pde tab)
  show "pg_ok s' pgdir vs" using p by (simp add: pg_ok_def pde tab ke)
  have "pmem s' (pframe (V2P w)) = pmem s (pframe (V2P w))" if "w \<in> set vs" for w
    using keep[of w] that k t(3) by (auto simp: kmem_ok_def)
  then show "kmem_ok s' vs" using k klist_frame[of vs "pmem s'" "pmem s"] by (simp add: kmem_ok_def s'_def)
  show "pte_of s' pgdir va' = (if drop_bit 12 va' = drop_bit 12 va then v else pte_of s pgdir va')"
  proof (cases "present (pde_of s pgdir (PDX va'))")
    case True
    have "pframe (V2P (table_at s pgdir (PDX va'))) = pframe (V2P t) \<longleftrightarrow> PDX va' = PDX va"
      using inj[OF P(3)[OF PDX_bound True] t(1)] P(6)[OF PDX_bound PDX_bound True here] by (auto simp: t_def)
    moreover have "rd_pte s' l = (if l = (pframe (V2P t), PTX va) then v else rd_pte s l)" for l by (simp add: s'_def rd_wr_pte)
    moreover have "pframe (PTE_ADDR (pde_of s pgdir (PDX va'))) = pframe (V2P (table_at s pgdir (PDX va')))" by (rule table_frame)
    ultimately show ?thesis using True by (auto simp: pte_of_def pde same_page[symmetric])
  next
    case False
    then have "PDX va' \<noteq> PDX va" using here by auto
    then show ?thesis using False by (auto simp: pte_of_def pde same_page[symmetric])
  qed
qed

text \<open>What mapping one page does: either memory for a page table is exhausted and nothing has changed, or the
  entry of that page, and of no other, has its new value.\<close>

definition mapped1 :: "'a kmem_scheme \<Rightarrow> u32 \<Rightarrow> u32 list \<Rightarrow> u32 \<Rightarrow> u32 \<Rightarrow> 'a kmem_scheme \<Rightarrow> u32 list \<Rightarrow> bool" where
  "mapped1 s pgdir vs va e s' vs' \<longleftrightarrow> kmem_ok s' vs' \<and> pg_ok s' pgdir vs' \<and> kend s' = kend s \<and> (vs' = vs \<or> (\<exists>v. vs = v # vs'))
     \<and> (\<forall>va'. pte_of s' pgdir va' = (if drop_bit 12 va' = drop_bit 12 va then e else pte_of s pgdir va'))
     \<and> pt_pages s' pgdir \<subseteq> pt_pages s pgdir \<union> (set vs - set vs')
     \<and> (\<forall>w. kpage (kend s) w \<and> w \<notin> pt_pages s pgdir \<and> w \<notin> set vs \<longrightarrow> pmem s' (pframe (V2P w)) = pmem s (pframe (V2P w)))"

lemma map_page_ok:
  assumes k: "kmem_ok s vs" and p: "pg_ok s pgdir vs" and new: "\<not> present (pte_of s pgdir va)"
  shows "(vs = [] \<and> map_page pgdir va pa perm s = Ok False s)
    \<or> (\<exists>s' vs'. map_page pgdir va pa perm s = Ok True s' \<and> mapped1 s pgdir vs va (pa OR perm OR PTE_P) s' vs')"
proof (cases "present (pde_of s pgdir (PDX va))")
  case True
  let ?l = "(pframe (V2P (table_at s pgdir (PDX va))), PTX va)"
  have "rd_pte s ?l AND PTE_P = 0" using new True by (simp add: pte_of_def table_frame present_def)
  then have "map_page pgdir va pa perm s = Ok True (wr_pte ?l (pa OR perm OR PTE_P) s)"
    by (simp add: map_page_def walk_present[OF True])
  then show ?thesis unfolding mapped1_def using set_pte[OF k p True] by blast
next
  case False
  show ?thesis
  proof (cases vs)
    case Nil
    have "LKmem \<notin> klocks s" "freelist s = 0" using k Nil by (auto simp: kmem_ok_def)
    then have "kalloc s = Ok 0 s" by (simp add: kalloc_apply)
    then show ?thesis using False Nil by (simp add: map_page_def walkpgdir_def present_def pde_of_def)
  next
    case (Cons v ws)
    obtain s1 where s1: "kalloc s = Ok v s1" "kmem_ok s1 ws" "pmem s1 = pmem s" "kend s1 = kend s"
      using kalloc_ok[OF k] Cons by auto
    have v0: "v \<noteq> 0" using ka.inv_pages[OF k] Cons by simp
    define s2 where "s2 = wr_pte (pframe (V2P pgdir), PDX va) (V2P v OR (PTE_P OR PTE_W OR PTE_U)) (page_fill v 0 s1)"
    note T = new_table[OF k[unfolded Cons] p[unfolded Cons] PDX_bound False s1(2,3,4), folded s2_def]
    let ?l = "(pframe (V2P (table_at s2 pgdir (PDX va))), PTX va)"
    have w: "walkpgdir pgdir va True s = Ok (Some ?l) s2"
      using False s1(1) v0 T(6) by (simp add: walkpgdir_def present_def pde_of_def s2_def or.assoc)
    have "\<not> present (pte_of s2 pgdir va)" using new T(3) by simp
    then have "rd_pte s2 ?l AND PTE_P = 0" using T(5) by (simp add: pte_of_def table_frame present_def)
    then have m: "map_page pgdir va pa perm s = Ok True (wr_pte ?l (pa OR perm OR PTE_P) s2)" by (simp add: map_page_def w)
    note S = set_pte[OF T(1,2,5), where v = "pa OR perm OR PTE_P"]
    have "mapped1 s pgdir vs va (pa OR perm OR PTE_P) (wr_pte ?l (pa OR perm OR PTE_P) s2) ws" unfolding mapped1_def
    proof (intro conjI allI impI, goal_cases)
      case (5 va')
      then show ?case using S(5) T(3) by simp
    next
      case 6
      have "v \<notin> set ws" using ka.inv_pages[OF k] Cons by simp
      then show ?case using S(3) T(4) Cons by auto
    next
      case (7 w)
      then show ?case using S(6)[of w] T(4,7) T(8)[of w] Cons by (auto simp: pt_pages_def)
    qed (use S T Cons in auto)
    with m show ?thesis by blast
  qed
qed

lemma PGROUNDDOWN_aligned: "unat a mod 4096 = 0 \<Longrightarrow> PGROUNDDOWN a = a"
  by (rule unsigned_word_eqI[where ?'a = nat]) (simp add: PGROUNDDOWN_val div_mult_mod_eq mod_0_imp_dvd)

lemma mappages_page:
  assumes "unat a mod 4096 = 0"
  shows "mappages pgdir a PGSIZE pa perm = mappages_loop 0 pgdir a pa perm"
proof -
  obtain m where m: "unat a = 4096 * m" using assms by auto
  then have "4096 * m < 4294967296" using unat_u32[of a] by simp
  then have "m < 1048576" by simp
  then have "unat (a + PGSIZE - 1) = 4096 * m + 4095" using m by (simp add: PGSIZE_def unat_word_ariths(1) add.commute[of a])
  then have "unat (PGROUNDDOWN (a + PGSIZE - 1)) = unat a" using m by (simp add: PGROUNDDOWN_val)
  then have "PGROUNDDOWN (a + PGSIZE - 1) = a" by (rule unsigned_word_eqI)
  then show ?thesis using PGROUNDDOWN_aligned[OF assms] by (simp add: mappages_def)
qed

text \<open>The translation depends on the pages of the page table only.\<close>

lemma pt_cong:
  assumes "\<forall>w\<in>pt_pages s pgdir. pmem s' (pframe (V2P w)) = pmem s (pframe (V2P w))"
  shows "pde_of s' pgdir = pde_of s pgdir" "table_at s' pgdir = table_at s pgdir" "pte_of s' pgdir = pte_of s pgdir"
    "pt_pages s' pgdir = pt_pages s pgdir"
proof -
  have pde: "pde_of s' pgdir j = pde_of s pgdir j" for j using assms by (simp add: pde_of_def rd_pte_def pt_pages_def)
  then show "pde_of s' pgdir = pde_of s pgdir" by (simp add: fun_eq_iff)
  show tab: "table_at s' pgdir = table_at s pgdir" by (simp add: table_at_def fun_eq_iff pde)
  show "pt_pages s' pgdir = pt_pages s pgdir" by (simp add: pt_pages_def pde tab)
  have "pte_of s' pgdir va = pte_of s pgdir va" for va
  proof (cases "present (pde_of s pgdir (PDX va))")
    case True
    then have "table_at s pgdir (PDX va) \<in> pt_pages s pgdir" using PDX_bound by (auto simp: pt_pages_def)
    then show ?thesis using True assms by (simp add: pte_of_def pde table_frame rd_pte_def tab)
  qed (simp add: pte_of_def pde)
  then show "pte_of s' pgdir = pte_of s pgdir" by (simp add: fun_eq_iff)
qed

lemma pg_ok_cong:
  assumes "pg_ok s pgdir vs" "kend s' = kend s" "set vs' \<subseteq> set vs"
    "\<forall>w\<in>pt_pages s pgdir. pmem s' (pframe (V2P w)) = pmem s (pframe (V2P w))"
  shows "pg_ok s' pgdir vs'"
  using assms(1,3) unfolding pg_ok_def pt_cong[OF assms(4)] assms(2) by blast

text \<open>A fresh zeroed page.\<close>

lemma fresh_page:
  assumes k: "kmem_ok s (v # vs)" and p: "pg_ok s pgdir (v # vs)"
  obtains s1 where "kalloc s = Ok v s1" "v \<noteq> 0" "kmem_ok (page_fill v 0 s1) vs" "pg_ok (page_fill v 0 s1) pgdir vs"
    "pte_of (page_fill v 0 s1) pgdir = pte_of s pgdir" "pt_pages (page_fill v 0 s1) pgdir = pt_pages s pgdir"
    "kend s1 = kend s" "v \<notin> pt_pages s pgdir" "v \<notin> set vs" "kpage (kend s) v"
    "\<And>w. kpage (kend s) w \<Longrightarrow> w \<noteq> v \<Longrightarrow> pmem (page_fill v 0 s1) (pframe (V2P w)) = pmem s (pframe (V2P w))"
proof -
  obtain s1 where s1: "kalloc s = Ok v s1" "kmem_ok s1 vs" "pmem s1 = pmem s" "kend s1 = kend s" using kalloc_ok[OF k] by auto
  have v: "v \<noteq> 0" "kpage (kend s) v" "v \<notin> set vs" "\<And>w. w \<in> set vs \<Longrightarrow> kpage (kend s) w" using ka.inv_pages[OF k] by auto
  have pv: "v \<notin> pt_pages s pgdir" and kp: "\<And>w. w \<in> pt_pages s pgdir \<Longrightarrow> kpage (kend s) w"
    using pg_okD[OF p] by (auto simp: pt_pages_def)
  have keep: "pmem (page_fill v 0 s1) (pframe (V2P w)) = pmem s (pframe (V2P w))" if "kpage (kend s) w" "w \<noteq> v" for w
    using that pframe_inj[OF that(1) v(2)] s1(3) by simp
  have "pg_ok (page_fill v 0 s1) pgdir vs" "pte_of (page_fill v 0 s1) pgdir = pte_of s pgdir" "pt_pages (page_fill v 0 s1) pgdir = pt_pages s pgdir"
    using pg_ok_cong[OF p, of "page_fill v 0 s1" vs] pt_cong[of s pgdir "page_fill v 0 s1"] s1(4) keep kp pv by auto
  moreover have "kmem_ok (page_fill v 0 s1) vs"
    using s1(2-4) v klist_frame[of vs "pmem (page_fill v 0 s1)" "pmem s"] keep by (auto simp: kmem_ok_def)
  ultimately show ?thesis using that s1 v pv keep by blast
qed

text \<open>\<open>grown s pgdir vs a n s' vs' ws\<close>: from \<open>s\<close> to \<open>s'\<close> the \<open>n\<close> pages from address \<open>a\<close> on have been mapped to the
  zeroed pages \<open>ws\<close>, taken from the free pages \<open>vs\<close>, of which \<open>vs'\<close> are left; nothing else has changed.\<close>

definition grown :: "'a kmem_scheme \<Rightarrow> u32 \<Rightarrow> u32 list \<Rightarrow> u32 \<Rightarrow> nat \<Rightarrow> 'a kmem_scheme \<Rightarrow> u32 list \<Rightarrow> u32 list \<Rightarrow> bool" where
  "grown s pgdir vs a n s' vs' ws \<longleftrightarrow> kmem_ok s' vs' \<and> pg_ok s' pgdir vs' \<and> kend s' = kend s \<and> set vs' \<subseteq> set vs
     \<and> length ws = n \<and> distinct ws \<and> set ws \<subseteq> set vs - set vs' \<and> set ws \<inter> pt_pages s' pgdir = {}
     \<and> pt_pages s' pgdir \<subseteq> pt_pages s pgdir \<union> (set vs - set vs')
     \<and> (\<forall>w\<in>set ws. pmem s' (pframe (V2P w)) = (\<lambda>_. 0))
     \<and> (\<forall>va. pte_of s' pgdir va =
          (if unat a \<le> unat va \<and> unat va < unat a + 4096 * n
           then V2P (ws ! ((unat va - unat a) div 4096)) OR (PTE_W OR PTE_U) OR PTE_P else pte_of s pgdir va))
     \<and> (\<forall>w. kpage (kend s) w \<and> w \<notin> pt_pages s pgdir \<and> w \<notin> set vs \<longrightarrow> pmem s' (pframe (V2P w)) = pmem s (pframe (V2P w)))"

lemma page_of_range:
  assumes "unat a mod 4096 = 0"
  shows "drop_bit 12 va = drop_bit 12 (a :: u32) \<longleftrightarrow> unat a \<le> unat va \<and> unat va < unat a + 4096"
proof -
  have d: "unat (drop_bit 12 x) = unat x div 4096" for x :: u32 by (simp add: drop_bit_eq_div unat_div)
  obtain m where m: "unat a = 4096 * m" using assms by auto
  have "drop_bit 12 va = drop_bit 12 a \<longleftrightarrow> unat va div 4096 = unat a div 4096"
    using d[of va] d[of a] by (metis unsigned_word_eqI)
  also have "\<dots> \<longleftrightarrow> unat a \<le> unat va \<and> unat va < unat a + 4096" unfolding m by (auto simp: div_nat_eqI)
  finally show ?thesis .
qed

lemma grown_refl: "kmem_ok s vs \<Longrightarrow> pg_ok s pgdir vs \<Longrightarrow> grown s pgdir vs a 0 s vs []"
  by (auto simp: grown_def)

text \<open>One page more, in front.\<close>

lemma grown_step:
  assumes k: "kmem_ok s (v # vs)" and p: "pg_ok s pgdir (v # vs)" and al: "unat a mod 4096 = 0" and top: "unat a + 4096 < 4294967296"
    and s2: "kend s2 = kend s" "pte_of s2 pgdir = pte_of s pgdir" "pt_pages s2 pgdir = pt_pages s pgdir" "pmem s2 (pframe (V2P v)) = (\<lambda>_. 0)"
      "\<And>w. kpage (kend s) w \<Longrightarrow> w \<noteq> v \<Longrightarrow> pmem s2 (pframe (V2P w)) = pmem s (pframe (V2P w))"
    and m: "mapped1 s2 pgdir vs a (V2P v OR (PTE_W OR PTE_U) OR PTE_P) s3 vs3"
    and g: "grown s3 pgdir vs3 (a + PGSIZE) n s' vs' ws"
  shows "grown s pgdir (v # vs) a (Suc n) s' vs' (v # ws)"
proof -
  note M = m[unfolded mapped1_def] and G = g[unfolded grown_def]
  have v: "kpage (kend s) v" "v \<notin> set vs" "v \<notin> pt_pages s pgdir"
    using ka.inv_pages[OF k] pg_okD[OF p] by (auto simp: pt_pages_def)
  have sub: "set vs3 \<subseteq> set vs" using M by auto
  have v3: "v \<notin> pt_pages s3 pgdir" "v \<notin> set vs3" using M v s2(3) sub by auto
  have z: "pmem s' (pframe (V2P v)) = (\<lambda>_. 0)" using G M v v3 s2 by (metis (no_types, lifting))
  have a1: "unat (a + PGSIZE) = unat a + 4096" using top by (simp add: PGSIZE_def unat_word_ariths(1) add.commute[of a])
  have pte: "pte_of s' pgdir va = (if unat a \<le> unat va \<and> unat va < unat a + 4096 * Suc n
      then V2P ((v # ws) ! ((unat va - unat a) div 4096)) OR (PTE_W OR PTE_U) OR PTE_P else pte_of s pgdir va)" for va
  proof (cases "unat a + 4096 \<le> unat va")
    case True
    have "(unat va - unat a) div 4096 = Suc ((unat va - (unat a + 4096)) div 4096)"
      using True by (simp add: div_if[of "unat va - unat a"])
    then show ?thesis using G M s2(2) True a1 page_of_range[OF al, of va] by simp
  next
    case False
    then show ?thesis using G M s2(2) a1 page_of_range[OF al, of va] by auto
  qed
  show ?thesis unfolding grown_def
  proof (intro conjI allI ballI, goal_cases)
    case (10 w) then show ?case using G z by auto
  next
    case (11 va) then show ?case by (rule pte)
  next
    case (12 w)
    show ?case
    proof
      assume w: "kpage (kend s) w \<and> w \<notin> pt_pages s pgdir \<and> w \<notin> set (v # vs)"
      then have "w \<notin> pt_pages s3 pgdir" "w \<notin> set vs3" using M s2(3) sub by auto
      then show "pmem s' (pframe (V2P w)) = pmem s (pframe (V2P w))" using w G M s2 by simp
    qed
  next
    case 9 then show ?case using G M s2(3) sub v by fastforce
  next
    case 7 then show ?case using G sub v v3 by auto
  next
    case 8 then show ?case using G M v v3 sub s2(3) by auto
  next
    case 6 then show ?case using G sub v v3 by auto
  next
    case 4 then show ?case using G sub by auto
  qed (use G M s2(1) in simp_all)
qed

lemma allocuvm_loop_ok:
  assumes "kmem_ok s vs" "pg_ok s pgdir vs" "unat a mod 4096 = 0" "2 * n \<le> length vs" "n = (unat newsz - unat a + 4095) div 4096"
    "unat newsz \<le> 2147483648"
    "\<And>va. unat a \<le> unat va \<Longrightarrow> unat va < unat a + 4096 * n \<Longrightarrow> \<not> present (pte_of s pgdir va)"
  shows "\<exists>s' vs' ws. allocuvm_loop n pgdir a oldsz newsz s = Ok newsz s' \<and> grown s pgdir vs a n s' vs' ws"
  using assms
proof (induction n arbitrary: s vs a)
  case 0
  then show ?case using grown_refl by fastforce
next
  case (Suc n)
  obtain v us where vs: "vs = v # us" "us \<noteq> []" using Suc.prems(4) by (cases vs; cases "tl vs") auto
  have lt: "a < newsz" using Suc.prems(5) by (cases "unat newsz \<le> unat a") (auto simp: word_less_nat_alt)
  have a1: "unat (a + PGSIZE) = unat a + 4096" using lt Suc.prems(6) by (simp add: PGSIZE_def unat_word_ariths(1) add.commute[of a] word_less_nat_alt)
  note kp = Suc.prems(1,2)[unfolded vs(1)]
  obtain s1 where s1: "kalloc s = Ok v s1" "v \<noteq> 0" "kmem_ok (page_fill v 0 s1) us" "pg_ok (page_fill v 0 s1) pgdir us"
    "pte_of (page_fill v 0 s1) pgdir = pte_of s pgdir" "pt_pages (page_fill v 0 s1) pgdir = pt_pages s pgdir"
    "kend s1 = kend s" "v \<notin> pt_pages s pgdir" "v \<notin> set us" "kpage (kend s) v"
    "\<And>w. kpage (kend s) w \<Longrightarrow> w \<noteq> v \<Longrightarrow> pmem (page_fill v 0 s1) (pframe (V2P w)) = pmem s (pframe (V2P w))"
    by (rule fresh_page[OF kp]) (rule that; assumption)
  define s2 where "s2 = page_fill v 0 s1"
  have e2: "kend s2 = kend s" "pmem s2 (pframe (V2P v)) = (\<lambda>_. 0)" using s1(7) by (simp_all add: s2_def)
  note S = s1(3-6,11)[folded s2_def]
  have new: "\<not> present (pte_of s2 pgdir a)" using Suc.prems(7)[of a] S(3) by simp
  obtain s3 vs3 where m: "map_page pgdir a (V2P v) (PTE_W OR PTE_U) s2 = Ok True s3" "mapped1 s2 pgdir us a (V2P v OR (PTE_W OR PTE_U) OR PTE_P) s3 vs3"
    using map_page_ok[OF S(1,2) new] vs(2) by blast
  note M = m(2)[unfolded mapped1_def]
  have nab: "\<not> present (pte_of s3 pgdir va)" if "unat (a + PGSIZE) \<le> unat va" "unat va < unat (a + PGSIZE) + 4096 * n" for va
    using M that a1 Suc.prems(7)[of va] S(3) page_of_range[OF Suc.prems(3), of va] by simp
  have len: "2 * n \<le> length vs3" using M Suc.prems(4) vs by auto
  have nn: "n = (unat newsz - unat (a + PGSIZE) + 4095) div 4096" using Suc.prems(5) a1 by simp
  obtain s' vs' ws where r: "allocuvm_loop n pgdir (a + PGSIZE) oldsz newsz s3 = Ok newsz s'" "grown s3 pgdir vs3 (a + PGSIZE) n s' vs' ws"
    using Suc.IH[of s3 vs3 "a + PGSIZE"] M a1 len nn Suc.prems(3,6) nab by auto
  have "unat a + 4096 < 4294967296" using lt Suc.prems(6) by (simp add: word_less_nat_alt)
  then have "grown s pgdir vs a (Suc n) s' vs' (v # ws)" unfolding vs
    using grown_step[OF kp Suc.prems(3) _ e2(1) S(3,4) e2(2) S(5) m(2) r(2)] by blast
  moreover have "allocuvm_loop (Suc n) pgdir a oldsz newsz s = Ok newsz s'"
    using lt s1(1,2) m(1) r(1) Suc.prems(3) by (simp add: mappages_page s2_def[symmetric])
  ultimately show ?case by blast
qed

subsection \<open>Copying to user memory\<close>

definition pt_frames :: "'a kmem_scheme \<Rightarrow> u32 \<Rightarrow> nat set" where
  "pt_frames s pgdir = (\<lambda>w. pframe (V2P w)) ` pt_pages s pgdir"

definition upte :: "'a kmem_scheme \<Rightarrow> u32 \<Rightarrow> nat \<Rightarrow> u32" where
  "upte s pgdir x = pte_of s pgdir (of_nat x)"

text \<open>Where the byte of user address \<open>x\<close> is: a frame and an offset.\<close>

definition uloc :: "'a kmem_scheme \<Rightarrow> u32 \<Rightarrow> nat \<Rightarrow> nat \<times> nat" where
  "uloc s pgdir x = (pframe (PTE_ADDR (upte s pgdir x)), x mod 4096)"

definition user_range :: "'a kmem_scheme \<Rightarrow> u32 \<Rightarrow> nat \<Rightarrow> nat \<Rightarrow> bool" where
  "user_range s pgdir x n \<longleftrightarrow> x + n \<le> 2 ^ 32
     \<and> (\<forall>y. x \<le> y \<and> y < x + n \<longrightarrow> present (upte s pgdir y) \<and> upte s pgdir y AND PTE_U \<noteq> 0
          \<and> P2V (PTE_ADDR (upte s pgdir y)) \<noteq> 0 \<and> fst (uloc s pgdir y) \<notin> pt_frames s pgdir)
     \<and> (\<forall>y z. x \<le> y \<and> y < x + n \<and> x \<le> z \<and> z < x + n \<and> fst (uloc s pgdir y) = fst (uloc s pgdir z) \<longrightarrow> y div 4096 = z div 4096)"

lemma uva2ka_user:
  assumes "present (pte_of s pgdir va)" "pte_of s pgdir va AND PTE_U \<noteq> 0"
  shows "uva2ka pgdir va s = Ok (P2V (PTE_ADDR (pte_of s pgdir va))) s"
proof -
  have p: "present (pde_of s pgdir (PDX va))" using assms(1) by (auto simp: pte_of_def split: if_splits)
  then have "pte_of s pgdir va = rd_pte s (pframe (V2P (table_at s pgdir (PDX va))), PTX va)" by (simp add: pte_of_def table_frame)
  then show ?thesis using assms by (simp add: uva2ka_def walk_present[OF p] present_def)
qed

lemma uva2ka_refused:
  assumes "present (pde_of s pgdir (PDX va))" "\<not> (present (pte_of s pgdir va) \<and> pte_of s pgdir va AND PTE_U \<noteq> 0)"
  shows "uva2ka pgdir va s = Ok 0 s"
proof -
  have "pte_of s pgdir va = rd_pte s (pframe (V2P (table_at s pgdir (PDX va))), PTX va)" using assms(1) by (simp add: pte_of_def table_frame)
  then show ?thesis using assms(2) by (auto simp: uva2ka_def walk_present[OF assms(1)] present_def)
qed

lemma pte_of_page: "drop_bit 12 a = drop_bit 12 b \<Longrightarrow> pte_of s pgdir a = pte_of s pgdir b"
  unfolding same_page[symmetric] by (simp add: pte_of_def)

lemma PGROUNDDOWN_page: "drop_bit 12 (PGROUNDDOWN va) = drop_bit 12 va"
proof -
  have "unat va div 4096 * 4096 \<le> unat va" "unat va < unat va div 4096 * 4096 + 4096"
    using div_mult_mod_eq[of "unat va" 4096] mod_less_divisor[of 4096 "unat va"] by linarith+
  then show ?thesis using page_of_range[of "PGROUNDDOWN va" va] by (simp add: PGROUNDDOWN_val)
qed

lemma upte_page: "y < 2 ^ 32 \<Longrightarrow> z < 2 ^ 32 \<Longrightarrow> y div 4096 = z div 4096 \<Longrightarrow> upte s pgdir y = upte s pgdir z"
  unfolding upte_def
  by (rule pte_of_page, rule unsigned_word_eqI[where ?'a = nat]) (simp add: drop_bit_eq_div unat_div unat_of_nat)

text \<open>One round: the bytes up to the end of the page.\<close>

lemma user_range_write:
  fixes p :: bytes and off :: nat
  assumes u: "user_range s pgdir x n" and m: "m \<le> n" "x mod 4096 + m \<le> 4096" "0 < m"
  defines "g \<equiv> fst (uloc s pgdir x)"
  defines "s1 \<equiv> s\<lparr>pmem := (pmem s)(g := bcopy p off (pmem s g) (x mod 4096) m)\<rparr>"
  shows "upte s1 pgdir = upte s pgdir" "uloc s1 pgdir = uloc s pgdir" "user_range s1 pgdir (x + m) (n - m)"
    "\<And>k. k < m \<Longrightarrow> uloc s pgdir (x + k) = (g, x mod 4096 + k)"
    "pmem s1 f i = (if f = g \<and> x mod 4096 \<le> i \<and> i < x mod 4096 + m then p (off + (i - x mod 4096)) else pmem s f i)"
proof -
  have "g \<notin> pt_frames s pgdir" using u m by (auto simp: user_range_def g_def)
  then have "pframe (V2P w) \<noteq> g" if "w \<in> pt_pages s pgdir" for w using that by (auto simp: pt_frames_def)
  then have c: "pte_of s1 pgdir = pte_of s pgdir" "pt_pages s1 pgdir = pt_pages s pgdir" using pt_cong[of s pgdir s1] by (simp_all add: s1_def)
  show e: "upte s1 pgdir = upte s pgdir" "uloc s1 pgdir = uloc s pgdir" by (simp_all add: fun_eq_iff upte_def uloc_def c)
  show "user_range s1 pgdir (x + m) (n - m)" using u m unfolding user_range_def e pt_frames_def c by auto
  show "uloc s pgdir (x + k) = (g, x mod 4096 + k)" if "k < m" for k
  proof -
    have "x mod 4096 + k < 4096" using that m by simp
    moreover have "x + k = 4096 * (x div 4096) + (x mod 4096 + k)" by simp
    ultimately have d: "(x + k) div 4096 = x div 4096" "(x + k) mod 4096 = x mod 4096 + k"
      by (metis div_mult_self4 div_less add.right_neutral zero_neq_numeral, metis mod_mult_self4 mod_less)
    moreover have "x + k < 2 ^ 32" "x < 2 ^ 32" using u m that by (auto simp: user_range_def)
    ultimately show ?thesis using upte_page[of "x + k" x s pgdir] by (simp add: uloc_def g_def)
  qed
  show "pmem s1 f i = (if f = g \<and> x mod 4096 \<le> i \<and> i < x mod 4096 + m then p (off + (i - x mod 4096)) else pmem s f i)"
    by (simp add: s1_def bcopy_def)
qed

definition copied :: "'a kvm_scheme \<Rightarrow> u32 \<Rightarrow> nat \<Rightarrow> bytes \<Rightarrow> nat \<Rightarrow> nat \<Rightarrow> 'a kvm_scheme \<Rightarrow> bool" where
  "copied s pgdir x p off n s' \<longleftrightarrow> upte s' pgdir = upte s pgdir
     \<and> (\<forall>k<n. pmem s' (fst (uloc s pgdir (x + k))) (snd (uloc s pgdir (x + k))) = p (off + k))
     \<and> (\<forall>f i. (f, i) \<notin> uloc s pgdir ` {x..<x + n} \<longrightarrow> pmem s' f i = pmem s f i)
     \<and> s' = s\<lparr>pmem := pmem s'\<rparr>"

lemma copied_step:
  fixes p :: bytes and off :: nat
  assumes u: "user_range s pgdir x n" and m: "m \<le> n" "x mod 4096 + m \<le> 4096" "0 < m" "m < n \<longrightarrow> x mod 4096 + m = 4096"
  defines "g \<equiv> fst (uloc s pgdir x)"
  defines "s1 \<equiv> s\<lparr>pmem := (pmem s)(g := bcopy p off (pmem s g) (x mod 4096) m)\<rparr>"
  assumes r: "copied s1 pgdir (x + m) p (off + m) (n - m) s'"
  shows "copied s pgdir x p off n s'"
proof -
  have W: "upte s1 pgdir = upte s pgdir" "uloc s1 pgdir = uloc s pgdir" "\<And>k. k < m \<Longrightarrow> uloc s pgdir (x + k) = (g, x mod 4096 + k)"
    "\<And>f i. pmem s1 f i = (if f = g \<and> x mod 4096 \<le> i \<and> i < x mod 4096 + m then p (off + (i - x mod 4096)) else pmem s f i)"
    unfolding s1_def g_def by (rule user_range_write[OF u m(1-3)]; assumption?)+
  note R = r[unfolded copied_def W(1,2)]
  have inj: "y div 4096 = z div 4096" if "x \<le> y \<and> y < x + n \<and> x \<le> z \<and> z < x + n \<and> fst (uloc s pgdir y) = fst (uloc s pgdir z)" for y z
    using u that unfolding user_range_def by blast
  have later: "uloc s pgdir (x + k) \<notin> uloc s pgdir ` {x + m..<x + m + (n - m)}" if "k < m" for k
  proof
    assume "uloc s pgdir (x + k) \<in> uloc s pgdir ` {x + m..<x + m + (n - m)}"
    then obtain y where y: "uloc s pgdir (x + k) = uloc s pgdir y" "x + m \<le> y" "y < x + n" using m(1) by auto
    have 1: "fst (uloc s pgdir x) = fst (uloc s pgdir y)" using y(1) W(3)[OF that] by (simp add: g_def prod_eq_iff)
    have "x div 4096 = y div 4096"
      by (rule inj) (use 1 y(2,3) m(1) in auto)
    moreover have "x mod 4096 + m = 4096" using m(4) y(2,3) by linarith
    ultimately show False using y(2) div_mult_mod_eq[of x 4096] div_mult_mod_eq[of y 4096] mod_less_divisor[of 4096 y] by linarith
  qed
  have A: "pmem s' (fst (uloc s pgdir (x + k))) (snd (uloc s pgdir (x + k))) = p (off + k)" if "k < n" for k
  proof (cases "k < m")
    case True
    have "pmem s' g (x mod 4096 + k) = pmem s1 g (x mod 4096 + k)" using R later[OF True] W(3)[OF True] by metis
    also have "\<dots> = p (off + k)" using True by (simp add: W(4))
    finally show ?thesis using W(3)[OF True] by simp
  next
    case False
    then have "k - m < n - m" "x + m + (k - m) = x + k" "off + m + (k - m) = off + k" using that by simp_all
    then show ?thesis using R by metis
  qed
  have B: "pmem s' f i = pmem s f i" if h: "(f, i) \<notin> uloc s pgdir ` {x..<x + n}" for f i
  proof -
    have "(f, i) \<notin> uloc s pgdir ` {x + m..<x + m + (n - m)}" using h m(1) by auto
    then have "pmem s' f i = pmem s1 f i" using R by blast
    moreover have "\<not> (f = g \<and> x mod 4096 \<le> i \<and> i < x mod 4096 + m)"
    proof
      assume a: "f = g \<and> x mod 4096 \<le> i \<and> i < x mod 4096 + m"
      then have "i - x mod 4096 < m" by linarith
      then have "uloc s pgdir (x + (i - x mod 4096)) = (f, i)" using a W(3)[of "i - x mod 4096"] by simp
      moreover have "x + (i - x mod 4096) \<in> {x..<x + n}" using a m(1) by auto
      ultimately show False using h by (metis image_eqI)
    qed
    ultimately show ?thesis by (simp add: W(4))
  qed
  have "s' = s1\<lparr>pmem := pmem s'\<rparr>" using R by blast
  moreover have "s1\<lparr>pmem := h\<rparr> = s\<lparr>pmem := h\<rparr>" for h by (simp add: s1_def)
  ultimately have "s' = s\<lparr>pmem := pmem s'\<rparr>" by metis
  then show ?thesis unfolding copied_def using A B R by blast
qed

lemma copyout_loop_ok:
  assumes "user_range s pgdir (unat va) (unat len)" "unat len \<le> f"
  shows "\<exists>s'. copyout_loop f pgdir va p off len s = Ok 0 s' \<and> copied s pgdir (unat va) p off (unat len) s'"
  using assms
proof (induction f arbitrary: s va off len)
  case 0
  then show ?case by (auto simp: copied_def)
next
  case (Suc f)
  show ?case
  proof (cases "unat len = 0")
    case True
    then have "len = 0" by (simp add: unat_eq_0)
    then show ?thesis by (auto simp: copied_def)
  next
    case False
    define x where "x = unat va"
    define m where "m = min (unat len) (4096 - x mod 4096)"
    have l0: "0 < len" using False by (simp add: word_less_nat_alt)
    have va0: "unat (PGROUNDDOWN va) = x - x mod 4096" by (simp add: PGROUNDDOWN_val x_def minus_mod_eq_div_mult)
    have xm: "x mod 4096 \<le> x" "x mod 4096 < 4096" by simp_all
    have d: "unat (va - PGROUNDDOWN va) = x mod 4096" using va0 xm(1) by (simp add: unat_sub word_le_nat_alt x_def)
    have "unat (PGSIZE - (va - PGROUNDDOWN va)) = 4096 - x mod 4096" using d xm(2) by (simp add: unat_sub word_le_nat_alt PGSIZE_def)
    then have n: "unat (if len < PGSIZE - (va - PGROUNDDOWN va) then len else PGSIZE - (va - PGROUNDDOWN va)) = m"
      by (auto simp: m_def word_less_nat_alt)
    have u: "present (pte_of s pgdir va)" "pte_of s pgdir va AND PTE_U \<noteq> 0" "P2V (PTE_ADDR (pte_of s pgdir va)) \<noteq> 0"
      using Suc.prems(1) False by (auto simp: user_range_def upte_def)
    have r: "uva2ka pgdir (PGROUNDDOWN va) s = Ok (P2V (PTE_ADDR (pte_of s pgdir va))) s"
      using uva2ka_user[of s pgdir "PGROUNDDOWN va"] u pte_of_page[OF PGROUNDDOWN_page[of va], of s pgdir] by simp
    have m1: "m \<le> unat len" "x mod 4096 + m \<le> 4096" "0 < m" "m < unat len \<longrightarrow> x mod 4096 + m = 4096" using False xm by (auto simp: m_def)
    define g where "g = fst (uloc s pgdir x)"
    have g: "pframe (PTE_ADDR (pte_of s pgdir va)) = g" by (simp add: g_def uloc_def upte_def x_def)
    define s1 where "s1 = s\<lparr>pmem := (pmem s)(g := bcopy p off (pmem s g) (x mod 4096) m)\<rparr>"
    have u1: "user_range s1 pgdir (x + m) (unat len - m)"
      using user_range_write(3)[OF Suc.prems(1)[folded x_def] m1(1-3)] by (simp add: s1_def g_def)
    define nn where "nn = (if len < PGSIZE - (va - PGROUNDDOWN va) then len else PGSIZE - (va - PGROUNDDOWN va))"
    have l1: "unat (len - nn) = unat len - m" using n m1(1) by (simp add: nn_def[symmetric] unat_sub word_le_nat_alt)
    have ih: "\<exists>s'. copyout_loop f pgdir (PGROUNDDOWN va + PGSIZE) p (off + m) (len - nn) s1 = Ok 0 s' \<and> copied s1 pgdir (x + m) p (off + m) (unat len - m) s'"
    proof (cases "m < unat len")
      case True
      have "x + unat len \<le> 2 ^ 32" using Suc.prems(1) by (simp add: user_range_def x_def)
      then have "unat (PGROUNDDOWN va + PGSIZE) = x + m" using va0 xm m1(4) True by (simp add: PGSIZE_def unat_word_ariths(1) add.commute[of "PGROUNDDOWN va"])
      then show ?thesis using Suc.IH[of s1 "PGROUNDDOWN va + PGSIZE" "len - nn" "off + m"] u1 l1 Suc.prems(2) m1(3) by simp
    next
      case False
      then have "len - nn = 0" using l1 by (simp add: unat_eq_0[symmetric])
      then show ?thesis using False by (cases f) (auto simp: copied_def)
    qed
    then obtain s' where s': "copyout_loop f pgdir (PGROUNDDOWN va + PGSIZE) p (off + m) (len - nn) s1 = Ok 0 s'"
      "copied s1 pgdir (x + m) p (off + m) (unat len - m) s'" by blast
    have "copied s pgdir x p off (unat len) s'"
      using copied_step[OF Suc.prems(1)[folded x_def] m1] s'(2) by (simp add: s1_def g_def)
    moreover have "copyout_loop (Suc f) pgdir va p off len s = Ok 0 s'"
      using l0 r u(3) s'(1) n d by (simp add: Let_def g nn_def s1_def)
    ultimately show ?thesis by (auto simp: x_def)
  qed
qed

subsection \<open>Properties\<close>

text \<open>C6. Growing a process. When \<^verbatim>\<open>allocuvm\<close> is asked for \<open>n\<close> more pages and two free pages are left for each of them
  (one for the page, one for a page table), it returns the new size. Every address of the new pages then translates,
  writable and for the user, to a page of its own that was free and is zeroed; every other address translates as before,
  the pages in use keep their contents, and the allocator and the page table are consistent. A size in the kernel's half
  of the address space is refused, and a size that is not larger changes nothing.\<close>

theorem allocuvm_grows:
  assumes "kmem_ok s vs" "pg_ok s pgdir vs" "unat oldsz \<le> unat newsz" "unat newsz < unat KERNBASE"
    and "n = (unat newsz - unat (PGROUNDUP oldsz) + 4095) div 4096" "2 * n \<le> length vs"
    and "\<forall>va. unat (PGROUNDUP oldsz) \<le> unat va \<and> unat va < unat (PGROUNDUP oldsz) + 4096 * n \<longrightarrow> \<not> present (pte_of s pgdir va)"
  shows "(\<exists>s' vs' ws. allocuvm pgdir oldsz newsz s = Ok newsz s' \<and> grown s pgdir vs (PGROUNDUP oldsz) n s' vs' ws)
    \<and> (KERNBASE \<le> big \<longrightarrow> allocuvm pgdir oldsz big s = Ok 0 s) \<and> (small < oldsz \<and> small < KERNBASE \<longrightarrow> allocuvm pgdir oldsz small s = Ok oldsz s)"
proof -
  have "unat (PGROUNDUP oldsz) mod 4096 = 0" using assms(3,4) by (simp add: PGROUNDUP_val KERNBASE_def)
  moreover have "unat newsz \<le> 2147483648" using assms(4) by (simp add: KERNBASE_def)
  ultimately show ?thesis
    using allocuvm_loop_ok[OF assms(1,2) _ assms(6,5)] assms(3,4,5,7) by (simp add: allocuvm_def word_le_nat_alt word_less_nat_alt Let_def)
qed


definition sample_kvm :: "(nat \<Rightarrow> bytes) \<Rightarrow> kvm" where
  "sample_kvm m = \<lparr>klocks = {}, procs = (\<lambda>_. proc_zero), curproc = Some 0, nextpid = 1, initproc = None,
     pmem = m(1024 := wr32 (\<lambda>_. 1) 0 0x80401000, 1025 := wr32 (\<lambda>_. 1) 0 0), freelist = 0x80400000,
     use_lock = True, kend = 0x80200000, kdata = 0x80108000, kpgdir = 0, cr3 = 0, tss_esp0 = 0\<rparr>"

lemma sample_kvm_ok: "kmem_ok (sample_kvm m) [0x80400000, 0x80401000]"
  by (simp add: kmem_ok_def sample_kvm_def kpage_def V2P_def KERNBASE_def PHYSTOP_def pframe_def)

lemma sample_empty: "pg_ok (sample_kvm (\<lambda>_ _. 0)) 0x80402000 [0x80400000, 0x80401000]" "pte_of (sample_kvm (\<lambda>_ _. 0)) 0x80402000 va = 0"
proof -
  have "pde_of (sample_kvm (\<lambda>_ _. 0)) 0x80402000 i = 0" for i
    by (simp add: pde_of_def rd_pte_def sample_kvm_def V2P_def KERNBASE_def pframe_def)
  then show "pg_ok (sample_kvm (\<lambda>_ _. 0)) 0x80402000 [0x80400000, 0x80401000]" "pte_of (sample_kvm (\<lambda>_ _. 0)) 0x80402000 va = 0"
    by (simp_all add: pg_ok_def pte_of_def) (simp add: sample_kvm_def kpage_def V2P_def KERNBASE_def PHYSTOP_def)
qed

theorem allocuvm_grows_witness:
  "\<exists>s' vs' ws. allocuvm 0x80402000 0 5 (sample_kvm (\<lambda>_ _. 0)) = Ok 5 s' \<and> length ws = 1
     \<and> pte_of s' 0x80402000 3 = V2P (ws ! 0) OR (PTE_W OR PTE_U) OR PTE_P"
proof -
  have z: "unat (PGROUNDUP 0) = 0" by (simp add: PGROUNDUP_val)
  obtain s' vs' ws where "allocuvm 0x80402000 0 5 (sample_kvm (\<lambda>_ _. 0)) = Ok 5 s'"
    "grown (sample_kvm (\<lambda>_ _. 0)) 0x80402000 [0x80400000, 0x80401000] (PGROUNDUP 0) 1 s' vs' ws"
    using allocuvm_grows[OF sample_kvm_ok sample_empty(1), of 0 5 1 0 0] by (simp add: z KERNBASE_def sample_empty(2)) blast
  moreover from this(2) have "length ws = 1" "pte_of s' 0x80402000 3 = V2P (ws ! 0) OR (PTE_W OR PTE_U) OR PTE_P"
    by (simp_all add: grown_def z)
  ultimately show ?thesis by blast
qed

text \<open>A page table with two user pages: directory at frame 1026, table at frame 1027, pages at frames 1028 and 1029.\<close>

definition sample_user :: kvm where
  "sample_user = sample_kvm ((\<lambda>_ _. 0)(1026 := wr32 (\<lambda>_. 0) 0 0x403007, 1027 := wr32 (wr32 (\<lambda>_. 0) 0 0x404007) 4 0x405007))"

lemma sample_user_ptes:
  "pde_of sample_user 0x80402000 i = (if i = 0 then 0x403007 else 0)"
  "rd_pte sample_user (1027, 0) = 0x404007" "rd_pte sample_user (1027, Suc 0) = 0x405007"
  by (simp_all add: pde_of_def rd_pte_def sample_user_def sample_kvm_def V2P_def KERNBASE_def pframe_def rd32_wr32_other)

lemma sample_user_range: "user_range sample_user 0x80402000 4094 4"
proof -
  have P: "PTE_ADDR 0x403007 = 0x403000" "PTE_ADDR 0x404007 = 0x404000" "PTE_ADDR 0x405007 = 0x405000" by (simp_all add: PTE_ADDR_def)
  have p: "present 0x403007" by (simp add: present_def PTE_P_def)
  have u: "upte sample_user 0x80402000 y = (if y < 4096 then 0x404007 else 0x405007)" if "4094 \<le> y \<and> y < 4094 + 4" for y
  proof -
    have "y = 4094 \<or> y = 4095 \<or> y = 4096 \<or> y = 4097" using that by linarith
    then show ?thesis
      by (elim disjE) (simp_all add: upte_def pte_of_def PDX_def PTX_def sample_user_ptes p P pframe_def)
  qed
  have l: "fst (uloc sample_user 0x80402000 y) = (if y < 4096 then 1028 else 1029)" if "4094 \<le> y \<and> y < 4094 + 4" for y
    by (simp add: uloc_def u[OF that] P pframe_def)
  have f: "pt_frames sample_user 0x80402000 \<subseteq> {1026, 1027}"
    by (auto simp: pt_frames_def pt_pages_def sample_user_ptes table_at_def P V2P_def KERNBASE_def P2V_def pframe_def split: if_splits)
  show ?thesis unfolding user_range_def
  proof (intro conjI allI impI, goal_cases)
    case (5 y)
    then show ?case using l[OF 5] f by auto
  next
    case (6 y z)
    then have "fst (uloc sample_user 0x80402000 y) = fst (uloc sample_user 0x80402000 z)" by blast
    then have "y < 4096 \<longleftrightarrow> z < 4096" using l[of y] l[of z] 6 by (simp split: if_splits)
    moreover have "v div 4096 = (if v < 4096 then 0 else 1)" if "v < 4098" for v :: nat using that by (auto intro: div_nat_eqI)
    ultimately show ?case using 6 by simp
  qed (simp_all add: u P present_def PTE_P_def PTE_U_def P2V_def KERNBASE_def)
qed


end
