(* ===== verification/Bio.thy ===== *)
theory Bio
  imports Vm
begin

text \<open>
  The block device and the buffer cache: \<^verbatim>\<open>src/xv6/memide.c\<close>, \<^verbatim>\<open>src/xv6/buf.h\<close>, \<^verbatim>\<open>src/xv6/bio.c\<close>.

  Buffer \<open>i\<close> of \<^verbatim>\<open>bcache.buf\<close> is index \<open>i\<close>; the list head \<^verbatim>\<open>bcache.head\<close> is index \<open>NBUF\<close>. The
  doubly linked list is kept in the \<open>b_next\<close> and \<open>b_prev\<close> fields, as in the code. A block is
  an array of \<open>BSIZE\<close> bytes, copied as a whole. \<open>dwrites\<close> records the writes the disk has
  performed, oldest first; the code does not read it. A crash keeps a prefix of it.

  The abstract view of the cache is \<open>cblk\<close>, the contents of every block as a reader sees them,
  and \<open>lru\<close>, the order of the buffers from most to least recently used. Shown: the
  linked list always represents such an order; a block is cached at most once; \<^verbatim>\<open>bread\<close> returns
  the locked buffer of the block with its current contents; buffers that the log has marked
  dirty are never recycled and the victim is the least recently used free buffer; \<^verbatim>\<open>brelse\<close>
  moves the buffer to the front.
\<close>

subsection \<open>State\<close>

record buf =
  b_valid :: bool
  b_dirty :: bool
  b_dev :: nat
  b_blockno :: nat
  b_lock :: sleeplock
  b_refcnt :: int
  b_prev :: nat
  b_next :: nat
  b_data :: bytes

record kbio = kvm +
  bufs :: "nat \<Rightarrow> buf"
  memdisk :: "nat \<Rightarrow> bytes"
  disksize :: nat
  dwrites :: "(nat \<times> bytes) list"

definition upd_buf :: "nat \<Rightarrow> (buf \<Rightarrow> buf) \<Rightarrow> 'a kbio_scheme \<Rightarrow> 'a kbio_scheme" where
  "upd_buf i f s = s\<lparr>bufs := (bufs s)(i := f (bufs s i))\<rparr>"

abbreviation buf_lock :: "nat \<Rightarrow> 'a kbio_scheme \<Rightarrow> sleeplock" where
  "buf_lock i s \<equiv> b_lock (bufs s i)"

abbreviation upd_buf_lock :: "nat \<Rightarrow> (sleeplock \<Rightarrow> sleeplock) \<Rightarrow> 'a kbio_scheme \<Rightarrow> 'a kbio_scheme" where
  "upd_buf_lock i f \<equiv> upd_buf i (b_lock_update f)"

subsection \<open>The disk\<close>

definition ideinit :: "nat \<Rightarrow> (nat \<Rightarrow> bytes) \<Rightarrow> 'a kbio_scheme \<Rightarrow> 'a kbio_scheme" where
  "ideinit img_size img s = s\<lparr>memdisk := img, disksize := img_size div BSIZE\<rparr>"

definition iderw :: "nat \<Rightarrow> (unit, 'a kbio_scheme) kop" where
  "iderw i =
     kbind (holdingsleep (LBuf i) (buf_lock i)) (\<lambda>h.
     if \<not> h then kpanic ''iderw: buf not locked'' else
     kbind (kget (\<lambda>s. bufs s i)) (\<lambda>b.
     if b_valid b \<and> \<not> b_dirty b then kpanic ''iderw: nothing to do'' else
     if b_dev b \<noteq> 1 then kpanic ''iderw: request not for disk 1'' else
     kbind (kget disksize) (\<lambda>size.
     if size \<le> b_blockno b then kpanic ''iderw: block out of range'' else
     kthen
       (if b_dirty b then
          kthen (kmod (upd_buf i (b_dirty_update (\<lambda>_. False))))
            (kmod (\<lambda>s. s\<lparr>memdisk := (memdisk s)(b_blockno b := b_data b),
                          dwrites := dwrites s @ [(b_blockno b, b_data b)]\<rparr>))
        else kmod (\<lambda>s. upd_buf i (b_data_update (\<lambda>_. memdisk s (b_blockno b))) s))
       (kmod (upd_buf i (b_valid_update (\<lambda>_. True)))))))"

subsection \<open>The cache\<close>

text \<open>The loop of \<^verbatim>\<open>binit\<close> links buffer \<open>b\<close> in behind the head.\<close>

definition link_front :: "nat \<Rightarrow> (nat \<Rightarrow> buf) \<Rightarrow> (nat \<Rightarrow> buf)" where
  "link_front b B0 =
     (let B1 = B0(b := (B0 b)\<lparr>b_next := b_next (B0 NBUF)\<rparr>);
          B2 = B1(b := (B1 b)\<lparr>b_prev := NBUF\<rparr>);
          f = b_next (B2 NBUF);
          B3 = B2(f := (B2 f)\<lparr>b_prev := b\<rparr>)
      in B3(NBUF := (B3 NBUF)\<lparr>b_next := b\<rparr>))"

definition unlink :: "nat \<Rightarrow> (nat \<Rightarrow> buf) \<Rightarrow> (nat \<Rightarrow> buf)" where
  "unlink b B0 =
     (let n = b_next (B0 b);
          B1 = B0(n := (B0 n)\<lparr>b_prev := b_prev (B0 b)\<rparr>);
          p = b_prev (B1 b)
      in B1(p := (B1 p)\<lparr>b_next := b_next (B1 b)\<rparr>))"

definition binit_body :: "(nat \<Rightarrow> buf) \<Rightarrow> nat \<Rightarrow> (nat \<Rightarrow> buf)" where
  "binit_body B b = link_front b (B(b := (B b)\<lparr>b_lock := initsleeplock ''buffer'' (b_lock (B b))\<rparr>))"

definition binit :: "'a kbio_scheme \<Rightarrow> 'a kbio_scheme" where
  "binit s =
     s\<lparr>bufs := foldl binit_body
        ((bufs s)(NBUF := (bufs s NBUF)\<lparr>b_prev := NBUF, b_next := NBUF\<rparr>)) [0..<NBUF]\<rparr>"

text \<open>The buffers a scan visits that starts at \<open>b\<close> and follows \<open>step\<close> until it is back at the
  head. \<open>k\<close> bounds the steps: the list has \<open>NBUF\<close> members.\<close>

fun walk :: "(nat \<Rightarrow> nat) \<Rightarrow> nat \<Rightarrow> nat \<Rightarrow> nat list" where
  "walk step 0 b = []"
| "walk step (Suc k) b = (if b = NBUF then [] else b # walk step k (step b))"

definition bget :: "nat \<Rightarrow> nat \<Rightarrow> (nat, 'a kbio_scheme) kop" where
  "bget dev blockno =
     kthen (acquire LBcache) (
     kbind (kget bufs) (\<lambda>B.
     case List.find (\<lambda>b. b_dev (B b) = dev \<and> b_blockno (B b) = blockno)
            (walk (\<lambda>b. b_next (B b)) NBUF (b_next (B NBUF))) of
       Some b \<Rightarrow>
         kthen (kmod (upd_buf b (b_refcnt_update (\<lambda>n. n + 1)))) (
         kthen (release LBcache) (
         kthen (acquiresleep (LBuf b) (ChBufLock b) (buf_lock b) (upd_buf_lock b)) (kret b)))
     | None \<Rightarrow>
         (case List.find (\<lambda>b. b_refcnt (B b) = 0 \<and> \<not> b_dirty (B b))
                 (walk (\<lambda>b. b_prev (B b)) NBUF (b_prev (B NBUF))) of
            Some b \<Rightarrow>
              kthen (kmod (upd_buf b (\<lambda>bf. bf\<lparr>b_dev := dev, b_blockno := blockno, b_valid := False, b_dirty := False, b_refcnt := 1\<rparr>))) (
              kthen (release LBcache) (
              kthen (acquiresleep (LBuf b) (ChBufLock b) (buf_lock b) (upd_buf_lock b)) (kret b)))
          | None \<Rightarrow> kpanic ''bget: no buffers'')))"

definition bread :: "nat \<Rightarrow> nat \<Rightarrow> (nat, 'a kbio_scheme) kop" where
  "bread dev blockno =
     kbind (bget dev blockno) (\<lambda>b.
     kbind (kget (\<lambda>s. b_valid (bufs s b))) (\<lambda>v.
     kthen (if \<not> v then iderw b else kret ()) (kret b)))"

definition bwrite :: "nat \<Rightarrow> (unit, 'a kbio_scheme) kop" where
  "bwrite b =
     kbind (holdingsleep (LBuf b) (buf_lock b)) (\<lambda>h.
     if \<not> h then kpanic ''bwrite'' else
     kthen (kmod (upd_buf b (b_dirty_update (\<lambda>_. True)))) (iderw b))"

definition brelse :: "nat \<Rightarrow> (unit, 'a kbio_scheme) kop" where
  "brelse b =
     kbind (holdingsleep (LBuf b) (buf_lock b)) (\<lambda>h.
     if \<not> h then kpanic ''brelse'' else
     kthen (releasesleep (LBuf b) (ChBufLock b) (upd_buf_lock b)) (
     kthen (acquire LBcache) (
     kthen (kmod (upd_buf b (b_refcnt_update (\<lambda>n. n - 1)))) (
     kthen (kmod (\<lambda>s. if b_refcnt (bufs s b) = 0 then s\<lparr>bufs := link_front b (unlink b (bufs s))\<rparr> else s))
       (release LBcache)))))"

subsection \<open>The abstract view\<close>

text \<open>\<open>seg B a xs b\<close>: the links lead from \<open>a\<close> through \<open>xs\<close> to \<open>b\<close> and back.\<close>

fun seg :: "(nat \<Rightarrow> buf) \<Rightarrow> nat \<Rightarrow> nat list \<Rightarrow> nat \<Rightarrow> bool" where
  "seg B a [] b \<longleftrightarrow> b_next (B a) = b \<and> b_prev (B b) = a"
| "seg B a (x # xs) b \<longleftrightarrow> b_next (B a) = x \<and> b_prev (B x) = a \<and> seg B x xs b"

definition lru :: "(nat \<Rightarrow> buf) \<Rightarrow> nat list \<Rightarrow> bool" where
  "lru B xs \<longleftrightarrow> seg B NBUF xs NBUF \<and> distinct xs \<and> set xs = {..<NBUF}"

definition cached :: "(nat \<Rightarrow> buf) \<Rightarrow> nat \<Rightarrow> nat option" where
  "cached B bn = List.find (\<lambda>i. b_dev (B i) = 1 \<and> b_blockno (B i) = bn) [0..<NBUF]"

definition cblk :: "(nat \<Rightarrow> buf) \<Rightarrow> (nat \<Rightarrow> bytes) \<Rightarrow> nat \<Rightarrow> bytes" where
  "cblk B D bn = (case cached B bn of
     Some i \<Rightarrow> if b_valid (B i) then b_data (B i) else D bn | None \<Rightarrow> D bn)"

abbreviation blocked :: "buf \<Rightarrow> bool" where
  "blocked b \<equiv> sl_locked (b_lock b)"

definition bufs_ok :: "(nat \<Rightarrow> buf) \<Rightarrow> (nat \<Rightarrow> bytes) \<Rightarrow> bool" where
  "bufs_ok B D \<longleftrightarrow> (\<exists>xs. lru B xs) \<and>
     (\<forall>i<NBUF. 0 \<le> b_refcnt (B i) \<and> (blocked (B i) \<longrightarrow> 0 < b_refcnt (B i)) \<and> (b_dirty (B i) \<longrightarrow> b_valid (B i))
        \<and> (b_dev (B i) = 1 \<or> \<not> b_valid (B i) \<and> b_refcnt (B i) = 0)
        \<and> (b_valid (B i) \<and> \<not> b_dirty (B i) \<and> \<not> blocked (B i) \<longrightarrow> b_data (B i) = D (b_blockno (B i)))) \<and>
     (\<forall>i<NBUF. \<forall>j<NBUF. b_dev (B i) = 1 \<longrightarrow> b_dev (B j) = 1 \<longrightarrow> b_blockno (B i) = b_blockno (B j) \<longrightarrow> i = j)"

subsection \<open>The doubly linked list\<close>

lemma seg_cong:
  assumes "\<And>x. x \<in> set (a # xs) \<Longrightarrow> b_next (B' x) = b_next (B x)" "\<And>x. x \<in> set (xs @ [b]) \<Longrightarrow> b_prev (B' x) = b_prev (B x)"
  shows "seg B' a xs b = seg B a xs b"
  using assms by (induction xs arbitrary: a) auto

lemma seg_append: "seg B a (xs @ y # ys) b \<longleftrightarrow> seg B a xs y \<and> seg B y ys b"
  by (induction xs arbitrary: a) auto

lemma seg_ends: "seg B a xs b \<Longrightarrow> b_next (B a) = hd (xs @ [b]) \<and> b_prev (B b) = last (a # xs)"
  by (induction xs arbitrary: a) auto

lemma link_front_links:
  "b \<noteq> NBUF \<Longrightarrow> b_next (link_front b B i) = (if i = NBUF then b else if i = b then b_next (B NBUF) else b_next (B i))"
  "b \<noteq> NBUF \<Longrightarrow> b_next (B NBUF) \<noteq> b \<Longrightarrow>
     b_prev (link_front b B i) = (if i = b_next (B NBUF) then b else if i = b then NBUF else b_prev (B i))"
  by (auto simp: link_front_def Let_def)

lemma seg_link_front:
  assumes "seg B NBUF xs NBUF" "distinct (NBUF # b # xs)"
  shows "seg (link_front b B) NBUF (b # xs) NBUF"
proof -
  have h: "b_next (B NBUF) = hd (xs @ [NBUF])" using seg_ends[OF assms(1)] by simp
  with assms(2) have "b_next (B NBUF) \<noteq> b" by (cases xs) auto
  note L = link_front_links(1)[of b B] link_front_links(2)[of b B, OF _ this]
  show ?thesis
  proof (cases xs)
    case Nil
    with assms h show ?thesis by (simp add: L)
  next
    case (Cons x ys)
    have "seg (link_front b B) x ys NBUF = seg B x ys NBUF"
      using assms(2) h Cons by (intro seg_cong) (auto simp: L)
    with assms h Cons show ?thesis by (simp add: L)
  qed
qed

lemma unlink_links:
  assumes "b_prev (B b) \<noteq> b" "b_next (B b) \<noteq> b"
  shows "b_next (unlink b B i) = (if i = b_prev (B b) then b_next (B b) else b_next (B i))"
    and "b_prev (unlink b B i) = (if i = b_next (B b) then b_prev (B b) else b_prev (B i))"
  using assms by (auto simp: unlink_def Let_def)

lemma seg_unlink:
  assumes "seg B NBUF (xs @ b # ys) NBUF" "distinct (NBUF # xs @ b # ys)"
  shows "seg (unlink b B) NBUF (xs @ ys) NBUF"
proof -
  from assms(1) have X: "seg B NBUF xs b" and Y: "seg B b ys NBUF" by (auto simp: seg_append)
  have pn: "b_prev (B b) = last (NBUF # xs)" "b_next (B b) = hd (ys @ [NBUF])"
    using seg_ends[OF X] seg_ends[OF Y] by auto
  have ne: "b_prev (B b) \<noteq> b" "b_next (B b) \<noteq> b" using assms(2) pn
    by (cases xs rule: rev_cases; cases ys; auto)+
  note L = unlink_links[of B b, OF ne]
  have left: "seg (unlink b B) NBUF us u" if "xs = us @ [u]" for us u
  proof -
    have "seg (unlink b B) NBUF us u = seg B NBUF us u"
      using assms(2) that pn by (intro seg_cong) (cases ys; auto simp: L)+
    with X that show ?thesis by (simp add: seg_append)
  qed
  have right: "seg (unlink b B) v vs NBUF" if "ys = v # vs" for v vs
  proof -
    have "seg (unlink b B) v vs NBUF = seg B v vs NBUF"
      using assms(2) that pn by (intro seg_cong) (cases xs rule: rev_cases; auto simp: L)+
    with Y that show ?thesis by simp
  qed
  show ?thesis
    using pn left right by (cases xs rule: rev_cases; cases ys) (auto simp: L seg_append)
qed

lemma walk_next:
  assumes "seg B a xs NBUF" "NBUF \<notin> set xs" "length xs \<le> k"
  shows "walk (\<lambda>b. b_next (B b)) k (b_next (B a)) = xs"
  using assms
proof (induction xs arbitrary: a k)
  case Nil
  then show ?case by (cases k) auto
next
  case (Cons x xs)
  then show ?case by (cases k) auto
qed

lemma walk_prev:
  assumes "seg B NBUF xs b" "NBUF \<notin> set xs" "length xs \<le> k"
  shows "walk (\<lambda>b. b_prev (B b)) k (b_prev (B b)) = rev xs"
  using assms
proof (induction xs arbitrary: b k rule: rev_induct)
  case Nil
  then show ?case by (cases k) auto
next
  case (snoc x xs)
  obtain m where k: "k = Suc m" "length xs \<le> m" using snoc.prems(3) by (cases k) simp_all
  have "seg B NBUF xs x" "b_prev (B b) = x" using snoc.prems(1) unfolding seg_append seg.simps by blast+
  moreover have "x \<noteq> NBUF" "NBUF \<notin> set xs" using snoc.prems(2) by auto
  ultimately show ?case using snoc.IH[of x m] k by simp
qed

lemma lru_length: "lru B xs \<Longrightarrow> length xs = NBUF"
  unfolding lru_def using distinct_card[of xs] by simp

lemma lru_walks:
  assumes "lru B xs"
  shows "walk (\<lambda>b. b_next (B b)) NBUF (b_next (B NBUF)) = xs" "walk (\<lambda>b. b_prev (B b)) NBUF (b_prev (B NBUF)) = rev xs"
  using walk_next[of B NBUF xs NBUF] walk_prev[of B xs NBUF NBUF] assms lru_length[OF assms]
  by (simp_all add: lru_def)

lemma lru_move_front:
  assumes "lru B (xs @ b # ys)"
  shows "lru (link_front b (unlink b B)) (b # xs @ ys)"
proof -
  have "b < NBUF" using assms by (auto simp: lru_def)
  with assms have d: "distinct (NBUF # xs @ b # ys)" by (auto simp: lru_def)
  with assms seg_unlink[of B xs b ys] have "seg (link_front b (unlink b B)) NBUF (b # xs @ ys) NBUF"
    by (intro seg_link_front) (auto simp: lru_def)
  with assms show ?thesis by (auto simp: lru_def)
qed

subsection \<open>Fields other than the links\<close>

definition core :: "buf \<Rightarrow> buf" where
  "core b = b\<lparr>b_prev := 0, b_next := 0\<rparr>"

lemma core_eqD:
  assumes "core b = core c"
  shows "b_valid b = b_valid c" "b_dirty b = b_dirty c" "b_dev b = b_dev c" "b_blockno b = b_blockno c"
    "b_lock b = b_lock c" "b_refcnt b = b_refcnt c" "b_data b = b_data c"
  using assms by (cases b; cases c; simp add: core_def)+

lemma core_links [simp]: "core (b\<lparr>b_prev := x\<rparr>) = core b" "core (b\<lparr>b_next := x\<rparr>) = core b"
  by (simp_all add: core_def)

lemma core_link_front [simp]: "core (link_front b B i) = core (B i)"
  by (simp add: link_front_def Let_def)

lemma core_unlink [simp]: "core (unlink b B i) = core (B i)"
  by (simp add: unlink_def Let_def)

lemma lru_links:
  assumes "lru B xs" "\<And>i. b_next (B' i) = b_next (B i) \<and> b_prev (B' i) = b_prev (B i)"
  shows "lru B' xs"
proof -
  have "seg B' NBUF xs NBUF = seg B NBUF xs NBUF" by (rule seg_cong) (simp_all add: assms(2))
  with assms(1) show ?thesis by (simp add: lru_def)
qed

lemma cached_iff:
  assumes "bufs_ok B D"
  shows "cached B bn = Some i \<longleftrightarrow> i < NBUF \<and> b_dev (B i) = 1 \<and> b_blockno (B i) = bn"
proof
  assume "cached B bn = Some i"
  then show "i < NBUF \<and> b_dev (B i) = 1 \<and> b_blockno (B i) = bn" by (auto simp: cached_def find_Some_iff)
next
  assume i: "i < NBUF \<and> b_dev (B i) = 1 \<and> b_blockno (B i) = bn"
  then obtain j where j: "cached B bn = Some j"
    unfolding cached_def by (cases "List.find (\<lambda>i. b_dev (B i) = 1 \<and> b_blockno (B i) = bn) [0..<NBUF]")
      (auto simp: find_None_iff)
  then have "j < NBUF \<and> b_dev (B j) = 1 \<and> b_blockno (B j) = bn" by (auto simp: cached_def find_Some_iff)
  with i assms j show "cached B bn = Some i" unfolding bufs_ok_def by metis
qed

lemma cached_None: "cached B bn = None \<longleftrightarrow> (\<forall>i<NBUF. \<not> (b_dev (B i) = 1 \<and> b_blockno (B i) = bn))"
  by (auto simp: cached_def find_None_iff)

lemma bufs_okD:
  assumes "bufs_ok B D"
  shows "\<exists>xs. lru B xs"
    and "i < NBUF \<Longrightarrow> 0 \<le> b_refcnt (B i)"
    and "i < NBUF \<Longrightarrow> blocked (B i) \<Longrightarrow> 0 < b_refcnt (B i)"
    and "i < NBUF \<Longrightarrow> b_dirty (B i) \<Longrightarrow> b_valid (B i)"
    and "i < NBUF \<Longrightarrow> b_dev (B i) = 1 \<or> \<not> b_valid (B i) \<and> b_refcnt (B i) = 0"
    and "i < NBUF \<Longrightarrow> b_valid (B i) \<Longrightarrow> \<not> b_dirty (B i) \<Longrightarrow> \<not> blocked (B i) \<Longrightarrow> b_data (B i) = D (b_blockno (B i))"
    and "i < NBUF \<Longrightarrow> j < NBUF \<Longrightarrow> b_dev (B i) = 1 \<Longrightarrow> b_dev (B j) = 1 \<Longrightarrow> b_blockno (B i) = b_blockno (B j) \<Longrightarrow> i = j"
  using assms unfolding bufs_ok_def by blast+

text \<open>Changing one buffer keeps the invariant when the buffer alone satisfies its part of it and
  no other buffer caches the same block.\<close>

definition buf_ok :: "buf \<Rightarrow> (nat \<Rightarrow> bytes) \<Rightarrow> bool" where
  "buf_ok b D \<longleftrightarrow> 0 \<le> b_refcnt b \<and> (blocked b \<longrightarrow> 0 < b_refcnt b) \<and> (b_dirty b \<longrightarrow> b_valid b)
     \<and> (b_dev b = 1 \<or> \<not> b_valid b \<and> b_refcnt b = 0)
     \<and> (b_valid b \<and> \<not> b_dirty b \<and> \<not> blocked b \<longrightarrow> b_data b = D (b_blockno b))"

lemma bufs_ok_alt: "bufs_ok B D \<longleftrightarrow> (\<exists>xs. lru B xs) \<and> (\<forall>i<NBUF. buf_ok (B i) D) \<and>
     (\<forall>i<NBUF. \<forall>j<NBUF. b_dev (B i) = 1 \<longrightarrow> b_dev (B j) = 1 \<longrightarrow> b_blockno (B i) = b_blockno (B j) \<longrightarrow> i = j)"
  unfolding bufs_ok_def buf_ok_def by blast

lemma bufs_ok_upd:
  assumes "bufs_ok B D" "b_next b' = b_next (B i)" "b_prev b' = b_prev (B i)" "i < NBUF \<Longrightarrow> buf_ok b' D"
    "\<And>j. i < NBUF \<Longrightarrow> j < NBUF \<Longrightarrow> j \<noteq> i \<Longrightarrow> b_dev b' = 1 \<Longrightarrow> b_dev (B j) = 1 \<Longrightarrow> b_blockno (B j) \<noteq> b_blockno b'"
  shows "bufs_ok (B(i := b')) D"
proof -
  obtain xs where "lru B xs" using bufs_okD(1)[OF assms(1)] by blast
  then have "lru (B(i := b')) xs" by (rule lru_links) (simp add: assms(2,3))
  moreover have "\<forall>j<NBUF. buf_ok ((B(i := b')) j) D" using assms(1,4) by (simp add: bufs_ok_alt)
  moreover have "j = k" if "j < NBUF" "k < NBUF" "b_dev ((B(i := b')) j) = 1" "b_dev ((B(i := b')) k) = 1"
    "b_blockno ((B(i := b')) j) = b_blockno ((B(i := b')) k)" for j k
    using that assms(5)[of j] assms(5)[of k] bufs_okD(7)[OF assms(1), of j k] by (auto split: if_splits)
  ultimately show ?thesis unfolding bufs_ok_alt by blast
qed

text \<open>The view of the blocks depends only on the fields other than the links.\<close>

lemma cached_core:
  assumes "\<And>i. core (B' i) = core (B i)"
  shows "cached B' bn = cached B bn"
  by (simp add: cached_def core_eqD(3,4)[OF assms])

lemma cblk_core:
  assumes "\<And>i. core (B' i) = core (B i)"
  shows "cblk B' D = cblk B D"
  by (rule ext) (simp add: cblk_def cached_core[OF assms] core_eqD(1,7)[OF assms] split: option.split)

lemma bufs_ok_core:
  assumes "bufs_ok B D" "\<And>i. core (B' i) = core (B i)" "lru B' xs"
  shows "bufs_ok B' D"
proof -
  have "buf_ok (B' i) D = buf_ok (B i) D" for i
    using core_eqD[OF assms(2)[of i]] by (simp add: buf_ok_def)
  moreover have "\<exists>xs. lru B' xs" using assms(3) by blast
  ultimately show ?thesis using assms(1) by (simp add: bufs_ok_alt core_eqD(3,4)[OF assms(2)])
qed

lemma cblk_upd_same:
  assumes "bufs_ok B D" "bufs_ok (B(i := b')) D" "i < NBUF" "b_dev b' = 1" "b_valid b'"
    "b_data b' = cblk B D (b_blockno b')" "b_blockno (B i) = b_blockno b' \<or> b_dev (B i) \<noteq> 1 \<or> \<not> b_dirty (B i) \<and> \<not> blocked (B i)"
  shows "cblk (B(i := b')) D = cblk B D"
proof
  fix bn
  show "cblk (B(i := b')) D bn = cblk B D bn"
  proof (cases "bn = b_blockno b'")
    case True
    have "cached (B(i := b')) bn = Some i" using assms(3,4) True by (simp add: cached_iff[OF assms(2)])
    with True assms(5,6) show ?thesis by (simp add: cblk_def)
  next
    case False
    show ?thesis
    proof (cases "cached B bn")
      case None
      with False have "cached (B(i := b')) bn = None" unfolding cached_None by simp
      with None show ?thesis by (simp add: cblk_def)
    next
      case (Some j)
      then have j: "j < NBUF" "b_dev (B j) = 1" "b_blockno (B j) = bn" by (auto simp: cached_iff[OF assms(1)])
      show ?thesis
      proof (cases "j = i")
        case True
        have "\<not> (b_dev ((B(i := b')) k) = 1 \<and> b_blockno ((B(i := b')) k) = bn)" if "k < NBUF" for k
          using False True bufs_okD(7)[OF assms(1), of i k] j that by (cases "k = i") auto
        then have "cached (B(i := b')) bn = None" unfolding cached_None by blast
        moreover have "b_valid (B i) \<Longrightarrow> b_data (B i) = D bn"
          using assms(7) False True j bufs_okD(6)[OF assms(1), of i] by auto
        ultimately show ?thesis using Some True by (simp add: cblk_def)
      next
        case ne: False
        with j have "cached (B(i := b')) bn = Some j" by (simp add: cached_iff[OF assms(2)])
        with Some ne show ?thesis by (simp add: cblk_def)
      qed
    qed
  qed
qed

subsection \<open>The operations in closed form\<close>

interpretation bl: sleeplock_place "LBuf i" "ChBufLock i" "buf_lock i" "upd_buf_lock i" for i
  by unfold_locales (simp_all add: upd_buf_def comp_def)

lemma upd_buf_simps [simp]:
  "klocks (upd_buf i f s) = klocks s" "procs (upd_buf i f s) = procs s" "curproc (upd_buf i f s) = curproc s"
  "memdisk (upd_buf i f s) = memdisk s" "disksize (upd_buf i f s) = disksize s" "dwrites (upd_buf i f s) = dwrites s"
  "bufs (upd_buf i f s) = (bufs s)(i := f (bufs s i))"
  by (simp_all add: upd_buf_def)

lemma iderw_read:
  assumes "LBuf i \<notin> klocks s" "curproc s = Some p" "blocked (bufs s i)" "sl_pid (b_lock (bufs s i)) = p_pid (procs s p)"
    "\<not> b_valid (bufs s i)" "\<not> b_dirty (bufs s i)" "b_dev (bufs s i) = 1" "b_blockno (bufs s i) < disksize s"
  shows "iderw i s = Ok () (upd_buf i (\<lambda>b. b\<lparr>b_data := memdisk s (b_blockno b), b_valid := True\<rparr>) s)"
  using assms bl.holdingsleep_apply[of i s p] by (simp add: iderw_def) (simp add: upd_buf_def)

lemma iderw_write:
  assumes "LBuf i \<notin> klocks s" "curproc s = Some p" "blocked (bufs s i)" "sl_pid (b_lock (bufs s i)) = p_pid (procs s p)"
    "b_dirty (bufs s i)" "b_dev (bufs s i) = 1" "b_blockno (bufs s i) < disksize s"
  shows "iderw i s = Ok () (s\<lparr>bufs := (bufs s)(i := (bufs s i)\<lparr>b_dirty := False, b_valid := True\<rparr>),
     memdisk := (memdisk s)(b_blockno (bufs s i) := b_data (bufs s i)),
     dwrites := dwrites s @ [(b_blockno (bufs s i), b_data (bufs s i))]\<rparr>)"
  using assms bl.holdingsleep_apply[of i s p] by (simp add: iderw_def) (simp add: upd_buf_def)

definition lock_for :: "int \<Rightarrow> sleeplock \<Rightarrow> sleeplock" where
  "lock_for pid k = k\<lparr>sl_locked := True, sl_pid := pid\<rparr>"

lemma lock_for_simps [simp]: "sl_locked (lock_for pid k)" "sl_pid (lock_for pid k) = pid"
  by (simp_all add: lock_for_def)

text \<open>The buffer \<^verbatim>\<open>bget\<close> chooses: the one that caches the block, else the free one least recently
  used.\<close>

definition bchoose :: "(nat \<Rightarrow> buf) \<Rightarrow> nat list \<Rightarrow> nat \<Rightarrow> nat option" where
  "bchoose B xs bn = (case List.find (\<lambda>b. b_dev (B b) = 1 \<and> b_blockno (B b) = bn) xs of
     Some i \<Rightarrow> Some i | None \<Rightarrow> List.find (\<lambda>b. b_refcnt (B b) = 0 \<and> \<not> b_dirty (B b)) (rev xs))"

definition bclaim :: "int \<Rightarrow> nat \<Rightarrow> buf \<Rightarrow> buf" where
  "bclaim pid bn b = b_lock_update (lock_for pid) (if b_dev b = 1 \<and> b_blockno b = bn
     then b_refcnt_update (\<lambda>n. n + 1) b
     else b\<lparr>b_dev := 1, b_blockno := bn, b_valid := False, b_dirty := False, b_refcnt := 1\<rparr>)"

lemma find_not: "List.find P xs = None \<Longrightarrow> i \<in> set xs \<Longrightarrow> \<not> P i"
  by (auto simp: find_None_iff)

lemma find_sat: "List.find P xs = Some i \<Longrightarrow> P i \<and> i \<in> set xs"
  by (auto simp: find_Some_iff)

lemma acquiresleep_buf:
  assumes "klocks s = {}" "curproc s = Some p" "\<not> blocked (bufs s i)"
  shows "acquiresleep (LBuf i) (ChBufLock i) (buf_lock i) (upd_buf_lock i) s
    = Ok () (upd_buf_lock i (lock_for (p_pid (procs s p))) s)"
  using bl.acquiresleep_free[of i s p] assms by (simp add: lock_for_def[abs_def])

lemma bget_apply:
  assumes "lru (bufs s) xs" "klocks s = {}" "curproc s = Some p" "bchoose (bufs s) xs bn = Some i" "\<not> blocked (bufs s i)"
  shows "bget 1 bn s = Ok i (upd_buf i (bclaim (p_pid (procs s p)) bn) s)"
proof (cases "List.find (\<lambda>b. b_dev (bufs s b) = 1 \<and> b_blockno (bufs s b) = bn) xs")
  case None
  with assms(4) have f: "List.find (\<lambda>b. b_refcnt (bufs s b) = 0 \<and> \<not> b_dirty (bufs s b)) (rev xs) = Some i"
    by (simp add: bchoose_def)
  with find_not[OF None, of i] find_sat[OF f] have "\<not> (b_dev (bufs s i) = 1 \<and> b_blockno (bufs s i) = bn)" by auto
  then have c: "bclaim pid bn (bufs s i) = b_lock_update (lock_for pid) ((bufs s i)\<lparr>b_dev := 1, b_blockno := bn,
      b_valid := False, b_dirty := False, b_refcnt := 1\<rparr>)" for pid by (auto simp: bclaim_def)
  let ?u = "upd_buf i (\<lambda>bf. bf\<lparr>b_dev := 1, b_blockno := bn, b_valid := False, b_dirty := False, b_refcnt := 1\<rparr>) s"
  have "acquiresleep (LBuf i) (ChBufLock i) (buf_lock i) (upd_buf_lock i) ?u
      = Ok () (upd_buf_lock i (lock_for (p_pid (procs ?u p))) ?u)"
    using assms by (intro acquiresleep_buf) simp_all
  moreover have "LBcache \<notin> klocks s" using assms(2) by simp
  ultimately show ?thesis
    using None f by (simp add: bget_def lru_walks[OF assms(1)] upd_buf_def c)
next
  case (Some j)
  with assms(4) have j: "j = i" by (simp add: bchoose_def)
  from find_sat[OF Some] j have c: "bclaim pid bn (bufs s i) = b_lock_update (lock_for pid) (b_refcnt_update (\<lambda>n. n + 1) (bufs s i))"
    for pid by (simp add: bclaim_def)
  let ?u = "upd_buf i (b_refcnt_update (\<lambda>n. n + 1)) s"
  have "acquiresleep (LBuf i) (ChBufLock i) (buf_lock i) (upd_buf_lock i) ?u
      = Ok () (upd_buf_lock i (lock_for (p_pid (procs ?u p))) ?u)"
    using assms by (intro acquiresleep_buf) simp_all
  moreover have "LBcache \<notin> klocks s" using assms(2) by simp
  ultimately show ?thesis
    using Some j by (simp add: bget_def lru_walks[OF assms(1)] upd_buf_def c)
qed

definition bfetch :: "int \<Rightarrow> nat \<Rightarrow> (nat \<Rightarrow> bytes) \<Rightarrow> buf \<Rightarrow> buf" where
  "bfetch pid bn D b = (let c = bclaim pid bn b in if b_valid c then c else c\<lparr>b_data := D bn, b_valid := True\<rparr>)"

lemma bclaim_simps [simp]:
  "b_dev (bclaim pid bn b) = 1" "b_blockno (bclaim pid bn b) = bn" "b_next (bclaim pid bn b) = b_next b"
  "b_prev (bclaim pid bn b) = b_prev b" "b_lock (bclaim pid bn b) = lock_for pid (b_lock b)"
  "b_data (bclaim pid bn b) = b_data b"
  by (simp_all add: bclaim_def)

lemma bfetch_simps [simp]:
  "b_dev (bfetch pid bn D b) = 1" "b_blockno (bfetch pid bn D b) = bn" "b_next (bfetch pid bn D b) = b_next b"
  "b_prev (bfetch pid bn D b) = b_prev b" "b_lock (bfetch pid bn D b) = lock_for pid (b_lock b)" "b_valid (bfetch pid bn D b)"
  by (simp_all add: bfetch_def Let_def)

lemma bread_apply:
  assumes "lru (bufs s) xs" "klocks s = {}" "curproc s = Some p" "bchoose (bufs s) xs bn = Some i" "\<not> blocked (bufs s i)"
    and "b_dirty (bufs s i) \<Longrightarrow> b_valid (bufs s i)" "bn < disksize s"
  shows "bread 1 bn s = Ok i (s\<lparr>bufs := (bufs s)(i := bfetch (p_pid (procs s p)) bn (memdisk s) (bufs s i))\<rparr>)"
proof -
  let ?u = "upd_buf i (bclaim (p_pid (procs s p)) bn) s"
  note g = bget_apply[OF assms(1-5)]
  show ?thesis
  proof (cases "b_valid (bclaim (p_pid (procs s p)) bn (bufs s i))")
    case True
    with g show ?thesis by (simp add: bread_def bfetch_def Let_def) (simp add: upd_buf_def)
  next
    case False
    with assms(6) have "\<not> b_dirty (bclaim (p_pid (procs s p)) bn (bufs s i))" by (auto simp: bclaim_def split: if_splits)
    with False assms have "iderw i ?u = Ok () (upd_buf i (\<lambda>b. b\<lparr>b_data := memdisk ?u (b_blockno b), b_valid := True\<rparr>) ?u)"
      by (intro iderw_read[where p = p]) simp_all
    with False g show ?thesis by (simp add: bread_def bfetch_def Let_def) (simp add: upd_buf_def)
  qed
qed

definition bdrop :: "buf \<Rightarrow> buf" where
  "bdrop b = b_refcnt_update (\<lambda>n. n - 1) (b_lock_update (\<lambda>k. k\<lparr>sl_locked := False, sl_pid := 0\<rparr>) b)"

lemma bdrop_simps [simp]:
  "b_valid (bdrop b) = b_valid b" "b_dirty (bdrop b) = b_dirty b" "b_dev (bdrop b) = b_dev b" "b_blockno (bdrop b) = b_blockno b"
  "b_next (bdrop b) = b_next b" "b_prev (bdrop b) = b_prev b" "b_data (bdrop b) = b_data b" "b_refcnt (bdrop b) = b_refcnt b - 1"
  "\<not> blocked (bdrop b)"
  by (simp_all add: bdrop_def)

lemma brelse_apply:
  assumes "klocks s = {}" "curproc s = Some p" "blocked (bufs s i)" "sl_pid (b_lock (bufs s i)) = p_pid (procs s p)"
  defines "B \<equiv> (bufs s)(i := bdrop (bufs s i))"
  shows "brelse i s = Ok () (s\<lparr>procs := woken (ChBufLock i) (procs s),
    bufs := (if b_refcnt (B i) = 0 then link_front i (unlink i B) else B)\<rparr>)"
proof -
  have "LBcache \<notin> klocks s" "LBuf i \<notin> klocks s" "LPtable \<notin> klocks s" using assms(1) by auto
  with assms(2-4) bl.holdingsleep_apply[of i s p] bl.releasesleep_apply[of i s] show ?thesis
    by (simp add: brelse_def) (simp add: upd_buf_def B_def bdrop_def)
qed

subsection \<open>The cache as the file system sees it\<close>

text \<open>\<open>bst s pid H P\<close>: the running process \<open>pid\<close> holds the locked buffers of exactly the blocks \<open>H\<close>, no
  other buffer is in use, and \<open>P\<close> are the blocks the log has pinned in the cache.\<close>

definition bst :: "'a kbio_scheme \<Rightarrow> int \<Rightarrow> nat set \<Rightarrow> nat set \<Rightarrow> bool" where
  "bst s pid H P \<longleftrightarrow> bufs_ok (bufs s) (memdisk s) \<and> klocks s = {} \<and>
     (\<exists>p. curproc s = Some p \<and> p_pid (procs s p) = pid) \<and>
     (\<forall>i<NBUF. if blocked (bufs s i)
        then b_refcnt (bufs s i) = 1 \<and> b_valid (bufs s i) \<and> sl_pid (b_lock (bufs s i)) = pid \<and> b_blockno (bufs s i) \<in> H
        else b_refcnt (bufs s i) = 0) \<and>
     (\<forall>bn\<in>H. \<exists>i<NBUF. blocked (bufs s i) \<and> b_blockno (bufs s i) = bn) \<and>
     P = {b_blockno (bufs s i) | i. i < NBUF \<and> b_dirty (bufs s i)}"

text \<open>Buffer \<open>i\<close> holds block \<open>bn\<close>, locked.\<close>

definition hbuf :: "(nat \<Rightarrow> buf) \<Rightarrow> nat \<Rightarrow> nat \<Rightarrow> bool" where
  "hbuf B bn i \<longleftrightarrow> i < NBUF \<and> b_dev (B i) = 1 \<and> b_blockno (B i) = bn \<and> blocked (B i)"

abbreviation view :: "'a kbio_scheme \<Rightarrow> nat \<Rightarrow> bytes" where
  "view s \<equiv> cblk (bufs s) (memdisk s)"

lemma bstD:
  assumes "bst s pid H P"
  shows "bufs_ok (bufs s) (memdisk s)" "klocks s = {}" "\<exists>p. curproc s = Some p \<and> p_pid (procs s p) = pid"
    "P = {b_blockno (bufs s i) | i. i < NBUF \<and> b_dirty (bufs s i)}"
    and "i < NBUF \<Longrightarrow> blocked (bufs s i) \<Longrightarrow> b_refcnt (bufs s i) = 1 \<and> b_valid (bufs s i)
       \<and> sl_pid (b_lock (bufs s i)) = pid \<and> b_blockno (bufs s i) \<in> H"
    and "i < NBUF \<Longrightarrow> \<not> blocked (bufs s i) \<Longrightarrow> b_refcnt (bufs s i) = 0"
    and "bn \<in> H \<Longrightarrow> \<exists>i<NBUF. blocked (bufs s i) \<and> b_blockno (bufs s i) = bn"
  using assms unfolding bst_def by (blast, blast, blast, blast, metis, metis, blast)

lemma bstI:
  assumes "bufs_ok (bufs s) (memdisk s)" "klocks s = {}" "curproc s = Some p" "p_pid (procs s p) = pid"
    "\<And>j. j < NBUF \<Longrightarrow> blocked (bufs s j) \<Longrightarrow> b_refcnt (bufs s j) = 1 \<and> b_valid (bufs s j)
       \<and> sl_pid (b_lock (bufs s j)) = pid \<and> b_blockno (bufs s j) \<in> H"
    "\<And>j. j < NBUF \<Longrightarrow> \<not> blocked (bufs s j) \<Longrightarrow> b_refcnt (bufs s j) = 0"
    "\<And>bn. bn \<in> H \<Longrightarrow> \<exists>j<NBUF. blocked (bufs s j) \<and> b_blockno (bufs s j) = bn"
    "{b_blockno (bufs s j) | j. j < NBUF \<and> b_dirty (bufs s j)} = P"
  shows "bst s pid H P"
  using assms unfolding bst_def by simp

lemma bst_dev:
  assumes "bst s pid H P" "i < NBUF" "b_refcnt (bufs s i) \<noteq> 0 \<or> b_dirty (bufs s i)"
  shows "b_dev (bufs s i) = 1 \<and> b_blockno (bufs s i) \<in> P \<union> H"
proof -
  note b = bstD[OF assms(1)]
  have "b_dev (bufs s i) = 1" using bufs_okD(4,5)[OF b(1) assms(2)] assms(3) by auto
  moreover have "b_blockno (bufs s i) \<in> P \<union> H" using assms(2,3) b(5,6)[OF assms(2)] b(4) by auto
  ultimately show ?thesis by blast
qed

lemma bst_free:
  assumes "bst s pid H P" "card (P \<union> H) < NBUF"
  shows "\<exists>i<NBUF. b_refcnt (bufs s i) = 0 \<and> \<not> b_dirty (bufs s i)"
proof (rule ccontr)
  let ?f = "\<lambda>i. b_blockno (bufs s i)"
  assume "\<not> ?thesis"
  then have d: "b_dev (bufs s i) = 1 \<and> ?f i \<in> P \<union> H" if "i < NBUF" for i using bst_dev[OF assms(1) that] that by blast
  have "inj_on ?f {..<NBUF}" using d bufs_okD(7)[OF bstD(1)[OF assms(1)]] by (auto simp: inj_on_def)
  moreover have "?f ` {..<NBUF} \<subseteq> P \<union> H" using d by auto
  moreover have "P \<union> H \<subseteq> ?f ` {..<NBUF}" using bstD(4,7)[OF assms(1)] by auto
  then have "finite (P \<union> H)" by (rule finite_subset) simp
  ultimately have "card {..<NBUF} \<le> card (P \<union> H)" by (rule card_inj_on_le)
  with assms(2) show False by simp
qed

lemma bst_pinned: "bst s pid H P \<Longrightarrow> bn \<in> P \<Longrightarrow> \<exists>i<NBUF. b_dev (bufs s i) = 1 \<and> b_blockno (bufs s i) = bn"
  using bst_dev[of s pid H P] bstD(4)[of s pid H P] by blast

lemma bchoose_hit: "bufs_ok B D \<Longrightarrow> lru B xs \<Longrightarrow> cached B bn = Some i \<Longrightarrow> bchoose B xs bn = Some i"
proof -
  assume ok: "bufs_ok B D" and xs: "lru B xs" and "cached B bn = Some i"
  then have i: "i < NBUF" "b_dev (B i) = 1" "b_blockno (B i) = bn" by (auto simp: cached_iff[OF ok])
  then obtain j where j: "List.find (\<lambda>b. b_dev (B b) = 1 \<and> b_blockno (B b) = bn) xs = Some j"
    using xs by (cases "List.find (\<lambda>b. b_dev (B b) = 1 \<and> b_blockno (B b) = bn) xs") (auto simp: lru_def find_None_iff)
  then have "j = i" using find_sat[OF j] i bufs_okD(7)[OF ok, of j i] xs by (auto simp: lru_def)
  with j show "bchoose B xs bn = Some i" by (simp add: bchoose_def)
qed

lemma bchoose_miss:
  assumes "lru B xs" "cached B bn = None"
  shows "bchoose B xs bn = List.find (\<lambda>b. b_refcnt (B b) = 0 \<and> \<not> b_dirty (B b)) (rev xs)"
proof -
  have "List.find (\<lambda>b. b_dev (B b) = 1 \<and> b_blockno (B b) = bn) xs = None"
    using assms by (auto simp: lru_def find_None_iff cached_None)
  then show ?thesis by (simp add: bchoose_def)
qed

lemma bread_bst:
  assumes "bst s pid H P" "bn \<notin> H" "bn < disksize s" "bn \<in> P \<or> card (P \<union> H) < NBUF"
  obtains i b' where "bread 1 bn s = Ok i (s\<lparr>bufs := (bufs s)(i := b')\<rparr>)" "\<not> blocked (bufs s i)"
    "bst (s\<lparr>bufs := (bufs s)(i := b')\<rparr>) pid (insert bn H) P" "hbuf ((bufs s)(i := b')) bn i"
    "b_data b' = view s bn" "view (s\<lparr>bufs := (bufs s)(i := b')\<rparr>) = view s"
proof -
  note b = bstD[OF assms(1)]
  obtain p where p: "curproc s = Some p" "p_pid (procs s p) = pid" using b(3) by blast
  obtain xs where xs: "lru (bufs s) xs" using bufs_okD(1)[OF b(1)] by blast
  obtain i where i: "bchoose (bufs s) xs bn = Some i" "i < NBUF" "\<not> blocked (bufs s i)"
    and hit: "b_dev (bufs s i) = 1 \<and> b_blockno (bufs s i) = bn \<or> cached (bufs s) bn = None \<and> \<not> b_dirty (bufs s i)"
  proof (cases "cached (bufs s) bn")
    case (Some i)
    then have "i < NBUF" "b_dev (bufs s i) = 1" "b_blockno (bufs s i) = bn" by (auto simp: cached_iff[OF b(1)])
    with that bchoose_hit[OF b(1) xs Some] b(5)[of i] assms(2) show ?thesis by blast
  next
    case None
    then have "bn \<notin> P" using bst_pinned[OF assms(1), of bn] by (auto simp: cached_None)
    with assms(4) bst_free[OF assms(1)] obtain k where k: "k < NBUF" "b_refcnt (bufs s k) = 0" "\<not> b_dirty (bufs s k)" by blast
    obtain i where f: "List.find (\<lambda>b. b_refcnt (bufs s b) = 0 \<and> \<not> b_dirty (bufs s b)) (rev xs) = Some i"
      using k xs by (cases "List.find (\<lambda>b. b_refcnt (bufs s b) = 0 \<and> \<not> b_dirty (bufs s b)) (rev xs)")
        (auto simp: find_None_iff lru_def)
    have "i < NBUF" "b_refcnt (bufs s i) = 0" "\<not> b_dirty (bufs s i)" using find_sat[OF f] xs by (auto simp: lru_def)
    with that[of i] f bchoose_miss[OF xs None] None b(5)[of i] show ?thesis by auto
  qed
  define b' where "b' = bfetch pid bn (memdisk s) (bufs s i)"
  have r: "bread 1 bn s = Ok i (s\<lparr>bufs := (bufs s)(i := b')\<rparr>)"
    using bread_apply[OF xs b(2) p(1) i(1,3) _ assms(3)] bufs_okD(4)[OF b(1) i(2)] p(2) by (simp add: b'_def)
  have ref: "b_refcnt b' = 1" using b(6)[OF i(2,3)] by (simp add: b'_def bfetch_def bclaim_def Let_def)
  have dirty: "b_dirty b' = b_dirty (bufs s i)"
    using hit bufs_okD(4)[OF b(1) i(2)] by (auto simp: b'_def bfetch_def bclaim_def Let_def)
  have data: "b_data b' = view s bn"
    using hit i(2) by (auto simp: b'_def bfetch_def bclaim_def Let_def cblk_def cached_iff[OF b(1), THEN iffD2] split: if_splits)
  have new: "b_dev b' = 1" "b_blockno b' = bn" "b_valid b'" "blocked b'" "sl_pid (b_lock b') = pid"
    "b_next b' = b_next (bufs s i)" "b_prev b' = b_prev (bufs s i)" by (simp_all add: b'_def)
  have ok: "bufs_ok ((bufs s)(i := b')) (memdisk s)"
  proof (rule bufs_ok_upd[OF b(1) new(6,7)])
    show "buf_ok b' (memdisk s)" using ref new by (simp add: buf_ok_def)
    fix j assume "j < NBUF" "j \<noteq> i" "b_dev (bufs s j) = 1"
    then show "b_blockno (bufs s j) \<noteq> b_blockno b'"
      using hit new(2) i(2) bufs_okD(7)[OF b(1), of i j] by (auto simp: cached_None)
  qed
  have v: "view (s\<lparr>bufs := (bufs s)(i := b')\<rparr>) = view s"
    using cblk_upd_same[OF b(1) ok i(2)] new data hit i(3) by auto
  have "b_dirty (((bufs s)(i := b')) j) = b_dirty (bufs s j)"
    "b_dirty (bufs s j) \<Longrightarrow> b_blockno (((bufs s)(i := b')) j) = b_blockno (bufs s j)" for j
    using dirty hit new(2) by auto
  then have "{b_blockno (((bufs s)(i := b')) j) | j. j < NBUF \<and> b_dirty (((bufs s)(i := b')) j)} = P"
    unfolding b(4) by (intro Collect_cong arg_cong[where f = Ex] ext) metis
  moreover have "\<exists>j<NBUF. blocked (((bufs s)(i := b')) j) \<and> b_blockno (((bufs s)(i := b')) j) = c"
    if "c \<in> insert bn H" for c
  proof (cases "c = bn")
    case True
    with new i(2) show ?thesis by (intro exI[of _ i]) simp
  next
    case False
    with that obtain j where "j < NBUF" "blocked (bufs s j)" "b_blockno (bufs s j) = c" using b(7)[of c] by blast
    moreover from this i(3) have "j \<noteq> i" by blast
    ultimately show ?thesis by (intro exI[of _ j]) simp
  qed
  ultimately have "bst (s\<lparr>bufs := (bufs s)(i := b')\<rparr>) pid (insert bn H) P"
    using ok b(2) p ref new b(5,6) by (intro bstI[where p = p]) (simp_all split: if_splits)
  then show ?thesis using that[OF r i(3)] new i(2) data v by (simp add: hbuf_def)
qed

text \<open>Changing the data or the dirty mark of a held buffer.\<close>

lemma hbufD:
  assumes "bst s pid H P" "hbuf (bufs s) bn i"
  shows "i < NBUF" "b_dev (bufs s i) = 1" "b_blockno (bufs s i) = bn" "blocked (bufs s i)" "b_valid (bufs s i)"
    "b_refcnt (bufs s i) = 1" "sl_pid (b_lock (bufs s i)) = pid" "bn \<in> H" "view s bn = b_data (bufs s i)"
    "j < NBUF \<Longrightarrow> b_dev (bufs s j) = 1 \<Longrightarrow> b_blockno (bufs s j) = bn \<Longrightarrow> j = i"
proof -
  note b = bstD[OF assms(1)]
  show h: "i < NBUF" "b_dev (bufs s i) = 1" "b_blockno (bufs s i) = bn" "blocked (bufs s i)"
    using assms(2) by (auto simp: hbuf_def)
  show "b_valid (bufs s i)" "b_refcnt (bufs s i) = 1" "sl_pid (b_lock (bufs s i)) = pid" "bn \<in> H"
    using b(5)[OF h(1,4)] h(3) by auto
  moreover have "cached (bufs s) bn = Some i" using h by (simp add: cached_iff[OF b(1)])
  ultimately show "view s bn = b_data (bufs s i)" by (simp add: cblk_def)
  show "j < NBUF \<Longrightarrow> b_dev (bufs s j) = 1 \<Longrightarrow> b_blockno (bufs s j) = bn \<Longrightarrow> j = i"
    using bufs_okD(7)[OF b(1), of j i] h by simp
qed

lemma bst_upd_held:
  assumes "bst s pid H P" "hbuf (bufs s) bn i"
    and same: "b_next b' = b_next (bufs s i)" "b_prev b' = b_prev (bufs s i)" "b_dev b' = b_dev (bufs s i)"
      "b_blockno b' = b_blockno (bufs s i)" "b_lock b' = b_lock (bufs s i)" "b_refcnt b' = b_refcnt (bufs s i)" "b_valid b' = b_valid (bufs s i)"
  shows "bst (s\<lparr>bufs := (bufs s)(i := b')\<rparr>) pid H (if b_dirty b' then insert bn P else P - {bn})"
    and "view (s\<lparr>bufs := (bufs s)(i := b')\<rparr>) = (view s)(bn := b_data b')"
    and "hbuf ((bufs s)(i := b')) bn i"
proof -
  note b = bstD[OF assms(1)] and h = hbufD(1-9)[OF assms(1,2)] and uniq = hbufD(10)[OF assms(1,2)]
  obtain p where p: "curproc s = Some p" "p_pid (procs s p) = pid" using b(3) by blast
  let ?B = "(bufs s)(i := b')"
  have ok: "bufs_ok ?B (memdisk s)"
  proof (rule bufs_ok_upd[OF b(1) same(1,2)])
    show "buf_ok b' (memdisk s)"
      using h(1-7) same bufs_okD(4)[OF b(1) h(1)] by (simp add: buf_ok_def)
    show "b_blockno (bufs s j) \<noteq> b_blockno b'" if "j < NBUF" "j \<noteq> i" "b_dev (bufs s j) = 1" for j
      using uniq[OF that(1,3)] that(2) same(4) h(3) by auto
  qed
  show "hbuf ?B bn i" using h same by (simp add: hbuf_def)
  show "view (s\<lparr>bufs := ?B\<rparr>) = (view s)(bn := b_data b')"
  proof
    fix c
    show "view (s\<lparr>bufs := ?B\<rparr>) c = ((view s)(bn := b_data b')) c"
    proof (cases "c = bn")
      case True
      then have "cached ?B c = Some i" using h same by (simp add: cached_iff[OF ok])
      with True h same show ?thesis by (simp add: cblk_def)
    next
      case False
      have "b_dev (?B j) = b_dev (bufs s j)" "b_blockno (?B j) = b_blockno (bufs s j)" for j using same by simp_all
      then have "cached ?B c = cached (bufs s) c" unfolding cached_def by presburger
      moreover have "cached (bufs s) c \<noteq> Some i" using False h(3) by (simp add: cached_iff[OF b(1)])
      ultimately show ?thesis using False by (simp add: cblk_def split: option.split)
    qed
  qed
  have dev: "b_dirty (bufs s j) \<Longrightarrow> j < NBUF \<Longrightarrow> b_dev (bufs s j) = 1" for j
    using bufs_okD(4,5)[OF b(1), of j] by blast
  have "{b_blockno (?B j) | j. j < NBUF \<and> b_dirty (?B j)} = (if b_dirty b' then insert bn P else P - {bn})" (is "?L = ?R")
  proof (rule set_eqI)
    fix c
    have "c \<in> ?L \<longleftrightarrow> (c = bn \<and> b_dirty b') \<or> (\<exists>j<NBUF. j \<noteq> i \<and> c = b_blockno (bufs s j) \<and> b_dirty (bufs s j))"
      using h(1,3) same(4) by auto
    moreover have "c \<in> P - {bn} \<longleftrightarrow> (\<exists>j<NBUF. j \<noteq> i \<and> c = b_blockno (bufs s j) \<and> b_dirty (bufs s j))"
      unfolding b(4) using h(3) uniq dev by blast
    ultimately show "c \<in> ?L \<longleftrightarrow> c \<in> ?R" by auto
  qed
  moreover have "\<exists>j<NBUF. blocked (?B j) \<and> b_blockno (?B j) = c" if c: "c \<in> H" for c
  proof -
    obtain j where "j < NBUF" "blocked (bufs s j)" "b_blockno (bufs s j) = c" using b(7)[OF c] by blast
    then show ?thesis using same(4,5) by (intro exI[of _ j]) auto
  qed
  ultimately show "bst (s\<lparr>bufs := ?B\<rparr>) pid H (if b_dirty b' then insert bn P else P - {bn})"
    using ok b(2) p same(3-7) h(1-8) b(5,6) by (intro bstI[where p = p]) (simp_all split: if_splits)
qed

text \<open>A write to the disk of a block whose buffer is held changes neither the view nor the
  invariant.\<close>

lemma bst_disk:
  assumes "bst s pid H P" "hbuf (bufs s) bn i"
  shows "bst (s\<lparr>memdisk := (memdisk s)(bn := x)\<rparr>) pid H P" "view (s\<lparr>memdisk := (memdisk s)(bn := x)\<rparr>) = view s"
proof -
  note b = bstD[OF assms(1)] and h = hbufD(1-9)[OF assms(1,2)] and uniq = hbufD(10)[OF assms(1,2)]
  obtain p where p: "curproc s = Some p" "p_pid (procs s p) = pid" using b(3) by blast
  have "buf_ok (bufs s j) ((memdisk s)(bn := x))" if j: "j < NBUF" for j
  proof (cases "j = i")
    case True
    with j h(4) b(1) show ?thesis by (auto simp: bufs_ok_alt buf_ok_def)
  next
    case False
    have ok: "buf_ok (bufs s j) (memdisk s)" using b(1) j by (simp add: bufs_ok_alt)
    then have "b_valid (bufs s j) \<Longrightarrow> b_blockno (bufs s j) \<noteq> bn" using uniq[OF j] False by (auto simp: buf_ok_def)
    with ok show ?thesis by (auto simp: buf_ok_def)
  qed
  then have "bufs_ok (bufs s) ((memdisk s)(bn := x))" using b(1) by (simp add: bufs_ok_alt)
  then show "bst (s\<lparr>memdisk := (memdisk s)(bn := x)\<rparr>) pid H P" using assms(1) by (simp add: bst_def)
  have "cached (bufs s) bn = Some i" using h by (simp add: cached_iff[OF b(1)])
  then show "view (s\<lparr>memdisk := (memdisk s)(bn := x)\<rparr>) = view s"
    using h(5) by (auto simp: cblk_def fun_eq_iff split: option.split)
qed

lemma bwrite_bst:
  assumes "bst s pid H P" "hbuf (bufs s) bn i" "bn < disksize s"
  defines "t \<equiv> s\<lparr>bufs := (bufs s)(i := (bufs s i)\<lparr>b_dirty := False\<rparr>),
      memdisk := (memdisk s)(bn := b_data (bufs s i)), dwrites := dwrites s @ [(bn, b_data (bufs s i))]\<rparr>"
  shows "bwrite i s = Ok () t" "bst t pid H (P - {bn})" "view t = view s" "hbuf (bufs t) bn i"
proof -
  note b = bstD[OF assms(1)] and h = hbufD(1-9)[OF assms(1,2)]
  obtain p where p: "curproc s = Some p" "p_pid (procs s p) = pid" using b(3) by blast
  let ?u = "upd_buf i (b_dirty_update (\<lambda>_. True)) s"
  have "(bufs s i)\<lparr>b_dirty := False, b_valid := True\<rparr> = (bufs s i)\<lparr>b_dirty := False\<rparr>"
    using h(5) by (intro buf.equality) simp_all
  moreover have "iderw i ?u = Ok () (?u\<lparr>bufs := (bufs ?u)(i := (bufs ?u i)\<lparr>b_dirty := False, b_valid := True\<rparr>),
     memdisk := (memdisk ?u)(b_blockno (bufs ?u i) := b_data (bufs ?u i)),
     dwrites := dwrites ?u @ [(b_blockno (bufs ?u i), b_data (bufs ?u i))]\<rparr>)"
    using b(2) p h assms(3) by (intro iderw_write[where p = p]) simp_all
  moreover have "holdingsleep (LBuf i) (buf_lock i) s = Ok True s"
    using bl.holdingsleep_apply[of i s p] b(2) p h(4,7) by simp
  ultimately show "bwrite i s = Ok () t"
    using h(3) by (simp add: bwrite_def t_def) (simp add: upd_buf_def)
  let ?v = "s\<lparr>bufs := (bufs s)(i := (bufs s i)\<lparr>b_dirty := False\<rparr>)\<rparr>"
  have v: "bst ?v pid H (P - {bn})" "view ?v = (view s)(bn := b_data (bufs s i))" "hbuf (bufs ?v) bn i"
    using bst_upd_held[OF assms(1,2), of "(bufs s i)\<lparr>b_dirty := False\<rparr>"] by simp_all
  have t: "t = ?v\<lparr>memdisk := (memdisk ?v)(bn := b_data (bufs s i)), dwrites := dwrites s @ [(bn, b_data (bufs s i))]\<rparr>"
    by (simp add: t_def)
  have "bst (u\<lparr>dwrites := w\<rparr>) pid H' P' = bst u pid H' P'" for u :: "'a kbio_scheme" and w H' P' by (simp add: bst_def)
  with bst_disk(1)[OF v(1,3)] show "bst t pid H (P - {bn})" unfolding t by simp
  show "view t = view s" using bst_disk(2)[OF v(1,3)] v(2) h(9) unfolding t by (simp add: fun_upd_idem)
  show "hbuf (bufs t) bn i" using v(3) by (simp add: t_def)
qed

lemma cblk_fields:
  assumes "\<And>i. b_dev (B' i) = b_dev (B i)" "\<And>i. b_blockno (B' i) = b_blockno (B i)"
    "\<And>i. b_valid (B' i) = b_valid (B i)" "\<And>i. b_data (B' i) = b_data (B i)"
  shows "cached B' = cached B" "cblk B' D = cblk B D"
  unfolding cblk_def cached_def assms by (rule refl)+

lemma lru_front:
  assumes "lru B xs" "i < NBUF"
  shows "\<exists>ys. lru (link_front i (unlink i B)) (i # ys) \<and> ys = filter (\<lambda>j. j \<noteq> i) xs"
proof -
  have d: "distinct xs" "i \<in> set xs" using assms by (auto simp: lru_def)
  then obtain us vs where xs: "xs = us @ i # vs" by (meson split_list)
  have "filter (\<lambda>j. j \<noteq> i) us = us" "filter (\<lambda>j. j \<noteq> i) vs = vs" using d(1) xs by (auto intro!: filter_True)
  with xs have "filter (\<lambda>j. j \<noteq> i) xs = us @ vs" by simp
  with lru_move_front[of B us i vs] assms(1) xs show ?thesis by simp
qed

lemma brelse_bst:
  assumes "bst s pid H P" "hbuf (bufs s) bn i" "bn \<in> P \<or> view s bn = memdisk s bn"
  obtains B where "brelse i s = Ok () (s\<lparr>procs := woken (ChBufLock i) (procs s), bufs := B\<rparr>)"
    "bst (s\<lparr>procs := woken (ChBufLock i) (procs s), bufs := B\<rparr>) pid (H - {bn}) P"
    "cblk B (memdisk s) = view s" "\<And>j. j \<noteq> i \<Longrightarrow> core (B j) = core (bufs s j)"
proof -
  note b = bstD[OF assms(1)] and h = hbufD(1-9)[OF assms(1,2)] and uniq = hbufD(10)[OF assms(1,2)]
  obtain p where p: "curproc s = Some p" "p_pid (procs s p) = pid" using b(3) by blast
  define B0 where "B0 = (bufs s)(i := bdrop (bufs s i))"
  define B where "B = link_front i (unlink i B0)"
  have core: "core (B j) = core (B0 j)" for j by (simp add: B_def)
  note c = core_eqD[OF core]
  have dirty: "bn \<in> P \<Longrightarrow> b_dirty (bufs s i)" using uniq bst_dev[OF assms(1)] unfolding b(4) by auto
  have r: "brelse i s = Ok () (s\<lparr>procs := woken (ChBufLock i) (procs s), bufs := B\<rparr>)"
    using brelse_apply[OF b(2) p(1) h(4)] h(6,7) p(2) by (simp add: B_def B0_def)
  have ok0: "bufs_ok B0 (memdisk s)"
    unfolding B0_def
  proof (rule bufs_ok_upd[OF b(1)])
    show "buf_ok (bdrop (bufs s i)) (memdisk s)"
      using h dirty assms(3) by (auto simp: buf_ok_def)
    show "b_blockno (bufs s j) \<noteq> b_blockno (bdrop (bufs s i))" if "j < NBUF" "j \<noteq> i" "b_dev (bufs s j) = 1" for j
      using uniq[OF that(1,3)] that(2) h(3) by auto
  qed simp_all
  obtain xs where "lru B0 xs" using bufs_okD(1)[OF ok0] by blast
  then obtain ys where "lru B ys" using lru_front[OF _ h(1), of B0 xs] unfolding B_def by blast
  with ok0 core have ok: "bufs_ok B (memdisk s)" by (rule bufs_ok_core)
  have f: "b_dev (B0 j) = b_dev (bufs s j)" "b_blockno (B0 j) = b_blockno (bufs s j)" "b_valid (B0 j) = b_valid (bufs s j)"
    "b_data (B0 j) = b_data (bufs s j)" "b_dirty (B0 j) = b_dirty (bufs s j)" for j by (simp_all add: B0_def)
  have v: "cblk B (memdisk s) = view s" using cblk_core[OF core] cblk_fields(2)[OF f(1-4)] by simp
  have blk: "blocked (B j) \<longleftrightarrow> j \<noteq> i \<and> blocked (bufs s j)" "j \<noteq> i \<Longrightarrow> b_lock (B j) = b_lock (bufs s j)"
    "b_refcnt (B j) = (if j = i then 0 else b_refcnt (bufs s j))" for j
    using h(6) by (simp_all add: c B0_def)
  have "bst (s\<lparr>procs := woken (ChBufLock i) (procs s), bufs := B\<rparr>) pid (H - {bn}) P"
  proof (rule bstI[where p = p])
    show "{b_blockno (bufs (s\<lparr>procs := woken (ChBufLock i) (procs s), bufs := B\<rparr>) j) |j. j < NBUF \<and>
        b_dirty (bufs (s\<lparr>procs := woken (ChBufLock i) (procs s), bufs := B\<rparr>) j)} = P"
      by (simp add: c f b(4))
    fix e assume "e \<in> H - {bn}"
    then obtain j where "j < NBUF" "blocked (bufs s j)" "b_blockno (bufs s j) = e" using b(7)[of e] by blast
    with \<open>e \<in> H - {bn}\<close> h(3) show "\<exists>j<NBUF. blocked (bufs (s\<lparr>procs := woken (ChBufLock i) (procs s), bufs := B\<rparr>) j)
        \<and> b_blockno (bufs (s\<lparr>procs := woken (ChBufLock i) (procs s), bufs := B\<rparr>) j) = e"
      by (intro exI[of _ j]) (auto simp: blk(1) c(4) f)
  next
    fix j assume j: "j < NBUF" "blocked (bufs (s\<lparr>procs := woken (ChBufLock i) (procs s), bufs := B\<rparr>) j)"
    then have "j \<noteq> i" "blocked (bufs s j)" by (simp_all add: blk)
    with b(5)[OF j(1)] b(5)[OF h(1)] uniq[OF j(1)] bst_dev[OF assms(1) j(1)]
    show "b_refcnt (bufs (s\<lparr>procs := woken (ChBufLock i) (procs s), bufs := B\<rparr>) j) = 1 \<and>
         b_valid (bufs (s\<lparr>procs := woken (ChBufLock i) (procs s), bufs := B\<rparr>) j) \<and>
         sl_pid (b_lock (bufs (s\<lparr>procs := woken (ChBufLock i) (procs s), bufs := B\<rparr>) j)) = pid \<and>
         b_blockno (bufs (s\<lparr>procs := woken (ChBufLock i) (procs s), bufs := B\<rparr>) j) \<in> H - {bn}"
      by (auto simp: blk c(1,4) f)
  next
    fix j assume "j < NBUF" "\<not> blocked (bufs (s\<lparr>procs := woken (ChBufLock i) (procs s), bufs := B\<rparr>) j)"
    then show "b_refcnt (bufs (s\<lparr>procs := woken (ChBufLock i) (procs s), bufs := B\<rparr>) j) = 0"
      using b(6)[of j] by (auto simp: blk)
  qed (use ok b(2) p in simp_all)
  moreover have "core (B j) = core (bufs s j)" if "j \<noteq> i" for j using that by (simp add: core B0_def)
  ultimately show ?thesis using that r v by blast
qed

subsection \<open>Rules for the layers above\<close>

text \<open>What the cache operations may change: buffers, disk, and the run state of processes they
  wake.\<close>

definition bio_frame :: "'a kbio_scheme \<Rightarrow> 'a kbio_scheme \<Rightarrow> bool" where
  "bio_frame s s' \<longleftrightarrow> (\<exists>ps B D W. s' = s\<lparr>procs := ps, bufs := B, memdisk := D, dwrites := W\<rparr>
     \<and> (\<forall>i. ps i = (procs s i)\<lparr>p_state := p_state (ps i)\<rparr>))"

lemma bio_frameI:
  assumes "s' = s\<lparr>procs := ps, bufs := B, memdisk := D, dwrites := W\<rparr>" "\<And>i. ps i = (procs s i)\<lparr>p_state := p_state (ps i)\<rparr>"
  shows "bio_frame s s'"
  using assms unfolding bio_frame_def by blast

lemma bio_frame_refl [simp]: "bio_frame s s"
  by (rule bio_frameI[where ps = "procs s" and B = "bufs s" and D = "memdisk s" and W = "dwrites s"]) simp_all

lemma bio_frame_trans:
  assumes "bio_frame s t" "bio_frame t u"
  shows "bio_frame s u"
proof -
  obtain ps B D W where t: "t = s\<lparr>procs := ps, bufs := B, memdisk := D, dwrites := W\<rparr>"
    and ps: "\<And>i. ps i = (procs s i)\<lparr>p_state := p_state (ps i)\<rparr>" using assms(1) unfolding bio_frame_def by blast
  obtain qs B' D' W' where u: "u = t\<lparr>procs := qs, bufs := B', memdisk := D', dwrites := W'\<rparr>"
    and qs: "\<And>i. qs i = (procs t i)\<lparr>p_state := p_state (qs i)\<rparr>" using assms(2) unfolding bio_frame_def by blast
  have "qs i = (procs s i)\<lparr>p_state := p_state (qs i)\<rparr>" for i
  proof -
    have "qs i = (ps i)\<lparr>p_state := p_state (qs i)\<rparr>" using qs[of i] t by simp
    also have "\<dots> = (procs s i)\<lparr>p_state := p_state (qs i)\<rparr>" by (subst ps) simp
    finally show ?thesis .
  qed
  then show ?thesis using t u by (intro bio_frameI[where ps = qs]) simp_all
qed

lemma woken_frame: "woken ch ps i = (ps i)\<lparr>p_state := p_state (woken ch ps i)\<rparr>"
  by (simp add: woken_def)

lemma bio_frame_sel:
  assumes "bio_frame s s'"
  shows "klocks s' = klocks s" "curproc s' = curproc s" "nextpid s' = nextpid s" "initproc s' = initproc s"
    "disksize s' = disksize s" "kbio.more s' = kbio.more s"
    "p_pid (procs s' i) = p_pid (procs s i)" "p_ofile (procs s' i) = p_ofile (procs s i)" "p_cwd (procs s' i) = p_cwd (procs s i)"
    "p_parent (procs s' i) = p_parent (procs s i)" "p_killed (procs s' i) = p_killed (procs s i)"
proof -
  obtain ps B D W where t: "s' = s\<lparr>procs := ps, bufs := B, memdisk := D, dwrites := W\<rparr>"
    and ps: "\<And>i. ps i = (procs s i)\<lparr>p_state := p_state (ps i)\<rparr>" using assms unfolding bio_frame_def by blast
  then show "klocks s' = klocks s" "curproc s' = curproc s" "nextpid s' = nextpid s" "initproc s' = initproc s"
    "disksize s' = disksize s" "kbio.more s' = kbio.more s" by simp_all
  have "p_pid (ps i) = p_pid (procs s i)" "p_ofile (ps i) = p_ofile (procs s i)" "p_cwd (ps i) = p_cwd (procs s i)"
    "p_parent (ps i) = p_parent (procs s i)" "p_killed (ps i) = p_killed (procs s i)"
    by (subst ps, simp)+
  with t show "p_pid (procs s' i) = p_pid (procs s i)" "p_ofile (procs s' i) = p_ofile (procs s i)" "p_cwd (procs s' i) = p_cwd (procs s i)"
    "p_parent (procs s' i) = p_parent (procs s i)" "p_killed (procs s' i) = p_killed (procs s i)" by simp_all
qed

lemma hbuf_dirty:
  assumes "bst s pid H P" "hbuf (bufs s) bn i"
  shows "b_dirty (bufs s i) \<longleftrightarrow> bn \<in> P"
proof -
  note b = bstD[OF assms(1)] and h = hbufD(1-9)[OF assms(1,2)] and uniq = hbufD(10)[OF assms(1,2)]
  have "j = i" if "j < NBUF" "b_dirty (bufs s j)" "b_blockno (bufs s j) = bn" for j
    using uniq[OF that(1) _ that(3)] bst_dev[OF assms(1) that(1)] that(2) by blast
  then show ?thesis unfolding b(4) using h(1,3) by auto
qed

text \<open>A block that is neither held nor pinned has the contents the disk has.\<close>

lemma view_clean:
  assumes "bst s pid H P" "bn \<notin> H" "bn \<notin> P"
  shows "view s bn = memdisk s bn"
proof (cases "cached (bufs s) bn")
  case (Some i)
  note b = bstD[OF assms(1)]
  have i: "i < NBUF" "b_dev (bufs s i) = 1" "b_blockno (bufs s i) = bn" using Some by (auto simp: cached_iff[OF b(1)])
  then have "\<not> blocked (bufs s i)" "\<not> b_dirty (bufs s i)" using assms(2,3) b(5)[of i] b(4) by auto
  with bufs_okD(6)[OF b(1) i(1)] i(3) Some show ?thesis by (simp add: cblk_def)
qed (simp add: cblk_def)

text \<open>No contents and no disk block change.\<close>

definition same_store :: "'a kbio_scheme \<Rightarrow> 'a kbio_scheme \<Rightarrow> bool" where
  "same_store s s' \<longleftrightarrow> view s' = view s \<and> memdisk s' = memdisk s \<and> dwrites s' = dwrites s \<and> bio_frame s s'"

text \<open>The buffers held for blocks other than \<open>bn\<close> stay held.\<close>

definition hkeep :: "nat \<Rightarrow> 'a kbio_scheme \<Rightarrow> 'a kbio_scheme \<Rightarrow> bool" where
  "hkeep bn s s' \<longleftrightarrow> (\<forall>c j. c \<noteq> bn \<longrightarrow> hbuf (bufs s) c j \<longrightarrow> hbuf (bufs s') c j)"

lemma hkeepD: "hkeep bn s s' \<Longrightarrow> hbuf (bufs s) c j \<Longrightarrow> c \<noteq> bn \<Longrightarrow> hbuf (bufs s') c j"
  by (simp add: hkeep_def)

lemma same_storeD:
  assumes "same_store s s'"
  shows "view s' = view s" "memdisk s' = memdisk s" "dwrites s' = dwrites s" "bio_frame s s'" "disksize s' = disksize s"
  using assms bio_frame_sel(5)[of s s'] by (auto simp: same_store_def)

lemma same_store_trans: "same_store s t \<Longrightarrow> same_store t u \<Longrightarrow> same_store s u"
  unfolding same_store_def using bio_frame_trans by metis

lemma bread_ex:
  assumes "bst s pid H P" "bn \<notin> H" "bn < disksize s" "bn \<in> P \<or> card (P \<union> H) < NBUF"
  shows "\<exists>i s'. bread 1 bn s = Ok i s' \<and> bst s' pid (insert bn H) P \<and> hbuf (bufs s') bn i \<and> same_store s s' \<and> hkeep bn s s'"
proof -
  obtain i b' where r: "bread 1 bn s = Ok i (s\<lparr>bufs := (bufs s)(i := b')\<rparr>)" "\<not> blocked (bufs s i)"
    "bst (s\<lparr>bufs := (bufs s)(i := b')\<rparr>) pid (insert bn H) P" "hbuf ((bufs s)(i := b')) bn i"
    "view (s\<lparr>bufs := (bufs s)(i := b')\<rparr>) = view s" by (rule bread_bst[OF assms])
  have "bio_frame s (s\<lparr>bufs := (bufs s)(i := b')\<rparr>)"
    by (rule bio_frameI[where ps = "procs s" and B = "(bufs s)(i := b')" and D = "memdisk s" and W = "dwrites s"]) simp_all
  moreover have "hkeep bn s (s\<lparr>bufs := (bufs s)(i := b')\<rparr>)"
    using r(2) by (auto simp: hbuf_def hkeep_def)
  ultimately show ?thesis
    using r by (intro exI[of _ i] exI[of _ "s\<lparr>bufs := (bufs s)(i := b')\<rparr>"]) (simp add: same_store_def)
qed

lemma brelse_ex:
  assumes "bst s pid H P" "hbuf (bufs s) bn i" "bn \<in> P \<or> view s bn = memdisk s bn"
  shows "\<exists>s'. brelse i s = Ok () s' \<and> bst s' pid (H - {bn}) P \<and> same_store s s' \<and> hkeep bn s s'"
proof (rule brelse_bst[OF assms])
  fix B assume r: "brelse i s = Ok () (s\<lparr>procs := woken (ChBufLock i) (procs s), bufs := B\<rparr>)"
    "bst (s\<lparr>procs := woken (ChBufLock i) (procs s), bufs := B\<rparr>) pid (H - {bn}) P"
    "cblk B (memdisk s) = view s" "\<And>j. j \<noteq> i \<Longrightarrow> core (B j) = core (bufs s j)"
  let ?t = "s\<lparr>procs := woken (ChBufLock i) (procs s), bufs := B\<rparr>"
  have "bio_frame s ?t"
    by (rule bio_frameI[where ps = "woken (ChBufLock i) (procs s)" and B = B and D = "memdisk s" and W = "dwrites s"])
      (simp, rule woken_frame)
  moreover have "hbuf B c j" if "c \<noteq> bn" "hbuf (bufs s) c j" for c j
  proof -
    have "j \<noteq> i" using that assms(2) by (auto simp: hbuf_def)
    with core_eqD[OF r(4)[of j]] that(2) show ?thesis by (simp add: hbuf_def)
  qed
  ultimately show ?thesis using r(1-3) by (intro exI[of _ ?t]) (simp add: same_store_def hkeep_def)
qed

lemma bwrite_ex:
  assumes "bst s pid H P" "hbuf (bufs s) bn i" "bn < disksize s"
  shows "\<exists>s'. bwrite i s = Ok () s' \<and> bst s' pid H (P - {bn}) \<and> view s' = view s \<and> memdisk s' = (memdisk s)(bn := view s bn)
    \<and> dwrites s' = dwrites s @ [(bn, view s bn)] \<and> bio_frame s s' \<and> hkeep bn s s' \<and> hbuf (bufs s') bn i"
proof -
  let ?t = "s\<lparr>bufs := (bufs s)(i := (bufs s i)\<lparr>b_dirty := False\<rparr>),
      memdisk := (memdisk s)(bn := b_data (bufs s i)), dwrites := dwrites s @ [(bn, b_data (bufs s i))]\<rparr>"
  note w = bwrite_bst[OF assms] and v = hbufD(9)[OF assms(1,2)]
  have "bio_frame s ?t" by (rule bio_frameI[where ps = "procs s"]) simp_all
  moreover have "hkeep bn s ?t" by (auto simp: hbuf_def hkeep_def)
  ultimately show ?thesis using w v by (intro exI[of _ ?t]) simp
qed

lemma bdata_ex:
  fixes s :: "'a kbio_scheme" and f :: "bytes \<Rightarrow> bytes"
  assumes "bst s pid H P" "hbuf (bufs s) bn i"
  shows "\<exists>s'. kmod (upd_buf i (b_data_update f)) s = Ok () s' \<and> bst s' pid H P \<and> view s' = (view s)(bn := f (view s bn))
    \<and> memdisk s' = memdisk s \<and> dwrites s' = dwrites s \<and> bio_frame s s' \<and> hkeep bn s s' \<and> hbuf (bufs s') bn i"
proof -
  let ?t = "s\<lparr>bufs := (bufs s)(i := b_data_update f (bufs s i))\<rparr>"
  note u = bst_upd_held[OF assms, of "b_data_update f (bufs s i)"]
  have "(if b_dirty (bufs s i) then insert bn P else P - {bn}) = P" using hbuf_dirty[OF assms] by auto
  then have "bst ?t pid H P" using u(1) by simp
  moreover have "view ?t = (view s)(bn := f (view s bn))" using u(2) hbufD(9)[OF assms] by simp
  moreover have "bio_frame s ?t"
    by (rule bio_frameI[where ps = "procs s" and B = "(bufs s)(i := b_data_update f (bufs s i))" and D = "memdisk s" and W = "dwrites s"]) simp_all
  moreover have "hkeep bn s ?t" "hbuf (bufs ?t) bn i" using assms(2) by (auto simp: hbuf_def hkeep_def)
  ultimately show ?thesis by (intro exI[of _ ?t]) (simp add: upd_buf_def)
qed

lemma bdirty_ex:
  fixes s :: "'a kbio_scheme"
  assumes "bst s pid H P" "hbuf (bufs s) bn i"
  shows "\<exists>s'. kmod (upd_buf i (b_dirty_update (\<lambda>_. True))) s = Ok () s' \<and> bst s' pid H (insert bn P)
    \<and> same_store s s' \<and> hkeep bn s s' \<and> hbuf (bufs s') bn i"
proof -
  let ?t = "s\<lparr>bufs := (bufs s)(i := (bufs s i)\<lparr>b_dirty := True\<rparr>)\<rparr>"
  note u = bst_upd_held[OF assms, of "(bufs s i)\<lparr>b_dirty := True\<rparr>"]
  have "view ?t = view s" using u(2) hbufD(9)[OF assms] by (simp add: fun_upd_idem)
  moreover have "bio_frame s ?t"
    by (rule bio_frameI[where ps = "procs s" and B = "(bufs s)(i := (bufs s i)\<lparr>b_dirty := True\<rparr>)" and D = "memdisk s" and W = "dwrites s"]) simp_all
  moreover have "hkeep bn s ?t" "hbuf (bufs ?t) bn i" using assms(2) by (auto simp: hbuf_def hkeep_def)
  ultimately show ?thesis using u(1) by (intro exI[of _ ?t]) (simp add: upd_buf_def same_store_def)
qed

subsection \<open>Boot\<close>

definition buf_zero :: buf where
  "buf_zero = \<lparr>b_valid = False, b_dirty = False, b_dev = 0, b_blockno = 0,
     b_lock = \<lparr>sl_locked = False, sl_name = [], sl_pid = 0\<rparr>, b_refcnt = 0, b_prev = 0, b_next = 0, b_data = (\<lambda>_. 0)\<rparr>"

lemma binit_loop:
  assumes "n \<le> NBUF" "b_next (B NBUF) = NBUF" "b_prev (B NBUF) = NBUF"
  defines "B' \<equiv> foldl binit_body B [0..<n]"
  shows "seg B' NBUF (rev [0..<n]) NBUF
    \<and> (\<forall>i. core (B' i) = core (if i < n then (B i)\<lparr>b_lock := initsleeplock ''buffer'' (b_lock (B i))\<rparr> else B i))"
  using assms(1) unfolding B'_def
proof (induction n)
  case 0
  then show ?case using assms(2,3) by simp
next
  case (Suc n)
  define C where "C = foldl binit_body B [0..<n]"
  define C' where "C' = C(n := (C n)\<lparr>b_lock := initsleeplock ''buffer'' (b_lock (C n))\<rparr>)"
  have IH: "seg C NBUF (rev [0..<n]) NBUF"
    "core (C i) = core (if i < n then (B i)\<lparr>b_lock := initsleeplock ''buffer'' (b_lock (B i))\<rparr> else B i)" for i
    using Suc unfolding C_def by simp_all
  have "seg C' NBUF (rev [0..<n]) NBUF = seg C NBUF (rev [0..<n]) NBUF"
    by (rule seg_cong) (simp_all add: C'_def)
  with IH(1) have "seg (link_front n C') NBUF (n # rev [0..<n]) NBUF"
    using Suc.prems by (intro seg_link_front) auto
  moreover have "core (C' n) = core ((B n)\<lparr>b_lock := initsleeplock ''buffer'' (b_lock (B n))\<rparr>)"
  proof -
    have "core (C n) = core (B n)" using IH(2)[of n] by simp
    then show ?thesis unfolding C'_def core_def by (cases "C n"; cases "B n") simp
  qed
  then have "core (link_front n C' i) = core (if i < Suc n then (B i)\<lparr>b_lock := initsleeplock ''buffer'' (b_lock (B i))\<rparr> else B i)" for i
    using IH(2)[of i] by (cases "i = n") (auto simp: C'_def less_Suc_eq)
  moreover have "foldl binit_body B [0..<Suc n] = link_front n C'"
    by (simp add: C_def[symmetric] binit_body_def[of C n] C'_def)
  ultimately show ?case by simp
qed

lemma binit_zero:
  assumes "\<And>i. bufs s i = buf_zero"
  shows "lru (bufs (binit s)) (rev [0..<NBUF])"
    "\<not> b_valid (bufs (binit s) i)" "\<not> b_dirty (bufs (binit s) i)" "b_refcnt (bufs (binit s) i) = 0"
    "\<not> blocked (bufs (binit s) i)" "b_dev (bufs (binit s) i) = 0"
proof -
  let ?B = "(bufs s)(NBUF := (bufs s NBUF)\<lparr>b_prev := NBUF, b_next := NBUF\<rparr>)"
  note l = binit_loop[of NBUF ?B, simplified]
  have seg: "seg (bufs (binit s)) NBUF (rev [0..<NBUF]) NBUF" using l by (simp add: binit_def)
  then show "lru (bufs (binit s)) (rev [0..<NBUF])" by (auto simp: lru_def)
  have "core (bufs (binit s) i) = core (if i < NBUF then (?B i)\<lparr>b_lock := initsleeplock ''buffer'' (b_lock (?B i))\<rparr> else ?B i)" for i
    using l by (simp add: binit_def)
  then have "core (bufs (binit s) i) = core (if i < NBUF then buf_zero\<lparr>b_lock := initsleeplock ''buffer'' (b_lock buf_zero)\<rparr> else buf_zero)"
    using assms by simp
  note f = core_eqD[OF this]
  show "\<not> b_valid (bufs (binit s) i)" "\<not> b_dirty (bufs (binit s) i)" "b_refcnt (bufs (binit s) i) = 0"
    "\<not> blocked (bufs (binit s) i)" "b_dev (bufs (binit s) i) = 0"
    by (simp_all add: f initsleeplock_def buf_zero_def)
qed

lemma bst_binit:
  assumes "\<And>i. bufs s i = buf_zero" "klocks s = {}" "curproc s = Some p"
  shows "bst (binit s) (p_pid (procs s p)) {} {}" "view (binit s) = memdisk s"
proof -
  note z = binit_zero[of s, OF assms(1)]
  have "bufs_ok (bufs (binit s)) (memdisk (binit s))" unfolding bufs_ok_alt by (intro conjI exI[of _ "rev [0..<NBUF]"]) (simp_all add: buf_ok_def z)
  then show "bst (binit s) (p_pid (procs s p)) {} {}"
    using assms(2,3) by (intro bstI[where p = p]) (simp_all add: z, simp_all add: binit_def)
  have "cached (bufs (binit s)) bn = None" for bn by (simp add: cached_None z)
  then show "view (binit s) = memdisk s" by (simp add: fun_eq_iff cblk_def binit_def)
qed

subsection \<open>What the cache guarantees\<close>

text \<open>C17. Cache coherence. A process that holds the blocks \<open>H\<close> and asks \<^verbatim>\<open>bread\<close> for another one gets,
  unless every buffer is held or pinned, a locked buffer with the current contents of the block;
  no block changes its contents for any reader, and nothing is written to the disk.\<close>

theorem bread_coherent:
  assumes "bst s pid H P" "bn \<notin> H" "bn < disksize s" "bn \<in> P \<or> card (P \<union> H) < NBUF"
  shows "\<exists>i s'. bread 1 bn s = Ok i s' \<and> hbuf (bufs s') bn i \<and> b_data (bufs s' i) = view s bn
    \<and> view s' = view s \<and> memdisk s' = memdisk s \<and> dwrites s' = dwrites s \<and> bst s' pid (insert bn H) P"
proof -
  obtain i b' where "bread 1 bn s = Ok i (s\<lparr>bufs := (bufs s)(i := b')\<rparr>)"
    "bst (s\<lparr>bufs := (bufs s)(i := b')\<rparr>) pid (insert bn H) P" "hbuf ((bufs s)(i := b')) bn i"
    "b_data b' = view s bn" "view (s\<lparr>bufs := (bufs s)(i := b')\<rparr>) = view s" by (rule bread_bst[OF assms])
  then show ?thesis by (intro exI[of _ i] exI[of _ "s\<lparr>bufs := (bufs s)(i := b')\<rparr>"]) simp
qed

text \<open>C18. Replacement. When the block is not cached, \<^verbatim>\<open>bread\<close> recycles the least recently used
  buffer that is neither referenced nor marked dirty by the log, and panics exactly when there is
  none. Releasing a buffer makes it the most recently used one and keeps the order of the others.\<close>

theorem bio_replacement:
  assumes "bst s pid H P" "lru (bufs s) xs"
  shows "(bn < disksize s \<and> cached (bufs s) bn = None \<longrightarrow>
      (case List.find (\<lambda>b. b_refcnt (bufs s b) = 0 \<and> \<not> b_dirty (bufs s b)) (rev xs) of
         None \<Rightarrow> bread 1 bn s = Panic ''bget: no buffers''
       | Some i \<Rightarrow> \<exists>s'. bread 1 bn s = Ok i s' \<and> lru (bufs s') xs))
    \<and> (\<forall>i. hbuf (bufs s) bn i \<longrightarrow>
      (\<exists>s'. brelse i s = Ok () s' \<and> lru (bufs s') (i # filter (\<lambda>j. j \<noteq> i) xs)))"
proof (intro conjI impI allI, elim conjE)
  note b = bstD[OF assms(1)]
  obtain p where p: "curproc s = Some p" "p_pid (procs s p) = pid" using b(3) by blast
  assume bn: "bn < disksize s" and miss: "cached (bufs s) bn = None"
  note ch = bchoose_miss[OF assms(2) miss]
  show "case List.find (\<lambda>b. b_refcnt (bufs s b) = 0 \<and> \<not> b_dirty (bufs s b)) (rev xs) of
         None \<Rightarrow> bread 1 bn s = Panic ''bget: no buffers''
       | Some i \<Rightarrow> \<exists>s'. bread 1 bn s = Ok i s' \<and> lru (bufs s') xs"
  proof (cases "List.find (\<lambda>b. b_refcnt (bufs s b) = 0 \<and> \<not> b_dirty (bufs s b)) (rev xs)")
    case None
    have "List.find (\<lambda>b. b_dev (bufs s b) = 1 \<and> b_blockno (bufs s b) = bn) xs = None"
      using assms(2) miss by (auto simp: lru_def find_None_iff cached_None)
    with None b(2) have "bget 1 bn s = Panic ''bget: no buffers''"
      by (simp add: bget_def lru_walks[OF assms(2)])
    with None show ?thesis by (simp add: bread_def)
  next
    case (Some i)
    have "i < NBUF" "b_refcnt (bufs s i) = 0" "\<not> b_dirty (bufs s i)"
      using find_sat[OF Some] assms(2) by (auto simp: lru_def)
    moreover from this have "\<not> blocked (bufs s i)" using bufs_okD(3)[OF b(1), of i] by auto
    ultimately have "bread 1 bn s = Ok i (s\<lparr>bufs := (bufs s)(i := bfetch (p_pid (procs s p)) bn (memdisk s) (bufs s i))\<rparr>)"
      using bread_apply[OF assms(2) b(2) p(1) _ _ _ bn, of i] ch Some by simp
    moreover have "lru ((bufs s)(i := bfetch (p_pid (procs s p)) bn (memdisk s) (bufs s i))) xs"
      by (rule lru_links[OF assms(2)]) simp
    ultimately show ?thesis using Some by simp
  qed
next
  fix i assume h: "hbuf (bufs s) bn i"
  note b = bstD[OF assms(1)] and h' = hbufD(1-9)[OF assms(1) h]
  obtain p where p: "curproc s = Some p" "p_pid (procs s p) = pid" using b(3) by blast
  have "lru ((bufs s)(i := bdrop (bufs s i))) xs" by (rule lru_links[OF assms(2)]) simp
  from lru_front[OF this h'(1)] brelse_apply[OF b(2) p(1) h'(4)] h'(6,7) p(2)
  show "\<exists>s'. brelse i s = Ok () s' \<and> lru (bufs s') (i # filter (\<lambda>j. j \<noteq> i) xs)" by auto
qed

text \<open>A freshly booted cache in front of a disk of three blocks.\<close>

definition sample_bio :: kbio where
  "sample_bio = binit \<lparr>klocks = {}, procs = (\<lambda>_. proc_zero), curproc = Some 0, nextpid = 1, initproc = None,
     pmem = (\<lambda>_ _. 0), freelist = 0, use_lock = True, kend = 0, kdata = 0, kpgdir = 0, cr3 = 0, tss_esp0 = 0,
     bufs = (\<lambda>_. buf_zero), memdisk = (\<lambda>b _. of_nat b), disksize = 3, dwrites = []\<rparr>"

lemma sample_bio_zero:
  "lru (bufs sample_bio) (rev [0..<NBUF])" "b_refcnt (bufs sample_bio i) = 0" "\<not> b_dirty (bufs sample_bio i)"
  "cached (bufs sample_bio) bn = None" "disksize sample_bio = 3"
  unfolding sample_bio_def by (simp_all add: binit_zero cached_None) (simp add: binit_def)

lemma sample_bio_bst: "bst sample_bio 0 {} {}" "view sample_bio = (\<lambda>b _. of_nat b)"
  using bst_binit[of "\<lparr>klocks = {}, procs = (\<lambda>_. proc_zero), curproc = Some 0, nextpid = 1, initproc = None,
     pmem = (\<lambda>_ _. 0), freelist = 0, use_lock = True, kend = 0, kdata = 0, kpgdir = 0, cr3 = 0, tss_esp0 = 0,
     bufs = (\<lambda>_. buf_zero), memdisk = (\<lambda>b _. of_nat b), disksize = 3, dwrites = []\<rparr>" 0]
  unfolding sample_bio_def by (simp_all add: proc_zero_def)

theorem bread_coherent_witness: "\<exists>i s'. bread 1 2 sample_bio = Ok i s' \<and> b_data (bufs s' i) = (\<lambda>_. 2)"
  using bread_coherent[OF sample_bio_bst(1), of 2] by (auto simp: sample_bio_bst sample_bio_zero NBUF_def MAXOPBLOCKS_def)

theorem bio_replacement_witness: "\<exists>s'. bread 1 2 sample_bio = Ok 0 s'"
proof -
  have "[0..<NBUF] = 0 # [1..<NBUF]" by (simp add: NBUF_def MAXOPBLOCKS_def upt_rec)
  with bio_replacement[OF sample_bio_bst(1) sample_bio_zero(1), of 2] show ?thesis by (auto simp: sample_bio_zero)
qed

end
