(* ===== verification/Log.thy ===== *)
theory Log
  imports Bio
begin

text \<open>
  The redo log: \<^verbatim>\<open>src/xv6/log.c\<close>, and \<^verbatim>\<open>readsb\<close> of \<^verbatim>\<open>src/xv6/fs.c\<close>.

  The log region starts with the header block, followed by the logged copies. A transaction is
  the set of blocks that \<^verbatim>\<open>log_write\<close> has pinned in the cache; \<^verbatim>\<open>commit\<close> writes their copies to the log,
  then the header, then the home blocks, then the cleared header.

  Shown: what each step does to the disk and to the contents readers see; that a crash after any
  of the writes of a commit, followed by recovery at boot, leaves outside the log either all of the
  old or all of the new contents (atomicity), also when recovery itself is interrupted; the
  admission rule of \<^verbatim>\<open>begin_op\<close>; absorption in \<^verbatim>\<open>log_write\<close>.
\<close>

subsection \<open>State\<close>

record superblock =
  sb_size :: nat
  sb_nblocks :: nat
  sb_ninodes :: nat
  sb_nlog :: nat
  sb_logstart :: nat
  sb_inodestart :: nat
  sb_bmapstart :: nat

record klog = kbio +
  log_start :: nat
  log_size :: int
  log_outstanding :: int
  log_committing :: bool
  log_dev :: nat
  lh_n :: int
  lh_block :: "nat \<Rightarrow> nat"

subsection \<open>Operations\<close>

text \<open>Word \<open>i\<close> of a block.\<close>

definition bword :: "bytes \<Rightarrow> nat \<Rightarrow> nat" where
  "bword d i = unat (rd32 d (4 * i))"

definition sb_of :: "bytes \<Rightarrow> superblock" where
  "sb_of d = \<lparr>sb_size = bword d 0, sb_nblocks = bword d 1, sb_ninodes = bword d 2, sb_nlog = bword d 3,
     sb_logstart = bword d 4, sb_inodestart = bword d 5, sb_bmapstart = bword d 6\<rparr>"

definition readsb :: "nat \<Rightarrow> (superblock, 'a kbio_scheme) kop" where
  "readsb dev =
     kbind (bread dev 1) (\<lambda>bp.
     kbind (kget (\<lambda>s. sb_of (b_data (bufs s bp)))) (\<lambda>sb.
     kthen (brelse bp) (kret sb)))"

definition install_trans_body :: "nat \<Rightarrow> (unit, 'a klog_scheme) kop" where
  "install_trans_body tail =
     kbind (kget (\<lambda>s. s)) (\<lambda>s0.
     kbind (bread (log_dev s0) (log_start s0 + tail + 1)) (\<lambda>lbuf.
     kbind (bread (log_dev s0) (lh_block s0 tail)) (\<lambda>dbuf.
     kthen (kmod (\<lambda>s. upd_buf dbuf (b_data_update (\<lambda>_. b_data (bufs s lbuf))) s)) (
     kthen (bwrite dbuf) (
     kthen (brelse lbuf) (brelse dbuf))))))"

definition install_trans :: "(unit, 'a klog_scheme) kop" where
  "install_trans = kbind (kget lh_n) (\<lambda>n. kfor [0..<nat n] install_trans_body)"

definition read_head :: "(unit, 'a klog_scheme) kop" where
  "read_head =
     kbind (kget (\<lambda>s. s)) (\<lambda>s0.
     kbind (bread (log_dev s0) (log_start s0)) (\<lambda>buf.
     kbind (kget (\<lambda>s. b_data (bufs s buf))) (\<lambda>lh.
     kthen (kmod (lh_n_update (\<lambda>_. sint (rd32 lh 0)))) (
     kthen (kbind (kget lh_n) (\<lambda>n. kfor [0..<nat n]
              (\<lambda>i. kmod (lh_block_update (\<lambda>f. f(i := bword lh (i + 1)))))))
       (brelse buf)))))"

definition write_head :: "(unit, 'a klog_scheme) kop" where
  "write_head =
     kbind (kget (\<lambda>s. s)) (\<lambda>s0.
     kbind (bread (log_dev s0) (log_start s0)) (\<lambda>buf.
     kthen (kmod (upd_buf buf (b_data_update (\<lambda>d. wr32 d 0 (word_of_int (lh_n s0)))))) (
     kthen (kfor [0..<nat (lh_n s0)] (\<lambda>i. kmod (upd_buf buf (b_data_update
              (\<lambda>d. wr32 d (4 * (i + 1)) (word_of_nat (lh_block s0 i)))))))
       (kthen (bwrite buf) (brelse buf)))))"

definition recover_from_log :: "(unit, 'a klog_scheme) kop" where
  "recover_from_log =
     kthen read_head (
     kthen install_trans (
     kthen (kmod (lh_n_update (\<lambda>_. 0))) write_head))"

text \<open>\<^verbatim>\<open>sizeof(struct logheader)\<close> is \<open>4 + 4 * LOGSIZE\<close>.\<close>

definition initlog :: "nat \<Rightarrow> (unit, 'a klog_scheme) kop" where
  "initlog dev =
     (if BSIZE \<le> 4 + 4 * LOGSIZE then kpanic ''initlog: too big logheader'' else
      kbind (readsb dev) (\<lambda>sb.
      kthen (kmod (\<lambda>s. s\<lparr>log_start := sb_logstart sb, log_size := int (sb_nlog sb), log_dev := dev\<rparr>))
        recover_from_log))"

text \<open>From the head of the \<^verbatim>\<open>while\<close> loop of \<^verbatim>\<open>begin_op\<close>; a sleeper comes back here.\<close>

definition begin_op_loop :: "(unit, 'a klog_scheme) kop" where
  "begin_op_loop =
     kbind (kget (\<lambda>s. s)) (\<lambda>s.
     if log_committing s then sleep ChLog (Some LLog)
     else if int LOGSIZE < lh_n s + (log_outstanding s + 1) * int MAXOPBLOCKS then sleep ChLog (Some LLog)
     else kthen (kmod (log_outstanding_update (\<lambda>n. n + 1))) (release LLog))"

definition begin_op :: "(unit, 'a klog_scheme) kop" where
  "begin_op = kthen (acquire LLog) begin_op_loop"

definition write_log_body :: "nat \<Rightarrow> (unit, 'a klog_scheme) kop" where
  "write_log_body tail =
     kbind (kget (\<lambda>s. s)) (\<lambda>s0.
     kbind (bread (log_dev s0) (log_start s0 + tail + 1)) (\<lambda>to.
     kbind (bread (log_dev s0) (lh_block s0 tail)) (\<lambda>from.
     kthen (kmod (\<lambda>s. upd_buf to (b_data_update (\<lambda>_. b_data (bufs s from))) s)) (
     kthen (bwrite to) (
     kthen (brelse from) (brelse to))))))"

definition write_log :: "(unit, 'a klog_scheme) kop" where
  "write_log = kbind (kget lh_n) (\<lambda>n. kfor [0..<nat n] write_log_body)"

definition commit :: "(unit, 'a klog_scheme) kop" where
  "commit =
     kbind (kget lh_n) (\<lambda>n.
     if 0 < n then
       kthen write_log (
       kthen write_head (
       kthen install_trans (
       kthen (kmod (lh_n_update (\<lambda>_. 0))) write_head)))
     else kret ())"

definition end_op :: "(unit, 'a klog_scheme) kop" where
  "end_op =
     kthen (acquire LLog) (
     kthen (kmod (log_outstanding_update (\<lambda>n. n - 1))) (
     kbind (kget (\<lambda>s. s)) (\<lambda>s.
     if log_committing s then kpanic ''log.committing'' else
     kbind (if log_outstanding s = 0
            then kthen (kmod (log_committing_update (\<lambda>_. True))) (kret True)
            else kthen (wakeup ChLog) (kret False)) (\<lambda>do_commit.
     kthen (release LLog) (
     if do_commit then
       kthen commit (
       kthen (acquire LLog) (
       kthen (kmod (log_committing_update (\<lambda>_. False))) (
       kthen (wakeup ChLog) (release LLog))))
     else kret ())))))"

definition log_slot :: "'a klog_scheme \<Rightarrow> nat \<Rightarrow> nat" where
  "log_slot s bn = (case List.find (\<lambda>i. lh_block s i = bn) [0..<nat (lh_n s)] of
     Some i \<Rightarrow> i | None \<Rightarrow> nat (lh_n s))"

definition log_write :: "nat \<Rightarrow> (unit, 'a klog_scheme) kop" where
  "log_write b =
     kbind (kget (\<lambda>s. s)) (\<lambda>s.
     if int LOGSIZE \<le> lh_n s \<or> log_size s - 1 \<le> lh_n s then kpanic ''too big a transaction'' else
     if log_outstanding s < 1 then kpanic ''log_write outside of trans'' else
     kthen (acquire LLog) (
     kbind (kget (\<lambda>s. (log_slot s (b_blockno (bufs s b)), b_blockno (bufs s b)))) (\<lambda>(i, bn).
     kthen (kmod (lh_block_update (\<lambda>f. f(i := bn)))) (
     kthen (kmod (\<lambda>s. if i = nat (lh_n s) then s\<lparr>lh_n := lh_n s + 1\<rparr> else s)) (
     kthen (kmod (upd_buf b (b_dirty_update (\<lambda>_. True)))) (release LLog))))))"

subsection \<open>The blocks of the transaction\<close>

definition log_blocks :: "'a klog_scheme \<Rightarrow> nat list" where
  "log_blocks s = map (lh_block s) [0..<nat (lh_n s)]"

lemma bio_frame_log:
  assumes "bio_frame s s'"
  shows "log_start s' = log_start s" "log_size s' = log_size s" "log_outstanding s' = log_outstanding s"
    "log_committing s' = log_committing s" "log_dev s' = log_dev s" "lh_n s' = lh_n s" "lh_block s' = lh_block s"
    "klog.more s' = klog.more s"
  using assms by (auto simp: bio_frame_def)

lemma bst_log_fields [simp]:
  "bst (s\<lparr>lh_n := n\<rparr>) pid H P = bst s pid H P" "bst (s\<lparr>lh_block := blk\<rparr>) pid H P = bst s pid H P"
  "bst (s\<lparr>log_outstanding := n\<rparr>) pid H P = bst s pid H P" "bst (s\<lparr>log_committing := c\<rparr>) pid H P = bst s pid H P"
  "bst (s\<lparr>log_start := st\<rparr>) pid H P = bst s pid H P" "bst (s\<lparr>log_size := n\<rparr>) pid H P = bst s pid H P"
  "bst (s\<lparr>log_dev := d\<rparr>) pid H P = bst s pid H P"
  by (simp_all add: bst_def)

lemma bio_frame_lh_n: "bio_frame s t \<Longrightarrow> bio_frame (s\<lparr>lh_n := n\<rparr>) (t\<lparr>lh_n := n\<rparr>)"
proof -
  assume "bio_frame s t"
  then obtain ps B D W where t: "t = s\<lparr>procs := ps, bufs := B, memdisk := D, dwrites := W\<rparr>"
    "\<And>i. ps i = (procs s i)\<lparr>p_state := p_state (ps i)\<rparr>" unfolding bio_frame_def by blast
  show ?thesis by (rule bio_frameI[where ps = ps and B = B and D = D and W = W]) (simp add: t(1), simp, rule t(2))
qed

text \<open>\<open>log_ok s\<close>: the log occupies blocks of the disk, and the blocks of the transaction are
  distinct blocks of the disk outside the log.\<close>

definition log_ok :: "'a klog_scheme \<Rightarrow> bool" where
  "log_ok s \<longleftrightarrow> log_dev s = 1 \<and> 0 \<le> lh_n s \<and> lh_n s \<le> int LOGSIZE \<and> lh_n s < log_size s
     \<and> int (log_start s) + log_size s \<le> int (disksize s) \<and> disksize s < 2 ^ 32 \<and> distinct (log_blocks s)
     \<and> (\<forall>b\<in>set (log_blocks s). b < disksize s \<and> (b < log_start s \<or> int (log_start s) + log_size s \<le> int b))"

lemma log_okD:
  assumes "log_ok s"
  shows "log_dev s = 1" "0 \<le> lh_n s" "nat (lh_n s) \<le> LOGSIZE" "distinct (log_blocks s)"
    "t \<le> nat (lh_n s) \<Longrightarrow> log_start s + t < disksize s"
    "t < nat (lh_n s) \<Longrightarrow> lh_block s t < disksize s"
    "t < nat (lh_n s) \<Longrightarrow> u \<le> nat (lh_n s) \<Longrightarrow> lh_block s t \<noteq> log_start s + u"
    "t < nat (lh_n s) \<Longrightarrow> lh_block s t \<in> set (log_blocks s)"
    "u \<le> nat (lh_n s) \<Longrightarrow> log_start s + u \<notin> set (log_blocks s)"
    "length (log_blocks s) = nat (lh_n s)"
proof -
  note L = assms[unfolded log_ok_def]
  show "log_dev s = 1" "0 \<le> lh_n s" "nat (lh_n s) \<le> LOGSIZE" "distinct (log_blocks s)" using L by auto
  show "t \<le> nat (lh_n s) \<Longrightarrow> log_start s + t < disksize s" using L by linarith
  show m: "t < nat (lh_n s) \<Longrightarrow> lh_block s t \<in> set (log_blocks s)" for t by (simp add: log_blocks_def)
  show "t < nat (lh_n s) \<Longrightarrow> lh_block s t < disksize s" using L m by blast
  have out: "log_start s + u \<noteq> b" if "b \<in> set (log_blocks s)" "u \<le> nat (lh_n s)" for b u
  proof -
    have "b < log_start s \<or> int (log_start s) + log_size s \<le> int b" using L that(1) by blast
    moreover have "int u < log_size s" using L that(2) by linarith
    ultimately show ?thesis by linarith
  qed
  show "t < nat (lh_n s) \<Longrightarrow> u \<le> nat (lh_n s) \<Longrightarrow> lh_block s t \<noteq> log_start s + u" using out[OF m] by force
  show "u \<le> nat (lh_n s) \<Longrightarrow> log_start s + u \<notin> set (log_blocks s)" using out by blast
  show "length (log_blocks s) = nat (lh_n s)" by (simp add: log_blocks_def)
qed

subsection \<open>One block of the log at a time\<close>

lemma write_log_body_ex:
  assumes "bst s pid {} P" "log_dev s = 1" "lh_block s t \<in> P" "log_start s + t + 1 \<notin> P"
    "log_start s + t + 1 < disksize s" "lh_block s t < disksize s" "card P < NBUF"
  shows "\<exists>s'. write_log_body t s = Ok () s' \<and> bst s' pid {} P \<and> bio_frame s s'
    \<and> view s' = (view s)(log_start s + t + 1 := view s (lh_block s t))
    \<and> memdisk s' = (memdisk s)(log_start s + t + 1 := view s (lh_block s t))
    \<and> dwrites s' = dwrites s @ [(log_start s + t + 1, view s (lh_block s t))]"
proof -
  define l h where "l = log_start s + t + 1" and "h = lh_block s t"
  have lh: "l \<notin> P" "h \<in> P" "h \<noteq> l" "l \<noteq> h" "l < disksize s" "h < disksize s" using assms unfolding l_def h_def by auto
  obtain i s1 where 1: "bread 1 l s = Ok i s1" "bst s1 pid {l} P" "hbuf (bufs s1) l i" "same_store s s1" "hkeep l s s1"
    using bread_ex[OF assms(1), of l] lh assms(7) by auto
  note S1 = same_storeD[OF 1(4)]
  obtain j s2 where 2: "bread 1 h s1 = Ok j s2" "bst s2 pid {h, l} P" "hbuf (bufs s2) h j" "same_store s1 s2" "hkeep h s1 s2"
    using bread_ex[OF 1(2), of h] lh S1(5) by auto
  note S2 = same_storeD[OF 2(4)]
  have i2: "hbuf (bufs s2) l i" using hkeepD[OF 2(5) 1(3)] lh by simp
  have data: "b_data (bufs s2 j) = view s h" using hbufD(9)[OF 2(2,3)] S1 S2 by simp
  obtain s3 where 3: "upd_buf i (b_data_update (\<lambda>_. b_data (bufs s2 j))) s2 = s3" "bst s3 pid {h, l} P"
    "view s3 = (view s2)(l := view s h)" "memdisk s3 = memdisk s2" "dwrites s3 = dwrites s2" "bio_frame s2 s3" "hkeep l s2 s3"
    "hbuf (bufs s3) l i"
    using bdata_ex[OF 2(2) i2, of "\<lambda>_. b_data (bufs s2 j)"] data by auto
  have "l < disksize s3" using bio_frame_sel(5)[OF 3(6)] S1 S2 lh by simp
  then obtain s4 where 4: "bwrite i s3 = Ok () s4" "bst s4 pid {h, l} (P - {l})" "view s4 = view s3"
    "memdisk s4 = (memdisk s3)(l := view s3 l)" "dwrites s4 = dwrites s3 @ [(l, view s3 l)]" "bio_frame s3 s4" "hkeep l s3 s4" "hbuf (bufs s4) l i"
    using bwrite_ex[OF 3(2,8)] by auto
  have j4: "hbuf (bufs s4) h j" using hkeepD[OF 4(7) hkeepD[OF 3(7) 2(3)]] lh by simp
  have P: "P - {l} = P" using lh by simp
  obtain s5 where 5: "brelse j s4 = Ok () s5" "bst s5 pid {l} P" "same_store s4 s5" "hkeep h s4 s5"
    using brelse_ex[OF 4(2) j4] lh P by auto
  note S5 = same_storeD[OF 5(3)]
  have i5: "hbuf (bufs s5) l i" using hkeepD[OF 5(4) 4(8)] lh by simp
  obtain s6 where 6: "brelse i s5 = Ok () s6" "bst s6 pid {} P" "same_store s5 s6"
    using brelse_ex[OF 5(2) i5] S5 4 by auto
  note S6 = same_storeD[OF 6(3)]
  have "write_log_body t s = Ok () s6"
    using 1 2 3(1) 4 5 6 by (simp add: write_log_body_def assms(2) l_def h_def)
  moreover have "bio_frame s s6" using S1(4) S2(4) 3(6) 4(6) S5(4) S6(4) bio_frame_trans by metis
  ultimately show ?thesis
    using 6(2) S1 S2 3 4 S5 S6 unfolding l_def[symmetric] h_def[symmetric] by (intro exI[of _ s6]) simp
qed

lemma install_trans_body_ex:
  assumes "bst s pid {} P" "log_dev s = 1" "log_start s + t + 1 \<notin> P" "lh_block s t \<noteq> log_start s + t + 1"
    "log_start s + t + 1 < disksize s" "lh_block s t < disksize s" "card P < NBUF" "lh_block s t \<in> P \<or> Suc (card P) < NBUF"
  shows "\<exists>s'. install_trans_body t s = Ok () s' \<and> bst s' pid {} (P - {lh_block s t}) \<and> bio_frame s s'
    \<and> view s' = (view s)(lh_block s t := view s (log_start s + t + 1))
    \<and> memdisk s' = (memdisk s)(lh_block s t := view s (log_start s + t + 1))
    \<and> dwrites s' = dwrites s @ [(lh_block s t, view s (log_start s + t + 1))]"
proof -
  define l h where "l = log_start s + t + 1" and "h = lh_block s t"
  have lh: "l \<notin> P" "h \<noteq> l" "l \<noteq> h" "l < disksize s" "h < disksize s" using assms unfolding l_def h_def by auto
  obtain i s1 where 1: "bread 1 l s = Ok i s1" "bst s1 pid {l} P" "hbuf (bufs s1) l i" "same_store s s1" "hkeep l s s1"
    using bread_ex[OF assms(1), of l] lh assms(7) by auto
  note S1 = same_storeD[OF 1(4)]
  have "h \<in> P \<or> card (P \<union> {l}) < NBUF" using assms(8) card_insert_le_m1[of "Suc (card P)" P l] unfolding h_def by (auto simp: card_insert_if)
  then obtain j s2 where 2: "bread 1 h s1 = Ok j s2" "bst s2 pid {h, l} P" "hbuf (bufs s2) h j" "same_store s1 s2" "hkeep h s1 s2"
    using bread_ex[OF 1(2), of h] lh S1(5) by auto
  note S2 = same_storeD[OF 2(4)]
  have i2: "hbuf (bufs s2) l i" using hkeepD[OF 2(5) 1(3)] lh by simp
  have data: "b_data (bufs s2 i) = view s l" using hbufD(9)[OF 2(2) i2] S1 S2 by simp
  obtain s3 where 3: "upd_buf j (b_data_update (\<lambda>_. b_data (bufs s2 i))) s2 = s3" "bst s3 pid {h, l} P"
    "view s3 = (view s2)(h := view s l)" "memdisk s3 = memdisk s2" "dwrites s3 = dwrites s2" "bio_frame s2 s3" "hkeep h s2 s3"
    "hbuf (bufs s3) h j"
    using bdata_ex[OF 2(2,3), of "\<lambda>_. b_data (bufs s2 i)"] data by auto
  have "h < disksize s3" using bio_frame_sel(5)[OF 3(6)] S1 S2 lh by simp
  then obtain s4 where 4: "bwrite j s3 = Ok () s4" "bst s4 pid {h, l} (P - {h})" "view s4 = view s3"
    "memdisk s4 = (memdisk s3)(h := view s3 h)" "dwrites s4 = dwrites s3 @ [(h, view s3 h)]" "bio_frame s3 s4" "hkeep h s3 s4" "hbuf (bufs s4) h j"
    using bwrite_ex[OF 3(2,8)] by auto
  have i4: "hbuf (bufs s4) l i" using hkeepD[OF 4(7) hkeepD[OF 3(7) i2]] lh by simp
  have "view s l = memdisk s l" "{h, l} - {l} = {h}" using view_clean[OF assms(1)] lh by auto
  then obtain s5 where 5: "brelse i s4 = Ok () s5" "bst s5 pid {h} (P - {h})" "same_store s4 s5" "hkeep l s4 s5"
    using brelse_ex[OF 4(2) i4] lh 4 3 S2 S1 by auto
  note S5 = same_storeD[OF 5(3)]
  have j5: "hbuf (bufs s5) h j" using hkeepD[OF 5(4) 4(8)] lh by simp
  obtain s6 where 6: "brelse j s5 = Ok () s6" "bst s6 pid {} (P - {h})" "same_store s5 s6"
    using brelse_ex[OF 5(2) j5] S5 4 by auto
  note S6 = same_storeD[OF 6(3)]
  have "install_trans_body t s = Ok () s6"
    using 1 2 3(1) 4 5 6 by (simp add: install_trans_body_def assms(2) l_def h_def)
  moreover have "bio_frame s s6" using S1(4) S2(4) 3(6) 4(6) S5(4) S6(4) bio_frame_trans by metis
  ultimately show ?thesis
    using 6(2) S1 S2 3 4 S5 S6 unfolding l_def[symmetric] h_def[symmetric] by (intro exI[of _ s6]) simp
qed

subsection \<open>The loops\<close>

text \<open>Writes in order.\<close>

primrec wr_list :: "(nat \<Rightarrow> bytes) \<Rightarrow> (nat \<times> bytes) list \<Rightarrow> (nat \<Rightarrow> bytes)" where
  "wr_list D [] = D"
| "wr_list D (w # ws) = wr_list (D(fst w := snd w)) ws"

lemma wr_list_append: "wr_list D (ws @ vs) = wr_list (wr_list D ws) vs"
  by (induction ws arbitrary: D) simp_all

lemma wr_list_snoc: "wr_list D (ws @ [(b, x)]) = (wr_list D ws)(b := x)"
  by (simp add: wr_list_append)

lemma wr_list_other: "b \<notin> fst ` set ws \<Longrightarrow> wr_list D ws b = D b"
  by (induction ws arbitrary: D) auto

definition log_copies :: "'a klog_scheme \<Rightarrow> nat \<Rightarrow> (nat \<times> bytes) list" where
  "log_copies s k = map (\<lambda>t. (log_start s + t + 1, view s (lh_block s t))) [0..<k]"

definition log_homes :: "'a klog_scheme \<Rightarrow> nat \<Rightarrow> (nat \<times> bytes) list" where
  "log_homes s k = map (\<lambda>t. (lh_block s t, view s (log_start s + t + 1))) [0..<k]"

lemma fst_log_copies: "fst ` set (log_copies s k) = {log_start s + 1..<log_start s + 1 + k}"
proof -
  have "(\<lambda>t. log_start s + t + 1) ` {0..<k} = {log_start s + 1..<log_start s + 1 + k}"
    using image_add_atLeastLessThan[of "log_start s + 1" 0 k] by (simp add: add.commute add.left_commute)
  then show ?thesis by (simp add: log_copies_def image_image)
qed

lemma fst_log_homes: "fst ` set (log_homes s k) = lh_block s ` {0..<k}"
  by (simp add: log_homes_def image_image)

lemma write_log_loop:
  assumes "bst s pid {} P" "log_ok s" "set (log_blocks s) \<subseteq> P" "\<And>u. u \<le> nat (lh_n s) \<Longrightarrow> log_start s + u \<notin> P"
    "card P < NBUF" "k \<le> nat (lh_n s)"
  shows "\<exists>s'. kfor [0..<k] write_log_body s = Ok () s' \<and> bst s' pid {} P \<and> bio_frame s s'
    \<and> view s' = wr_list (view s) (log_copies s k) \<and> memdisk s' = wr_list (memdisk s) (log_copies s k)
    \<and> dwrites s' = dwrites s @ log_copies s k"
  using assms(6)
proof (induction k)
  case 0
  then show ?case using assms(1) by (simp add: log_copies_def)
next
  case (Suc k)
  then obtain s1 where s1: "kfor [0..<k] write_log_body s = Ok () s1" "bst s1 pid {} P" "bio_frame s s1"
    "view s1 = wr_list (view s) (log_copies s k)" "memdisk s1 = wr_list (memdisk s) (log_copies s k)"
    "dwrites s1 = dwrites s @ log_copies s k" by auto
  note L = log_okD[OF assms(2)] and F = bio_frame_log[OF s1(3)] bio_frame_sel(5)[OF s1(3)]
  have k: "k < nat (lh_n s)" using Suc.prems by simp
  have "lh_block s k \<notin> {log_start s + 1..<log_start s + 1 + k}"
  proof
    assume "lh_block s k \<in> {log_start s + 1..<log_start s + 1 + k}"
    then have "lh_block s k - log_start s \<le> nat (lh_n s)" "lh_block s k = log_start s + (lh_block s k - log_start s)"
      using k by auto
    with L(7)[OF k] show False by blast
  qed
  then have v: "view s1 (lh_block s k) = view s (lh_block s k)"
    unfolding s1(4) by (intro wr_list_other) (simp add: fst_log_copies)
  have pre: "lh_block s1 k \<in> P" "log_start s1 + k + 1 \<notin> P" "log_start s1 + k + 1 < disksize s1" "lh_block s1 k < disksize s1" "log_dev s1 = 1"
    using L(1) L(6,8)[OF k] L(5)[of "Suc k"] assms(3) assms(4)[of "Suc k"] k F by auto
  obtain s2 where s2: "write_log_body k s1 = Ok () s2" "bst s2 pid {} P" "bio_frame s1 s2"
    "view s2 = (view s1)(log_start s + k + 1 := view s (lh_block s k))"
    "memdisk s2 = (memdisk s1)(log_start s + k + 1 := view s (lh_block s k))"
    "dwrites s2 = dwrites s1 @ [(log_start s + k + 1, view s (lh_block s k))]"
    using write_log_body_ex[OF s1(2) pre(5,1-4) assms(5)] v F by auto
  have "log_copies s (Suc k) = log_copies s k @ [(log_start s + k + 1, view s (lh_block s k))]" by (simp add: log_copies_def)
  moreover have "kfor [0..<Suc k] write_log_body s = Ok () s2" using s1(1) s2(1) by (simp add: kfor_append kthen_def)
  ultimately show ?case using s1 s2 bio_frame_trans[OF s1(3) s2(3)] by (intro exI[of _ s2]) (simp only: wr_list_snoc append_assoc simp_thms)
qed

lemma bst_finite: "bst s pid H P \<Longrightarrow> finite P"
  using bstD(4)[of s pid H P] by simp

lemma install_trans_loop:
  assumes "bst s pid {} P" "log_ok s" "set (log_blocks s) \<subseteq> P \<or> Suc (card P) < NBUF" "\<And>u. u \<le> nat (lh_n s) \<Longrightarrow> log_start s + u \<notin> P"
    "card P < NBUF" "k \<le> nat (lh_n s)"
  shows "\<exists>s'. kfor [0..<k] install_trans_body s = Ok () s' \<and> bst s' pid {} (P - lh_block s ` {0..<k}) \<and> bio_frame s s'
    \<and> view s' = wr_list (view s) (log_homes s k) \<and> memdisk s' = wr_list (memdisk s) (log_homes s k)
    \<and> dwrites s' = dwrites s @ log_homes s k"
  using assms(6)
proof (induction k)
  case 0
  then show ?case using assms(1) by (simp add: log_homes_def)
next
  case (Suc k)
  define Q where "Q = P - lh_block s ` {0..<k}"
  obtain s1 where s1: "kfor [0..<k] install_trans_body s = Ok () s1" "bst s1 pid {} Q" "bio_frame s s1"
    "view s1 = wr_list (view s) (log_homes s k)" "memdisk s1 = wr_list (memdisk s) (log_homes s k)"
    "dwrites s1 = dwrites s @ log_homes s k" using Suc unfolding Q_def by auto
  note L = log_okD[OF assms(2)] and F = bio_frame_log[OF s1(3)] bio_frame_sel(5)[OF s1(3)]
  have k: "k < nat (lh_n s)" using Suc.prems by simp
  have "log_start s + Suc k \<noteq> lh_block s j" if "j < k" for j using L(7)[of j "Suc k"] k that by simp
  then have "log_start s + Suc k \<notin> lh_block s ` {0..<k}" by (metis atLeastLessThan_iff imageE)
  then have v: "view s1 (log_start s + k + 1) = view s (log_start s + k + 1)"
    unfolding s1(4) by (intro wr_list_other) (simp add: fst_log_homes)
  have card: "card Q \<le> card P" unfolding Q_def using bst_finite[OF assms(1)] by (intro card_mono) auto
  have "lh_block s k \<notin> lh_block s ` {0..<k}"
    using L(4) k unfolding log_blocks_def by (force simp: distinct_map inj_on_def)
  then have h: "lh_block s k \<in> Q \<or> Suc (card Q) < NBUF" using assms(3) L(8)[OF k] card unfolding Q_def by auto
  have pre: "log_start s1 + k + 1 \<notin> Q" "lh_block s1 k \<noteq> log_start s1 + k + 1" "log_start s1 + k + 1 < disksize s1"
    "lh_block s1 k < disksize s1" "log_dev s1 = 1" "lh_block s1 k \<in> Q \<or> Suc (card Q) < NBUF" "card Q < NBUF"
    using L(1) L(6)[OF k] L(5)[of "Suc k"] L(7)[OF k, of "Suc k"] assms(4)[of "Suc k"] assms(5) k F h card unfolding Q_def by auto
  obtain s2 where s2: "install_trans_body k s1 = Ok () s2" "bst s2 pid {} (Q - {lh_block s k})" "bio_frame s1 s2"
    "view s2 = (view s1)(lh_block s k := view s (log_start s + k + 1))"
    "memdisk s2 = (memdisk s1)(lh_block s k := view s (log_start s + k + 1))"
    "dwrites s2 = dwrites s1 @ [(lh_block s k, view s (log_start s + k + 1))]"
    using install_trans_body_ex[OF s1(2) pre(5,1-4,7,6)] v F by auto
  have "log_homes s (Suc k) = log_homes s k @ [(lh_block s k, view s (log_start s + k + 1))]" by (simp add: log_homes_def)
  moreover have "kfor [0..<Suc k] install_trans_body s = Ok () s2" using s1(1) s2(1) by (simp add: kfor_append)
  moreover have "Q - {lh_block s k} = P - lh_block s ` {0..<Suc k}" unfolding Q_def by (auto simp: less_Suc_eq)
  ultimately show ?case using s1 s2 bio_frame_trans[OF s1(3) s2(3)] by (intro exI[of _ s2]) (simp only: wr_list_snoc append_assoc simp_thms)
qed

subsection \<open>The header block\<close>

definition put_head :: "int \<Rightarrow> (nat \<Rightarrow> nat) \<Rightarrow> bytes \<Rightarrow> bytes" where
  "put_head n blk d = foldl (\<lambda>d i. wr32 d (4 * (i + 1)) (word_of_nat (blk i))) (wr32 d 0 (word_of_int n)) [0..<nat n]"

lemma put_head_words:
  assumes "i < k"
  shows "rd32 (foldl (\<lambda>d i. wr32 d (4 * (i + 1)) (word_of_nat (blk i))) d [0..<k]) (4 * (i + 1)) = word_of_nat (blk i)"
  using assms
proof (induction k)
  case (Suc k)
  show ?case
  proof (cases "i = k")
    case False
    then have "rd32 (wr32 m (4 * (k + 1)) v) (4 * (i + 1)) = rd32 m (4 * (i + 1))" for m v
      using Suc.prems by (intro rd32_wr32_other) auto
    with False Suc show ?thesis by simp
  qed (simp del: mult_Suc_right)
qed simp

lemma put_head_n: "rd32 (put_head n blk d) 0 = word_of_int n"
proof -
  have "rd32 (foldl (\<lambda>d i. wr32 d (4 * (i + 1)) (word_of_nat (blk i))) d [0..<k]) 0 = rd32 d 0" for k d
    by (induction k) (simp_all add: rd32_wr32_other)
  then show ?thesis by (simp add: put_head_def)
qed

lemma put_head_decode:
  assumes "0 \<le> n" "n \<le> int LOGSIZE"
  shows "sint (rd32 (put_head n blk d) 0) = n"
    and "i < nat n \<Longrightarrow> blk i < 2 ^ 32 \<Longrightarrow> bword (put_head n blk d) (i + 1) = blk i"
proof -
  have "n < 2 ^ 31" "- (2 ^ 31) \<le> n" using assms by (simp_all add: LOGSIZE_def MAXOPBLOCKS_def)
  then show "sint (rd32 (put_head n blk d) 0) = n"
    by (simp add: put_head_n signed_of_int signed_take_bit_int_eq_self)
  show "i < nat n \<Longrightarrow> blk i < 2 ^ 32 \<Longrightarrow> bword (put_head n blk d) (i + 1) = blk i"
    unfolding bword_def put_head_def by (simp only: put_head_words) (simp add: unsigned_of_nat take_bit_nat_eq_self)
qed


lemma upd_buf_twice: "upd_buf b (b_data_update g) (upd_buf b (b_data_update f) s) = upd_buf b (b_data_update (\<lambda>d. g (f d))) s"
  by (simp add: upd_buf_def o_def)

lemma kfor_data:
  "kfor is (\<lambda>i. kmod (upd_buf b (b_data_update (g i)))) (upd_buf b (b_data_update f) s)
     = Ok () (upd_buf b (b_data_update (\<lambda>d. foldl (\<lambda>d i. g i d) (f d) is)) s)"
  by (induction "is" arbitrary: f) (simp_all add: upd_buf_twice)

lemma write_head_ex:
  assumes "bst s pid {} P" "log_dev s = 1" "log_start s < disksize s" "log_start s \<notin> P" "card P < NBUF"
  defines "H \<equiv> put_head (lh_n s) (lh_block s) (view s (log_start s))"
  shows "\<exists>s'. write_head s = Ok () s' \<and> bst s' pid {} P \<and> bio_frame s s'
    \<and> view s' = (view s)(log_start s := H) \<and> memdisk s' = (memdisk s)(log_start s := H)
    \<and> dwrites s' = dwrites s @ [(log_start s, H)]"
proof -
  define l where "l = log_start s"
  have l: "l < disksize s" "l \<notin> P" using assms(3,4) by (simp_all add: l_def)
  obtain i s1 where 1: "bread 1 l s = Ok i s1" "bst s1 pid {l} P" "hbuf (bufs s1) l i" "same_store s s1"
    using bread_ex[OF assms(1), of l] l assms(5) by auto
  note S1 = same_storeD[OF 1(4)]
  have H: "put_head (lh_n s) (lh_block s) (view s1 l) = H" unfolding S1(1) H_def l_def ..
  obtain s2 where 2: "upd_buf i (b_data_update (put_head (lh_n s) (lh_block s))) s1 = s2" "bst s2 pid {l} P"
    "view s2 = (view s1)(l := H)" "memdisk s2 = memdisk s1" "dwrites s2 = dwrites s1" "bio_frame s1 s2" "hbuf (bufs s2) l i"
    using bdata_ex[OF 1(2,3), of "put_head (lh_n s) (lh_block s)"] H by auto
  have "l < disksize s2" using bio_frame_sel(5)[OF 2(6)] S1 l by simp
  then obtain s3 where 3: "bwrite i s2 = Ok () s3" "bst s3 pid {l} P" "view s3 = view s2" "memdisk s3 = (memdisk s2)(l := H)"
    "dwrites s3 = dwrites s2 @ [(l, H)]" "bio_frame s2 s3" "hbuf (bufs s3) l i"
    using bwrite_ex[OF 2(2,7)] 2(3) l by auto
  obtain s4 where 4: "brelse i s3 = Ok () s4" "bst s4 pid {} P" "same_store s3 s4"
    using brelse_ex[OF 3(2,7)] 2 3 by auto
  note S4 = same_storeD[OF 4(3)]
  have "kfor [0..<nat (lh_n s)] (\<lambda>k. kmod (upd_buf i (b_data_update (\<lambda>d. wr32 d (4 * (k + 1)) (word_of_nat (lh_block s k))))))
      (upd_buf i (b_data_update (\<lambda>d. wr32 d 0 (word_of_int (lh_n s)))) s1) = Ok () s2"
    unfolding kfor_data 2(1)[symmetric] put_head_def by simp
  then have "write_head s = Ok () s4"
    using 1(1) 3(1) 4(1) by (simp add: write_head_def assms(2) l_def)
  moreover have "bio_frame s s4" using S1(4) 2(6) 3(6) S4(4) bio_frame_trans by metis
  ultimately show ?thesis using 4(2) S1 2 3 S4 unfolding l_def[symmetric] by (intro exI[of _ s4]) simp
qed

subsection \<open>Commit\<close>

definition commit_writes :: "'a klog_scheme \<Rightarrow> (nat \<times> bytes) list" where
  "commit_writes s =
     (let n = nat (lh_n s); H = put_head (lh_n s) (lh_block s) (view s (log_start s))
      in log_copies s n @ [(log_start s, H)] @ map (\<lambda>t. (lh_block s t, view s (lh_block s t))) [0..<n]
         @ [(log_start s, put_head 0 (lh_block s) H)])"

lemma wr_list_at:
  assumes "distinct (map f ts)" "t \<in> set ts"
  shows "wr_list D (map (\<lambda>t. (f t, g t)) ts) (f t) = g t"
  using assms
proof (induction ts arbitrary: D)
  case (Cons u ts)
  show ?case
  proof (cases "t = u")
    case True
    with Cons.prems have "f t \<notin> fst ` set (map (\<lambda>t. (f t, g t)) ts)" by (auto simp: image_image)
    with True show ?thesis by (simp add: wr_list_other del: fun_upd_apply) simp
  qed (use Cons in simp)
qed simp

lemma log_blocks_frame: "bio_frame s s' \<Longrightarrow> log_blocks s' = log_blocks s"
  by (simp add: log_blocks_def bio_frame_log)

lemma log_ok_frame: "bio_frame s s' \<Longrightarrow> log_ok s' = log_ok s"
  by (simp add: log_ok_def log_blocks_frame bio_frame_log bio_frame_sel)

lemma view_copies:
  assumes "log_ok s" "t < nat (lh_n s)"
  shows "wr_list D (log_copies s (nat (lh_n s))) (log_start s + t + 1) = view s (lh_block s t)"
proof -
  have "distinct (map (\<lambda>t. log_start s + t + 1) [0..<nat (lh_n s)])" by (simp add: distinct_map inj_on_def)
  from wr_list_at[OF this] assms(2) show ?thesis by (simp add: log_copies_def)
qed

lemma commit_ex:
  assumes "bst s pid {} (set (log_blocks s))" "log_ok s" "0 < lh_n s" "nat (lh_n s) < NBUF"
  shows "\<exists>s'. commit s = Ok () s' \<and> bst s' pid {} {} \<and> bio_frame (s\<lparr>lh_n := 0\<rparr>) s'
    \<and> view s' = wr_list (view s) (commit_writes s) \<and> memdisk s' = wr_list (memdisk s) (commit_writes s)
    \<and> dwrites s' = dwrites s @ commit_writes s"
proof -
  define n ls P where n: "n = nat (lh_n s)" and ls: "ls = log_start s" and P: "P = set (log_blocks s)"
  note L = log_okD[OF assms(2), folded n ls]
  have card: "card P < NBUF" using L(4,10) assms(4) unfolding P n by (simp add: distinct_card)
  have lsP: "ls + u \<notin> P" if "u \<le> n" for u using L(9)[OF that] by (simp add: P)
  obtain s1 where 1: "kfor [0..<n] write_log_body s = Ok () s1" "bst s1 pid {} P" "bio_frame s s1"
    "view s1 = wr_list (view s) (log_copies s n)" "memdisk s1 = wr_list (memdisk s) (log_copies s n)"
    "dwrites s1 = dwrites s @ log_copies s n"
    using write_log_loop[OF assms(1)[folded P] assms(2) _ _ card, of n] lsP unfolding P ls n by blast
  note F1 = bio_frame_log[OF 1(3)] bio_frame_sel(5)[OF 1(3)]
  define H where "H = put_head (lh_n s) (lh_block s) (view s ls)"
  have "ls \<notin> fst ` set (log_copies s n)" unfolding fst_log_copies ls by simp
  then have v1: "view s1 ls = view s ls" unfolding 1(4) by (rule wr_list_other)
  obtain s2 where 2: "write_head s1 = Ok () s2" "bst s2 pid {} P" "bio_frame s1 s2" "view s2 = (view s1)(ls := H)"
    "memdisk s2 = (memdisk s1)(ls := H)" "dwrites s2 = dwrites s1 @ [(ls, H)]"
    using write_head_ex[OF 1(2)] L(1) L(5)[of 0] lsP[of 0] card F1 v1 unfolding H_def ls by auto
  have f2: "bio_frame s s2" by (rule bio_frame_trans[OF 1(3) 2(3)])
  note F2 = bio_frame_log[OF f2] bio_frame_sel(5)[OF f2]
  have h: "log_homes s2 n = map (\<lambda>t. (lh_block s t, view s (lh_block s t))) [0..<n]"
    using view_copies[OF assms(2)] unfolding log_homes_def F2 n[symmetric]
    by (auto simp: 2(4) 1(4) ls)
  obtain s3 where 3: "kfor [0..<n] install_trans_body s2 = Ok () s3" "bst s3 pid {} (P - lh_block s ` {0..<n})" "bio_frame s2 s3"
    "view s3 = wr_list (view s2) (log_homes s2 n)" "memdisk s3 = wr_list (memdisk s2) (log_homes s2 n)"
    "dwrites s3 = dwrites s2 @ log_homes s2 n"
    using install_trans_loop[OF 2(2), of n] lsP card assms(2) log_ok_frame[OF f2] log_blocks_frame[OF f2] F2
    unfolding P ls n by auto
  have "P - lh_block s ` {0..<n} = {}" by (auto simp: P n log_blocks_def)
  with 3(2) have b3: "bst s3 pid {} {}" by simp
  have f3: "bio_frame s s3" by (rule bio_frame_trans[OF f2 3(3)])
  note F3 = bio_frame_log[OF f3] bio_frame_sel(5)[OF f3]
  define s3' where "s3' = s3\<lparr>lh_n := 0\<rparr>"
  have b3': "bst s3' pid {} {}" and f3': "bio_frame (s\<lparr>lh_n := 0\<rparr>) s3'"
    using b3 bio_frame_lh_n[OF f3, of 0] unfolding s3'_def by simp_all
  have "ls \<notin> lh_block s ` {0..<n}" using L(7)[of _ 0] by (metis add.right_neutral atLeastLessThan_iff imageE le0)
  then have v3: "view s3 ls = H" unfolding 3(4) h by (subst wr_list_other) (simp_all add: image_image 2(4))
  obtain s4 where 4: "write_head s3' = Ok () s4" "bst s4 pid {} {}" "bio_frame s3' s4" "view s4 = (view s3)(ls := put_head 0 (lh_block s) H)"
    "memdisk s4 = (memdisk s3)(ls := put_head 0 (lh_block s) H)" "dwrites s4 = dwrites s3 @ [(ls, put_head 0 (lh_block s) H)]"
    using write_head_ex[OF b3'] L(1) L(5)[of 0] F3 v3 unfolding ls s3'_def by (auto simp: NBUF_def MAXOPBLOCKS_def)
  have W: "commit_writes s = log_copies s n @ [(ls, H)] @ log_homes s2 n @ [(ls, put_head 0 (lh_block s) H)]"
    unfolding commit_writes_def Let_def h n[symmetric] ls[symmetric] H_def[symmetric] ..
  have "commit s = Ok () s4"
    using assms(3) 1(1) 2(1) 3(1) 4(1) F1 F2 by (simp add: commit_def write_log_def install_trans_def n s3'_def)
  moreover have "view s4 = wr_list (view s) (commit_writes s)" unfolding 4(4) 3(4) 2(4) 1(4) W by (simp add: wr_list_append)
  moreover have "memdisk s4 = wr_list (memdisk s) (commit_writes s)" unfolding 4(5) 3(5) 2(5) 1(5) W by (simp add: wr_list_append)
  moreover have "dwrites s4 = dwrites s @ commit_writes s" unfolding 4(6) 3(6) 2(6) 1(6) W by simp
  ultimately show ?thesis using 4(2) bio_frame_trans[OF f3' 4(3)] by blast
qed


subsection \<open>Recovery\<close>

text \<open>The transaction that a disk records, and the writes with which recovery finishes it.\<close>

definition hdr_n :: "nat \<Rightarrow> (nat \<Rightarrow> bytes) \<Rightarrow> int" where
  "hdr_n ls D = sint (rd32 (D ls) 0)"

definition hdr_block :: "nat \<Rightarrow> (nat \<Rightarrow> bytes) \<Rightarrow> nat \<Rightarrow> nat" where
  "hdr_block ls D t = bword (D ls) (t + 1)"

definition redo :: "nat \<Rightarrow> (nat \<Rightarrow> bytes) \<Rightarrow> (nat \<times> bytes) list" where
  "redo ls D = map (\<lambda>t. (hdr_block ls D t, D (ls + t + 1))) [0..<nat (hdr_n ls D)]"

definition recovery_writes :: "nat \<Rightarrow> (nat \<Rightarrow> bytes) \<Rightarrow> (nat \<times> bytes) list" where
  "recovery_writes ls D = redo ls D @ [(ls, wr32 (D ls) 0 0)]"

text \<open>\<open>hdr_ok ls sz N D\<close>: on a disk of \<open>N\<close> blocks with the log in blocks \<open>ls\<close> to \<open>ls + sz - 1\<close>, the
  header names distinct blocks outside the log, and not the superblock.\<close>

definition hdr_ok :: "nat \<Rightarrow> nat \<Rightarrow> nat \<Rightarrow> (nat \<Rightarrow> bytes) \<Rightarrow> bool" where
  "hdr_ok ls sz N D \<longleftrightarrow> 1 < ls \<and> ls + sz \<le> N \<and> N < 2 ^ 32 \<and> 0 \<le> hdr_n ls D \<and> hdr_n ls D \<le> int LOGSIZE \<and> hdr_n ls D < int sz
     \<and> (let bs = map (hdr_block ls D) [0..<nat (hdr_n ls D)] in
        distinct bs \<and> (\<forall>b\<in>set bs. b < N \<and> b \<noteq> 1 \<and> (b < ls \<or> ls + sz \<le> b)))"

definition sb_names_log :: "nat \<Rightarrow> nat \<Rightarrow> (nat \<Rightarrow> bytes) \<Rightarrow> bool" where
  "sb_names_log ls sz D \<longleftrightarrow> sb_logstart (sb_of (D 1)) = ls \<and> sb_nlog (sb_of (D 1)) = sz"

lemma kfor_lh_block:
  "kfor [0..<k] (\<lambda>i. kmod (lh_block_update (\<lambda>f. f(i := g i)))) s = Ok () (s\<lparr>lh_block := (\<lambda>i. if i < k then g i else lh_block s i)\<rparr>)"
proof (induction k)
  case (Suc k)
  have "(\<lambda>a. if a = k then g k else if a < k then g a else lh_block s a) = (\<lambda>i. if i < Suc k then g i else lh_block s i)"
    by (auto simp: fun_eq_iff)
  with Suc show ?case by (simp add: kfor_append kthen_apply o_def)
qed simp

lemma readsb_ex:
  assumes "bst s pid {} P" "1 \<notin> P" "1 < disksize s" "card P < NBUF"
  shows "\<exists>s'. readsb 1 s = Ok (sb_of (view s 1)) s' \<and> bst s' pid {} P \<and> same_store s s'"
proof -
  obtain i s1 where 1: "bread 1 1 s = Ok i s1" "bst s1 pid {1} P" "hbuf (bufs s1) 1 i" "same_store s s1"
    using bread_ex[OF assms(1), of 1] assms by auto
  note S1 = same_storeD[OF 1(4)]
  have d: "b_data (bufs s1 i) = view s 1" using hbufD(9)[OF 1(2,3)] unfolding S1(1) by simp
  have "view s1 1 = memdisk s1 1" using view_clean[OF assms(1), of 1] assms(2) S1(1,2) by simp
  then obtain s2 where 2: "brelse i s1 = Ok () s2" "bst s2 pid {} P" "same_store s1 s2" using brelse_ex[OF 1(2,3)] by auto
  show ?thesis using 1(1) 2 d same_store_trans[OF 1(4) 2(3)] by (intro exI[of _ s2]) (simp add: readsb_def)
qed

lemma read_head_ex:
  assumes "bst s pid {} P" "log_dev s = 1" "log_start s \<notin> P" "log_start s < disksize s" "card P < NBUF"
  shows "\<exists>s'. read_head s = Ok () s' \<and> bst s' pid {} P \<and> view s' = view s \<and> memdisk s' = memdisk s \<and> dwrites s' = dwrites s
    \<and> (\<exists>s1. bio_frame s s1 \<and> s' = s1\<lparr>lh_n := hdr_n (log_start s) (view s),
        lh_block := (\<lambda>i. if i < nat (hdr_n (log_start s) (view s)) then hdr_block (log_start s) (view s) i else lh_block s i)\<rparr>)"
proof -
  define l where "l = log_start s"
  obtain i s1 where 1: "bread 1 l s = Ok i s1" "bst s1 pid {l} P" "hbuf (bufs s1) l i" "same_store s s1"
    using bread_ex[OF assms(1), of l] assms(3-5) l_def by auto
  note S1 = same_storeD[OF 1(4)]
  have d: "b_data (bufs s1 i) = view s l" using hbufD(9)[OF 1(2,3)] unfolding S1(1) by simp
  define g where "g = (\<lambda>t :: 'a klog_scheme. t\<lparr>lh_n := hdr_n l (view s),
        lh_block := (\<lambda>i. if i < nat (hdr_n l (view s)) then hdr_block l (view s) i else lh_block s i)\<rparr>)"
  have v: "view s1 l = memdisk s1 l" using view_clean[OF assms(1), of l] assms(3) S1(1,2) l_def by simp
  have b: "bst (g s1) pid {l} P" "hbuf (bufs (g s1)) l i" "view (g s1) l = memdisk (g s1) l"
    using 1(2,3) v by (simp_all add: g_def)
  obtain s2 where 2: "brelse i (g s1) = Ok () s2" "bst s2 pid {} P" "same_store (g s1) s2" using brelse_ex[OF b(1,2)] b(3) by auto
  note S2 = same_storeD[OF 2(3)]
  have lb: "lh_block s1 = lh_block s" using bio_frame_log(7)[OF S1(4)] .
  have "read_head s = Ok () s2"
    using 1(1) 2(1) by (simp add: read_head_def assms(2) l_def[symmetric] d kfor_lh_block g_def hdr_n_def hdr_block_def lb cong: if_cong)
  moreover obtain ps B D W where f: "s2 = (g s1)\<lparr>procs := ps, bufs := B, memdisk := D, dwrites := W\<rparr>"
    "\<And>i. ps i = (procs (g s1) i)\<lparr>p_state := p_state (ps i)\<rparr>" using S2(4) unfolding bio_frame_def by blast
  then have "s2 = g (s1\<lparr>procs := ps, bufs := B, memdisk := D, dwrites := W\<rparr>)" by (simp add: g_def)
  moreover have "bio_frame s1 (s1\<lparr>procs := ps, bufs := B, memdisk := D, dwrites := W\<rparr>)"
    by (rule bio_frameI[OF refl]) (use f(2) in \<open>simp add: g_def\<close>)
  with S1(4) have "bio_frame s (s1\<lparr>procs := ps, bufs := B, memdisk := D, dwrites := W\<rparr>)" by (rule bio_frame_trans)
  moreover have "view s2 = view s" "memdisk s2 = memdisk s" "dwrites s2 = dwrites s" using S1 S2 by (simp_all add: g_def)
  ultimately show ?thesis using 2(2) unfolding g_def l_def by blast
qed

lemma put_head_0: "put_head 0 blk d = wr32 d 0 0"
  by (simp add: put_head_def)

lemma recover_ex:
  assumes "bst s pid {} {}" "log_dev s = 1" "log_size s = int sz" "hdr_ok (log_start s) sz (disksize s) (memdisk s)"
  shows "\<exists>s'. recover_from_log s = Ok () s' \<and> bst s' pid {} {} \<and> lh_n s' = 0
    \<and> view s' = wr_list (memdisk s) (recovery_writes (log_start s) (memdisk s))
    \<and> memdisk s' = wr_list (memdisk s) (recovery_writes (log_start s) (memdisk s))
    \<and> dwrites s' = dwrites s @ recovery_writes (log_start s) (memdisk s)"
proof -
  define l D n where l: "l = log_start s" and D: "D = memdisk s" and n: "n = hdr_n l D"
  note hdr = assms(4)[unfolded hdr_ok_def Let_def, folded l D, folded n]
  have V: "view s = D" using view_clean[OF assms(1)] D by auto
  obtain s1 s0 where 1: "read_head s = Ok () s1" "bst s1 pid {} {}" "view s1 = D" "memdisk s1 = D" "dwrites s1 = dwrites s"
    "bio_frame s s0" "s1 = s0\<lparr>lh_n := n, lh_block := (\<lambda>i. if i < nat n then hdr_block l D i else lh_block s i)\<rparr>"
    using read_head_ex[OF assms(1,2)] V hdr unfolding l D n by (auto simp: NBUF_def MAXOPBLOCKS_def cong: if_cong)
  note F1 = bio_frame_log[OF 1(6)] bio_frame_sel(5)[OF 1(6)]
  have lb: "log_blocks s1 = map (hdr_block l D) [0..<nat n]" unfolding log_blocks_def 1(7) by simp
  have ok: "log_ok s1" unfolding log_ok_def lb using hdr assms(2,3) by (auto simp: 1(7) F1 l[symmetric])
  have homes: "log_homes s1 (nat n) = redo l D"
    by (simp add: log_homes_def redo_def 1(3) n[symmetric]) (simp add: 1(7) F1 l)
  obtain s2 where 2: "kfor [0..<nat n] install_trans_body s1 = Ok () s2" "bst s2 pid {} {}" "bio_frame s1 s2"
    "view s2 = wr_list D (redo l D)" "memdisk s2 = wr_list D (redo l D)" "dwrites s2 = dwrites s @ redo l D"
    using install_trans_loop[OF 1(2) ok, of "nat n"] 1 homes by (auto simp: NBUF_def MAXOPBLOCKS_def)
  note F2 = bio_frame_log[OF 2(3)] bio_frame_sel(5)[OF 2(3)]
  define s2' where "s2' = s2\<lparr>lh_n := 0\<rparr>"
  have "l \<notin> fst ` set (redo l D)" using hdr by (auto simp: redo_def n[symmetric])
  then have vl: "view s2 l = D l" unfolding 2(4) by (rule wr_list_other)
  have f: "log_dev s2' = 1" "log_start s2' = l" "disksize s2' = disksize s" "lh_n s2' = 0"
    using assms(2) by (simp_all add: s2'_def F2 1(7) F1 l)
  obtain s3 where 3: "write_head s2' = Ok () s3" "bst s3 pid {} {}" "bio_frame s2' s3" "view s3 = (view s2)(l := wr32 (D l) 0 0)"
    "memdisk s3 = (memdisk s2)(l := wr32 (D l) 0 0)" "dwrites s3 = dwrites s2 @ [(l, wr32 (D l) 0 0)]"
    using write_head_ex[of s2' pid "{}"] 2(2) f hdr vl by (auto simp: s2'_def put_head_0 NBUF_def MAXOPBLOCKS_def)
  have "recover_from_log s = Ok () s3"
    using 1(1) 2(1) 3(1) by (simp add: recover_from_log_def install_trans_def s2'_def) (simp add: 1(7))
  moreover have "lh_n s3 = 0" using bio_frame_log(6)[OF 3(3)] f(4) by simp
  moreover have "view s3 = wr_list D (recovery_writes l D)" unfolding 3(4) 2(4) recovery_writes_def by (simp add: wr_list_append)
  moreover have "memdisk s3 = wr_list D (recovery_writes l D)" unfolding 3(5) 2(5) recovery_writes_def by (simp add: wr_list_append)
  moreover have "dwrites s3 = dwrites s @ recovery_writes l D" unfolding 3(6) 2(6) recovery_writes_def by simp
  ultimately show ?thesis using 3(2) unfolding l[symmetric] D[symmetric] by blast
qed


subsection \<open>Transactions\<close>

lemma begin_op_apply:
  assumes "klocks s = {}" "curproc s = Some p"
  shows "begin_op s = (if log_committing s \<or> int LOGSIZE < lh_n s + (log_outstanding s + 1) * int MAXOPBLOCKS
    then Blocked (asleep ChLog p (s\<lparr>klocks := {LLog}\<rparr>)) else Ok () (s\<lparr>log_outstanding := log_outstanding s + 1\<rparr>))"
proof -
  have "s\<lparr>klocks := {}, log_outstanding := x\<rparr> = s\<lparr>log_outstanding := x\<rparr>" for x using assms(1) by simp
  then show ?thesis using assms(2) by (simp add: begin_op_def begin_op_loop_def assms(1))
qed

text \<open>What the file system keeps between \<^verbatim>\<open>begin_op\<close> and \<^verbatim>\<open>end_op\<close>: the pinned blocks are those of
  the transaction.\<close>

definition in_trans :: "'a klog_scheme \<Rightarrow> int \<Rightarrow> nat set \<Rightarrow> bool" where
  "in_trans s pid H \<longleftrightarrow> bst s pid H (set (log_blocks s)) \<and> log_ok s \<and> 0 < log_outstanding s \<and> \<not> log_committing s"

lemma log_slot_cases:
  assumes "0 \<le> lh_n s"
  shows "log_slot s bn < nat (lh_n s) \<and> lh_block s (log_slot s bn) = bn \<and> bn \<in> set (log_blocks s)
    \<or> log_slot s bn = nat (lh_n s) \<and> bn \<notin> set (log_blocks s)"
proof (cases "List.find (\<lambda>i. lh_block s i = bn) [0..<nat (lh_n s)]")
  case None
  then have "log_slot s bn = nat (lh_n s)" by (simp add: log_slot_def)
  with None show ?thesis by (auto simp: log_blocks_def find_None_iff)
next
  case (Some i)
  then have "log_slot s bn = i" by (simp add: log_slot_def)
  with Some show ?thesis by (auto simp: log_blocks_def find_Some_iff)
qed

lemma log_write_apply:
  fixes s :: "'a klog_scheme"
  assumes "LLog \<notin> klocks s" "lh_n s < int LOGSIZE" "lh_n s < log_size s - 1" "1 \<le> log_outstanding s" "0 \<le> lh_n s"
    and bn: "b_blockno (bufs s b) = bn"
  shows "log_write b s = Ok () (upd_buf b (b_dirty_update (\<lambda>_. True)) (if bn \<in> set (log_blocks s) then s else
    s\<lparr>lh_n := lh_n s + 1, lh_block := (lh_block s)(nat (lh_n s) := bn)\<rparr>))"
proof -
  have slot: "log_slot (s\<lparr>klocks := L\<rparr>) bn = log_slot s bn" for L by (simp add: log_slot_def cong: option.case_cong)
  have comm: "s\<lparr>klocks := K, lh_block := B\<rparr> = s\<lparr>lh_block := B, klocks := K\<rparr>" for K B by simp
  show ?thesis
  proof (cases "bn \<in> set (log_blocks s)")
    case True
    with log_slot_cases[OF assms(5), of bn] have c: "log_slot s bn < nat (lh_n s)" "lh_block s (log_slot s bn) = bn" by auto
    then have "(lh_block s)(log_slot s bn := bn) = lh_block s" by (simp add: fun_upd_idem)
    then have "s\<lparr>lh_block := (lh_block s)(log_slot s bn := bn)\<rparr> = s" by simp
    with True c show ?thesis using assms(1-5)
      by (simp add: log_write_def bn slot upd_buf_def fun_upd_idem)
  next
    case False
    with log_slot_cases[OF assms(5), of bn] have "log_slot s bn = nat (lh_n s)" by auto
    with False show ?thesis using assms(1-5) by (simp add: log_write_def bn slot upd_buf_def)
  qed
qed

lemma log_blocks_snoc: "0 \<le> lh_n s \<Longrightarrow> log_blocks (s\<lparr>lh_n := lh_n s + 1, lh_block := (lh_block s)(nat (lh_n s) := bn)\<rparr>) = log_blocks s @ [bn]"
  by (simp add: log_blocks_def nat_add_distrib)

text \<open>The buffer joins the transaction: at most one header entry per block.\<close>

lemma log_write_ex:
  fixes s :: "'a klog_scheme"
  assumes "in_trans s pid H" "hbuf (bufs s) bn i" "lh_n s < int LOGSIZE" "lh_n s < log_size s - 1" "bn < disksize s"
    "bn < log_start s \<or> int (log_start s) + log_size s \<le> int bn"
  shows "\<exists>s'. log_write i s = Ok () s' \<and> in_trans s' pid H \<and> set (log_blocks s') = insert bn (set (log_blocks s))
    \<and> lh_n s' = (if bn \<in> set (log_blocks s) then lh_n s else lh_n s + 1)
    \<and> view s' = view s \<and> memdisk s' = memdisk s \<and> dwrites s' = dwrites s \<and> hkeep bn s s' \<and> hbuf (bufs s') bn i
    \<and> (\<exists>n blk. bio_frame (s\<lparr>lh_n := n, lh_block := blk\<rparr>) s')"
proof -
  note t = assms(1)[unfolded in_trans_def]
  then have b: "bst s pid H (set (log_blocks s))" and L: "log_ok s" by simp_all
  define u where "u = (if bn \<in> set (log_blocks s) then s else s\<lparr>lh_n := lh_n s + 1, lh_block := (lh_block s)(nat (lh_n s) := bn)\<rparr>)"
  have bl: "b_blockno (bufs s i) = bn" using hbufD(3)[OF b assms(2)] .
  have u: "bufs u = bufs s" "memdisk u = memdisk s" "dwrites u = dwrites s" "disksize u = disksize s" "log_start u = log_start s"
    "log_size u = log_size s" "log_dev u = log_dev s" "log_outstanding u = log_outstanding s" "log_committing u = log_committing s"
    "u = s\<lparr>lh_n := lh_n u, lh_block := lh_block u\<rparr>" "bst u pid H (set (log_blocks s))"
    using b by (simp_all add: u_def)
  have lb: "set (log_blocks u) = insert bn (set (log_blocks s))" "distinct (log_blocks u)"
    using log_okD(2,4)[OF L] by (auto simp: u_def log_blocks_snoc)
  have n: "lh_n u = (if bn \<in> set (log_blocks s) then lh_n s else lh_n s + 1)" by (simp add: u_def)
  have Lu: "log_ok u" using L assms(3-6) lb u(1-9) n unfolding log_ok_def by auto
  have h: "hbuf (bufs u) bn i" using assms(2) u(1) by simp
  obtain s' where s': "upd_buf i (b_dirty_update (\<lambda>_. True)) u = s'" "bst s' pid H (insert bn (set (log_blocks s)))"
    "same_store u s'" "hkeep bn u s'" "hbuf (bufs s') bn i"
    using bdirty_ex[OF u(11) h] by auto
  note S = same_storeD[OF s'(3)]
  have "log_write i s = Ok () s'"
    using log_write_apply[OF _ assms(3,4) _ log_okD(2)[OF L] bl] t bstD(2)[OF b] s'(1) unfolding u_def by simp
  moreover have "in_trans s' pid H"
    using s'(2) lb log_blocks_frame[OF S(4)] log_ok_frame[OF S(4)] Lu t bio_frame_log[OF S(4)] u(1-9) unfolding in_trans_def by simp
  moreover have "hkeep bn s s'" using s'(4) by (simp add: hkeep_def u(1))
  moreover have "\<exists>n blk. bio_frame (s\<lparr>lh_n := n, lh_block := blk\<rparr>) s'" using S(4) u(10) by metis
  ultimately show ?thesis
    using S(1-3) u(1-3) lb n s'(5) bio_frame_log(6)[OF S(4)] log_blocks_frame[OF S(4)] by (intro exI[of _ s'] conjI) simp_all
qed

end
