(* ===== verification/Log_Crash.thy ===== *)
theory Log_Crash
  imports Log
begin

text \<open>
  Crashes: \<^verbatim>\<open>commit\<close>, \<^verbatim>\<open>end_op\<close> and \<^verbatim>\<open>initlog\<close> of \<^verbatim>\<open>src/xv6/log.c\<close> when the machine may stop after any disk
  write.

  A crash keeps a prefix of the writes of the interrupted routine and loses all of memory. The
  theorems: recovery can be interrupted and repeated at will; a transaction whose commit is interrupted
  is installed entirely or not at all; once \<^verbatim>\<open>end_op\<close> of the last operation returns, the transaction is on
  the disk; \<^verbatim>\<open>begin_op\<close> and \<^verbatim>\<open>log_write\<close> keep the bounds of the log.
\<close>

subsection \<open>Recovery as a function of the disk\<close>

definition recovered :: "nat \<Rightarrow> (nat \<Rightarrow> bytes) \<Rightarrow> (nat \<Rightarrow> bytes)" where
  "recovered ls D = wr_list D (recovery_writes ls D)"

text \<open>Disks that interrupted recoveries may leave.\<close>

inductive interrupted :: "nat \<Rightarrow> (nat \<Rightarrow> bytes) \<Rightarrow> (nat \<Rightarrow> bytes) \<Rightarrow> bool" for ls D where
  interrupted_0: "interrupted ls D D"
| interrupted_crash: "interrupted ls D D' \<Longrightarrow> interrupted ls D (wr_list D' (take j (recovery_writes ls D')))"

lemma wr_list_cong:
  assumes "\<And>b. b \<notin> fst ` set ws \<Longrightarrow> D b = D' b"
  shows "wr_list D ws = wr_list D' ws"
  using assms by (induction ws arbitrary: D D') (auto simp: fun_eq_iff)

lemma wr_list_absorb:
  assumes "fst ` set vs \<subseteq> fst ` set ws"
  shows "wr_list (wr_list D vs) ws = wr_list D ws"
  using assms by (intro wr_list_cong wr_list_other) blast

lemma wr32_idem [simp]: "wr32 (wr32 d a v) a v = wr32 d a v"
  by (auto simp: wr32_def fun_eq_iff)

lemma hdr_n_cleared: "D ls = wr32 d 0 0 \<Longrightarrow> hdr_n ls D = 0"
  by (simp add: hdr_n_def)

lemma recovered_idle:
  assumes "hdr_n ls D = 0"
  shows "recovered ls D = D(ls := wr32 (D ls) 0 0)"
  using assms by (simp add: recovered_def recovery_writes_def redo_def)

lemma redo_outside:
  assumes "hdr_ok ls sz N D" "ls \<le> b" "b < ls + sz"
  shows "b \<notin> fst ` set (redo ls D)"
  using assms by (auto simp: hdr_ok_def redo_def Let_def)

lemma redo_cong:
  assumes "D' ls = D ls" "\<And>t. t < nat (hdr_n ls D) \<Longrightarrow> D' (ls + t + 1) = D (ls + t + 1)"
  shows "redo ls D' = redo ls D"
  using assms by (auto simp: redo_def hdr_n_def hdr_block_def)

lemma set_takeD: "b \<in> fst ` set (take j ws) \<Longrightarrow> b \<in> fst ` set ws"
  using set_take_subset by fastforce

lemma take_other: "b \<notin> fst ` set ws \<Longrightarrow> wr_list D (take k ws) b = D b"
  by (rule wr_list_other, erule contrapos_nn, rule set_takeD)

lemma take_absorb: "wr_list (wr_list D (take k ws)) ws = wr_list D ws"
  by (rule wr_list_absorb, rule subsetI, rule set_takeD)

lemma hdr_ok_cong:
  assumes "hdr_ok ls sz N D" "D' ls = D ls"
  shows "hdr_ok ls sz N D'"
proof -
  have "hdr_n ls D' = hdr_n ls D" by (simp add: hdr_n_def assms(2))
  moreover have "hdr_block ls D' = hdr_block ls D" by (rule ext) (simp add: hdr_block_def assms(2))
  ultimately show ?thesis using assms(1) by (simp add: hdr_ok_def)
qed

lemma hdr_ok_idle:
  assumes "hdr_n ls D = 0" "1 < ls" "ls + sz \<le> N" "N < 2 ^ 32" "0 < sz"
  shows "hdr_ok ls sz N D"
  using assms by (simp add: hdr_ok_def)

text \<open>A recovery that is cut off, and then run again from the start, ends as if it had never been
  cut off.\<close>

lemma recovered_crash:
  fixes j :: nat
  assumes "hdr_ok ls sz N D" "sb_names_log ls sz D"
  defines "D' \<equiv> wr_list D (take j (recovery_writes ls D))"
  shows "recovered ls D' = recovered ls D \<and> hdr_ok ls sz N D' \<and> sb_names_log ls sz D'"
proof -
  note h = assms(1)[unfolded hdr_ok_def Let_def]
  define r where "r = redo ls D"
  have r1: "1 \<notin> fst ` set (recovery_writes ls D)" using h by (auto simp: recovery_writes_def redo_def)
  have sb: "sb_names_log ls sz D'"
    using assms(2) take_other[OF r1] unfolding sb_names_log_def D'_def by simp
  show ?thesis
  proof (cases "j \<le> length r")
    case True
    then have D': "D' = wr_list D (take j r)" by (simp add: D'_def recovery_writes_def r_def)
    have same: "D' b = D b" if "ls \<le> b" "b < ls + sz" for b
      unfolding D' using redo_outside[OF assms(1) that] unfolding r_def by (rule take_other)
    have l: "D' ls = D ls" using h by (intro same) auto
    moreover have "D' (ls + t + 1) = D (ls + t + 1)" if "t < nat (hdr_n ls D)" for t using h that by (intro same) auto
    ultimately have r: "redo ls D' = r" unfolding r_def by (intro redo_cong) auto
    have "wr_list D' r = wr_list D r" unfolding D' by (rule take_absorb)
    then have "recovered ls D' = recovered ls D" by (simp add: recovered_def recovery_writes_def r l wr_list_append r_def[symmetric])
    with hdr_ok_cong[OF assms(1), of D', OF l] sb show ?thesis by blast
  next
    case False
    then have D': "D' = recovered ls D" by (simp add: D'_def recovery_writes_def r_def recovered_def)
    then have l: "D' ls = wr32 (D ls) 0 0" by (simp add: recovered_def recovery_writes_def wr_list_append)
    then have "hdr_n ls D' = 0" by (rule hdr_n_cleared)
    then have "hdr_ok ls sz N D'" "recovered ls D' = D'(ls := wr32 (D' ls) 0 0)" using h by (auto intro!: hdr_ok_idle recovered_idle)
    moreover have "D'(ls := wr32 (D' ls) 0 0) = D'" by (simp add: l fun_upd_idem)
    ultimately show ?thesis using sb D' by simp
  qed
qed

lemma interrupted_recovered:
  assumes "interrupted ls D D'" "hdr_ok ls sz N D" "sb_names_log ls sz D"
  shows "recovered ls D' = recovered ls D \<and> hdr_ok ls sz N D' \<and> sb_names_log ls sz D'"
  using assms
proof induction
  case (interrupted_crash D' j)
  with recovered_crash[of ls sz N D' j] show ?case by simp
qed simp

subsection \<open>Boot\<close>

text \<open>The machine as it comes up: empty memory, no locks held, the first process running.\<close>

definition booted :: "'a klog_scheme \<Rightarrow> bool" where
  "booted r \<longleftrightarrow> (\<forall>i. bufs r i = buf_zero) \<and> klocks r = {} \<and> curproc r \<noteq> None"

lemma initlog_ex:
  assumes "booted r" "sb_names_log ls sz (memdisk r)" "hdr_ok ls sz (disksize r) (memdisk r)"
  shows "\<exists>t pid. initlog 1 (binit r) = Ok () t \<and> bst t pid {} {} \<and> lh_n t = 0 \<and> memdisk t = recovered ls (memdisk r)
    \<and> view t = recovered ls (memdisk r) \<and> dwrites t = dwrites r @ recovery_writes ls (memdisk r)"
proof -
  obtain p where p: "curproc r = Some p" "\<And>i. bufs r i = buf_zero" "klocks r = {}" using assms(1) by (auto simp: booted_def)
  define q where "q = p_pid (procs r p)"
  have 0: "bst (binit r) q {} {}" "view (binit r) = memdisk r" using bst_binit[OF p(2,3,1)] by (simp_all add: q_def)
  have m: "memdisk (binit r) = memdisk r" "disksize (binit r) = disksize r" "dwrites (binit r) = dwrites r" by (simp_all add: binit_def)
  have N: "1 < disksize (binit r)" using assms(3) by (auto simp: hdr_ok_def m)
  obtain s1 where 1: "readsb 1 (binit r) = Ok (sb_of (memdisk r 1)) s1" "bst s1 q {} {}" "same_store (binit r) s1"
    using readsb_ex[OF 0(1) _ N] 0(2) by (auto simp: NBUF_def MAXOPBLOCKS_def)
  note S1 = same_storeD[OF 1(3)]
  define s2 where "s2 = s1\<lparr>log_start := ls, log_size := int sz, log_dev := 1\<rparr>"
  have f: "log_start s2 = ls" "log_size s2 = int sz" "log_dev s2 = 1" "memdisk s2 = memdisk r" "disksize s2 = disksize r"
    "dwrites s2 = dwrites r" "bst s2 q {} {}" using S1 1(2) m by (simp_all add: s2_def)
  obtain t where t: "recover_from_log s2 = Ok () t" "bst t q {} {}" "lh_n t = 0" "view t = recovered ls (memdisk r)"
    "memdisk t = recovered ls (memdisk r)" "dwrites t = dwrites r @ recovery_writes ls (memdisk r)"
    using recover_ex[OF f(7,3,2)] assms(3) unfolding f recovered_def by auto
  have "initlog 1 (binit r) = Ok () t"
    using 1(1) t(1) assms(2) by (simp add: initlog_def sb_names_log_def s2_def BSIZE_def LOGSIZE_def MAXOPBLOCKS_def)
  with t show ?thesis by blast
qed


subsection \<open>The disk after an interrupted commit\<close>

definition home_writes :: "'a klog_scheme \<Rightarrow> (nat \<times> bytes) list" where
  "home_writes s = map (\<lambda>t. (lh_block s t, view s (lh_block s t))) [0..<nat (lh_n s)]"

definition head_of :: "'a klog_scheme \<Rightarrow> bytes" where
  "head_of s = put_head (lh_n s) (lh_block s) (view s (log_start s))"

lemma commit_writes_alt:
  "commit_writes s = log_copies s (nat (lh_n s)) @ (log_start s, head_of s) # home_writes s @ [(log_start s, wr32 (head_of s) 0 0)]"
  by (simp add: commit_writes_def Let_def home_writes_def head_of_def put_head_0)

lemma wr_homes:
  assumes "bst s pid {} (set (log_blocks s))" "log_ok s" "b \<notin> set (log_blocks s) \<Longrightarrow> D b = memdisk s b"
  shows "wr_list D (home_writes s) b = view s b"
proof (cases "b \<in> set (log_blocks s)")
  case True
  then obtain t where t: "t \<in> set [0..<nat (lh_n s)]" "b = lh_block s t" by (auto simp: log_blocks_def)
  have "distinct (map (lh_block s) [0..<nat (lh_n s)])" using log_okD(4)[OF assms(2)] by (simp add: log_blocks_def)
  from wr_list_at[OF this t(1)] t(2) show ?thesis by (simp add: home_writes_def)
next
  case False
  then have "b \<notin> fst ` set (home_writes s)" by (auto simp: home_writes_def log_blocks_def)
  with False show ?thesis using assms(3) view_clean[OF assms(1)] by (simp add: wr_list_other)
qed

text \<open>With the header on the disk, recovery redoes exactly the home writes.\<close>

lemma redo_committed:
  assumes "log_ok s" "D (log_start s) = head_of s" "\<And>t. t < nat (lh_n s) \<Longrightarrow> D (log_start s + t + 1) = view s (lh_block s t)"
  shows "hdr_n (log_start s) D = lh_n s" "t < nat (lh_n s) \<Longrightarrow> hdr_block (log_start s) D t = lh_block s t"
    "redo (log_start s) D = home_writes s"
proof -
  note L = assms(1)[unfolded log_ok_def]
  show n: "hdr_n (log_start s) D = lh_n s" unfolding hdr_n_def assms(2) head_of_def using L by (intro put_head_decode) auto
  show b: "hdr_block (log_start s) D t = lh_block s t" if "t < nat (lh_n s)" for t
    unfolding hdr_block_def assms(2) head_of_def using L that log_okD(6)[OF assms(1) that] by (intro put_head_decode) auto
  show "redo (log_start s) D = home_writes s" unfolding redo_def home_writes_def n using b assms(3) by auto
qed

text \<open>The state in which \<^verbatim>\<open>end_op\<close> calls \<^verbatim>\<open>commit\<close>: the pinned blocks are those of the transaction, the
  superblock names the log, and the header on the disk is empty.\<close>

definition ready :: "'a klog_scheme \<Rightarrow> int \<Rightarrow> nat \<Rightarrow> bool" where
  "ready s pid sz \<longleftrightarrow> bst s pid {} (set (log_blocks s)) \<and> log_ok s \<and> log_size s = int sz \<and> nat (lh_n s) < NBUF
     \<and> sb_names_log (log_start s) sz (memdisk s) \<and> 1 < log_start s \<and> 1 \<notin> set (log_blocks s)
     \<and> hdr_n (log_start s) (memdisk s) = 0"

lemma readyD:
  assumes "ready s pid sz"
  shows "bst s pid {} (set (log_blocks s))" "log_ok s" "log_size s = int sz" "sb_names_log (log_start s) sz (memdisk s)"
    "1 < log_start s" "1 \<notin> set (log_blocks s)" "hdr_n (log_start s) (memdisk s) = 0" "nat (lh_n s) < NBUF"
    "log_start s + sz \<le> disksize s" "disksize s < 2 ^ 32" "nat (lh_n s) < sz"
    "b < log_start s \<or> log_start s + sz \<le> b \<Longrightarrow> b \<noteq> log_start s \<and> b \<notin> fst ` set (log_copies s (nat (lh_n s)))"
  using assms unfolding ready_def log_ok_def fst_log_copies by auto

lemma fst_home_writes: "fst ` set (home_writes s) = set (log_blocks s)"
  by (auto simp: home_writes_def log_blocks_def image_image)

lemma crash_superblock:
  assumes "ready s pid sz"
  shows "sb_names_log (log_start s) sz (wr_list (memdisk s) (take k (commit_writes s)))"
proof -
  note r = readyD[OF assms]
  have "1 \<notin> fst ` set (commit_writes s)" using r(5,6) r(12)[of 1] by (auto simp: commit_writes_alt fst_home_writes[symmetric])
  then show ?thesis using r(4) take_other unfolding sb_names_log_def by simp
qed

text \<open>Until the header is written, the old contents survive.\<close>

lemma crash_before_head:
  assumes "ready s pid sz" "k \<le> nat (lh_n s)" "D = wr_list (memdisk s) (take k (commit_writes s))"
  shows "hdr_ok (log_start s) sz (disksize s) D"
    and "b < log_start s \<or> log_start s + sz \<le> b \<Longrightarrow> recovered (log_start s) D b = memdisk s b"
proof -
  note r = readyD[OF assms(1)]
  have D: "D = wr_list (memdisk s) (take k (log_copies s (nat (lh_n s))))"
    using assms(2) by (simp add: assms(3) commit_writes_alt log_copies_def)
  have "log_start s \<notin> fst ` set (log_copies s (nat (lh_n s)))" by (simp add: fst_log_copies)
  then have i: "hdr_n (log_start s) D = 0" using r(7) by (simp add: D take_other hdr_n_def)
  then show "hdr_ok (log_start s) sz (disksize s) D" using r by (intro hdr_ok_idle) auto
  show "recovered (log_start s) D b = memdisk s b" if "b < log_start s \<or> log_start s + sz \<le> b"
    using r(12)[OF that] unfolding recovered_idle[OF i] unfolding D by (simp add: take_other)
qed

definition with_head :: "'a klog_scheme \<Rightarrow> (nat \<Rightarrow> bytes)" where
  "with_head s = (wr_list (memdisk s) (log_copies s (nat (lh_n s))))(log_start s := head_of s)"

lemma with_head_homes:
  assumes "ready s pid sz" "b < log_start s \<or> log_start s + sz \<le> b"
  shows "wr_list (with_head s) (home_writes s) b = view s b"
proof -
  note r = readyD[OF assms(1)]
  show ?thesis using r(12)[OF assms(2)] by (intro wr_homes[OF r(1,2)]) (simp add: with_head_def wr_list_other)
qed

text \<open>Once it is written, recovery installs the new contents.\<close>

lemma crash_after_head:
  assumes "ready s pid sz" "D = wr_list (with_head s) (take j (home_writes s))"
  shows "hdr_ok (log_start s) sz (disksize s) D"
    and "b < log_start s \<or> log_start s + sz \<le> b \<Longrightarrow> recovered (log_start s) D b = view s b"
proof -
  note r = readyD[OF assms(1)]
  have log: "D (log_start s + u) = with_head s (log_start s + u)" if "u \<le> nat (lh_n s)" for u
    using log_okD(9)[OF r(2) that] by (simp add: assms(2) take_other fst_home_writes)
  have l: "D (log_start s) = head_of s" using log[of 0] by (simp add: with_head_def)
  have c: "D (log_start s + t + 1) = view s (lh_block s t)" if "t < nat (lh_n s)" for t
    using log[of "Suc t"] view_copies[OF r(2), of t] that by (simp add: with_head_def)
  have n: "hdr_n (log_start s) D = lh_n s" and R: "redo (log_start s) D = home_writes s"
    and "\<And>t. t < nat (lh_n s) \<Longrightarrow> hdr_block (log_start s) D t = lh_block s t"
    using redo_committed[OF r(2) l c] by blast+
  then have bs: "map (hdr_block (log_start s) D) [0..<nat (lh_n s)] = log_blocks s" by (simp add: log_blocks_def)
  show "hdr_ok (log_start s) sz (disksize s) D" using r(2,3,5,6) unfolding hdr_ok_def Let_def n bs log_ok_def by auto
  show "recovered (log_start s) D b = view s b" if o: "b < log_start s \<or> log_start s + sz \<le> b"
  proof -
    have "recovered (log_start s) D b = wr_list D (home_writes s) b"
      using r(12)[OF o] by (simp add: recovered_def recovery_writes_def R wr_list_append)
    also have "\<dots> = wr_list (with_head s) (home_writes s) b" unfolding assms(2) by (simp only: take_absorb)
    finally show ?thesis using with_head_homes[OF assms(1) o] by simp
  qed
qed

lemma crash_cleared:
  assumes "ready s pid sz" "D = (wr_list (with_head s) (home_writes s))(log_start s := wr32 (head_of s) 0 0)"
  shows "hdr_ok (log_start s) sz (disksize s) D"
    and "b < log_start s \<or> log_start s + sz \<le> b \<Longrightarrow> recovered (log_start s) D b = view s b"
proof -
  note r = readyD[OF assms(1)]
  have i: "hdr_n (log_start s) D = 0" by (rule hdr_n_cleared[of _ _ "head_of s"]) (simp add: assms(2))
  then show "hdr_ok (log_start s) sz (disksize s) D" using r by (intro hdr_ok_idle) auto
  show "recovered (log_start s) D b = view s b" if o: "b < log_start s \<or> log_start s + sz \<le> b"
    using r(12)[OF o] with_head_homes[OF assms(1) o] unfolding recovered_idle[OF i] unfolding assms(2) by simp
qed

lemma crash_prefix:
  "wr_list (memdisk s) (take k (commit_writes s)) = (let n = nat (lh_n s) in
    if k \<le> n then wr_list (memdisk s) (take k (log_copies s n))
    else if k \<le> Suc (n + n) then wr_list (with_head s) (take (k - Suc n) (home_writes s))
    else (wr_list (with_head s) (home_writes s))(log_start s := wr32 (head_of s) 0 0))"
proof -
  have len: "length (log_copies s (nat (lh_n s))) = nat (lh_n s)" "length (home_writes s) = nat (lh_n s)"
    by (simp_all add: log_copies_def home_writes_def)
  show ?thesis
    by (auto simp: commit_writes_alt len wr_list_append with_head_def Let_def take_Cons')
qed

lemma commit_crash_disk:
  assumes "ready s pid sz" "D = wr_list (memdisk s) (take k (commit_writes s))"
  shows "hdr_ok (log_start s) sz (disksize s) D"
    and "b < log_start s \<or> log_start s + sz \<le> b \<Longrightarrow>
      recovered (log_start s) D b = (if k \<le> nat (lh_n s) then memdisk s b else view s b)"
proof -
  consider "k \<le> nat (lh_n s)" | "\<not> k \<le> nat (lh_n s)" "D = wr_list (with_head s) (take (k - Suc (nat (lh_n s))) (home_writes s))"
    | "\<not> k \<le> nat (lh_n s)" "D = (wr_list (with_head s) (home_writes s))(log_start s := wr32 (head_of s) 0 0)"
    using crash_prefix[of s k, folded assms(2)] by (simp add: Let_def split: if_splits)
  then have "hdr_ok (log_start s) sz (disksize s) D \<and> (\<forall>b. b < log_start s \<or> log_start s + sz \<le> b \<longrightarrow>
      recovered (log_start s) D b = (if k \<le> nat (lh_n s) then memdisk s b else view s b))"
  proof cases
    case 1
    then show ?thesis using crash_before_head[OF assms(1) 1 assms(2)] by simp
  next
    case 2
    then show ?thesis using crash_after_head[OF assms(1) 2(2)] by simp
  next
    case 3
    then show ?thesis using crash_cleared[OF assms(1) 3(2)] by simp
  qed
  then show "hdr_ok (log_start s) sz (disksize s) D"
    and "b < log_start s \<or> log_start s + sz \<le> b \<Longrightarrow>
      recovered (log_start s) D b = (if k \<le> nat (lh_n s) then memdisk s b else view s b)" by blast+
qed

subsection \<open>The end of a transaction\<close>

lemma commit_contents:
  assumes "ready s pid sz" "b < log_start s \<or> log_start s + sz \<le> b"
  shows "wr_list (memdisk s) (commit_writes s) b = view s b"
  using readyD(12)[OF assms] with_head_homes[OF assms] unfolding commit_writes_alt
  by (simp add: wr_list_append with_head_def)

lemma commit_done:
  assumes "ready s pid sz"
  shows "\<exists>s'. commit s = Ok () s' \<and> bst s' pid {} {} \<and> bio_frame (s\<lparr>lh_n := 0\<rparr>) s'
    \<and> (\<forall>b. b < log_start s \<or> log_start s + sz \<le> b \<longrightarrow> memdisk s' b = view s b \<and> view s' b = view s b)"
proof (cases "0 < lh_n s")
  case True
  note r = readyD[OF assms]
  obtain s' where s': "commit s = Ok () s'" "bst s' pid {} {}" "bio_frame (s\<lparr>lh_n := 0\<rparr>) s'"
    "memdisk s' = wr_list (memdisk s) (commit_writes s)" using commit_ex[OF r(1,2) True r(8)] by blast
  have "view s' b = memdisk s' b" for b using view_clean[OF s'(2)] by simp
  then show ?thesis using s' commit_contents[OF assms] by auto
next
  case False
  note r = readyD[OF assms]
  have 0: "lh_n s = 0" using False log_okD(2)[OF r(2)] by simp
  then have "log_blocks s = []" by (simp add: log_blocks_def)
  with r(1) have b: "bst s pid {} {}" by simp
  moreover have "s\<lparr>lh_n := 0\<rparr> = s" using 0 by (simp add: klog.equality)
  then have "bio_frame (s\<lparr>lh_n := 0\<rparr>) s" by simp
  ultimately show ?thesis using 0 view_clean[OF b] by (intro exI[of _ s]) (simp add: commit_def)
qed

lemma bst_procs:
  assumes "\<And>i. p_pid (ps i) = p_pid (procs t i)"
  shows "bst (t\<lparr>procs := ps\<rparr>) pid H P = bst t pid H P"
  by (simp add: bst_def assms)

lemma end_op_last:
  assumes "log_outstanding s = 1" "\<not> log_committing s" "klocks s = {}" "commit (s\<lparr>log_outstanding := 0, log_committing := True\<rparr>) = Ok () t" "klocks t = {}"
  shows "end_op s = Ok () (t\<lparr>log_committing := False, procs := woken ChLog (procs t)\<rparr>)"
proof -
  have s: "s\<lparr>log_outstanding := 0, log_committing := True, klocks := {}\<rparr> = s\<lparr>log_outstanding := 0, log_committing := True\<rparr>"
    using assms(3) by simp
  have t: "t\<lparr>klocks := {}, log_committing := False, procs := P\<rparr> = t\<lparr>log_committing := False, procs := P\<rparr>" for P using assms(5) by simp
  have o: "log_outstanding_update (\<lambda>n. n - 1) s = s\<lparr>log_outstanding := 0\<rparr>" using assms(1) by (simp add: klog.equality)
  show ?thesis using assms(1,2,4) by (simp add: end_op_def assms(3) o s t assms(5))
qed

subsection \<open>Properties\<close>





text \<open>C22. Admission. \<^verbatim>\<open>begin_op\<close> lets an operation in exactly when no commit is under way and the blocks already
  logged, together with \<^verbatim>\<open>MAXOPBLOCKS\<close> for each admitted operation and for this one, fit in \<^verbatim>\<open>LOGSIZE\<close>;
  otherwise the caller sleeps on the log and the log is unchanged.\<close>

theorem begin_op_admission:
  assumes "klocks s = {}" "curproc s = Some p"
  shows "(\<exists>s'. begin_op s = Ok () s' \<and> s' = s\<lparr>log_outstanding := log_outstanding s + 1\<rparr>
        \<and> \<not> log_committing s \<and> lh_n s' + log_outstanding s' * int MAXOPBLOCKS \<le> int LOGSIZE)
    \<or> (\<exists>s'. begin_op s = Blocked s' \<and> s' = asleep ChLog p (s\<lparr>klocks := {LLog}\<rparr>)
        \<and> (log_committing s \<or> int LOGSIZE < lh_n s + (log_outstanding s + 1) * int MAXOPBLOCKS))"
  using begin_op_apply[OF assms] by auto

text \<open>C23. Absorption. Between \<^verbatim>\<open>begin_op\<close> and \<^verbatim>\<open>end_op\<close>, \<^verbatim>\<open>log_write\<close> of a held buffer pins its block and records
  it once: a block already in the transaction takes no further log space. Nothing reaches the disk.\<close>

theorem log_write_absorbs:
  assumes "in_trans s pid H" "hbuf (bufs s) bn i" "lh_n s < int LOGSIZE" "lh_n s < log_size s - 1" "bn < disksize s"
    "bn < log_start s \<or> int (log_start s) + log_size s \<le> int bn"
  shows "\<exists>s'. log_write i s = Ok () s' \<and> in_trans s' pid H \<and> set (log_blocks s') = insert bn (set (log_blocks s))
    \<and> lh_n s' = (if bn \<in> set (log_blocks s) then lh_n s else lh_n s + 1)
    \<and> view s' = view s \<and> memdisk s' = memdisk s \<and> dwrites s' = dwrites s"
  using log_write_ex[OF assms] by blast


subsection \<open>A transaction on a small disk\<close>

definition sample_disk :: "nat \<Rightarrow> bytes" where
  "sample_disk b = (if b = 1 then wr32 (wr32 (\<lambda>_. 0) 12 30) 16 2 else if b = 2 then (\<lambda>_. 0) else (\<lambda>_. of_nat b))"

definition sample_boot :: klog where
  "sample_boot = \<lparr>klocks = {}, procs = (\<lambda>_. proc_zero), curproc = Some 0, nextpid = 1, initproc = None,
     pmem = (\<lambda>_ _. 0), freelist = 0, use_lock = True, kend = 0, kdata = 0, kpgdir = 0, cr3 = 0, tss_esp0 = 0,
     bufs = (\<lambda>_. buf_zero), memdisk = sample_disk, disksize = 100, dwrites = [],
     log_start = 2, log_size = 30, log_outstanding = 1, log_committing = False, log_dev = 1, lh_n = 0, lh_block = (\<lambda>_. 0)\<rparr>"

text \<open>Block 60 has been changed and logged.\<close>

definition sample_trans :: klog where
  "sample_trans = upd_buf 0 (\<lambda>b. b\<lparr>b_dev := 1, b_blockno := 60, b_valid := True, b_dirty := True, b_data := (\<lambda>_. 7)\<rparr>)
     ((binit sample_boot)\<lparr>lh_n := 1, lh_block := (\<lambda>_. 60)\<rparr>)"


lemma sample_boot_zero: "bufs sample_boot i = buf_zero" "klocks sample_boot = {}" "curproc sample_boot = Some 0"
  "bst (binit sample_boot) 0 {} {}" "log_start (binit sample_boot) = 2" "log_size (binit sample_boot) = 30"
  "log_dev (binit sample_boot) = 1" "disksize (binit sample_boot) = 100" "memdisk (binit sample_boot) = sample_disk"
  "log_outstanding (binit sample_boot) = 1" "\<not> log_committing (binit sample_boot)"
proof -
  show z: "bufs sample_boot i = buf_zero" "klocks sample_boot = {}" "curproc sample_boot = Some 0" for i by (simp_all add: sample_boot_def)
  show "bst (binit sample_boot) 0 {} {}" using bst_binit[OF z] by (simp add: sample_boot_def proc_zero_def)
qed (simp_all add: binit_def sample_boot_def)

lemma sample_disk_log: "sb_names_log 2 30 sample_disk" "hdr_n 2 sample_disk = 0"
proof -
  show "sb_names_log 2 30 sample_disk"
    by (simp add: sb_names_log_def sb_of_def bword_def sample_disk_def rd32_wr32_other)
  show "hdr_n 2 sample_disk = 0" by (simp add: hdr_n_def sample_disk_def rd32_def)
qed

lemma sample_trans_bst: "bst sample_trans 0 {} {60}"
proof -
  let ?B = "bufs (binit sample_boot)"
  note z = binit_zero[OF sample_boot_zero(1)] and b = bstD[OF sample_boot_zero(4)]
  define x where "x = (?B 0)\<lparr>b_dev := 1, b_blockno := 60, b_valid := True, b_dirty := True, b_data := (\<lambda>_. 7)\<rparr>"
  have st: "bufs sample_trans = ?B(0 := x)" "klocks sample_trans = {}" "curproc sample_trans = Some 0" "memdisk sample_trans = sample_disk"
    "p_pid (procs sample_trans 0) = 0"
    by (simp_all add: sample_trans_def x_def upd_buf_def sample_boot_zero(9)) (simp_all add: binit_def sample_boot_def proc_zero_def)
  have x: "b_refcnt x = 0" "\<not> blocked x" "b_dirty x" "b_blockno x = 60" by (simp_all add: x_def z)
  have "bufs_ok (?B(0 := x)) sample_disk"
    using b(1) unfolding sample_boot_zero(9) by (rule bufs_ok_upd) (simp_all add: x_def buf_ok_def z)
  then show ?thesis using x by (intro bstI[where p = 0]) (auto simp: st z NBUF_def MAXOPBLOCKS_def split: if_splits)
qed

lemma sample_trans_ready: "ready sample_trans 0 30" "lh_n sample_trans = 1" "log_outstanding sample_trans = 1" "\<not> log_committing sample_trans"
  "log_start sample_trans = 2" "view sample_trans 60 = (\<lambda>_. 7)" "disksize sample_trans = 100" "memdisk sample_trans = sample_disk"
proof -
  have f: "lh_n sample_trans = 1" "log_start sample_trans = 2" "log_size sample_trans = 30" "log_dev sample_trans = 1" "disksize sample_trans = 100"
    "memdisk sample_trans = sample_disk" "lh_block sample_trans = (\<lambda>_. 60)" "log_outstanding sample_trans = 1" "\<not> log_committing sample_trans"
    by (simp_all add: sample_trans_def upd_buf_def sample_boot_zero)
  then have lb: "log_blocks sample_trans = [60]" by (simp add: log_blocks_def)
  show "ready sample_trans 0 30" using sample_trans_bst sample_disk_log
    by (simp add: ready_def log_ok_def lb f LOGSIZE_def MAXOPBLOCKS_def NBUF_def)
  have "cached (bufs sample_trans) 60 = Some 0"
    by (simp add: cached_iff[OF bstD(1)[OF sample_trans_bst]]) (simp add: sample_trans_def NBUF_def MAXOPBLOCKS_def)
  then show "view sample_trans 60 = (\<lambda>_. 7)" by (simp add: cblk_def) (simp add: sample_trans_def)
qed (simp_all add: sample_trans_def upd_buf_def sample_boot_zero)



theorem begin_op_admission_witness: "begin_op (binit sample_boot) = Ok () ((binit sample_boot)\<lparr>log_outstanding := 2\<rparr>)"
  using begin_op_admission[of "binit sample_boot" 0] bstD(2)[OF sample_boot_zero(4)] sample_boot_zero(10,11)
  by (simp add: binit_def sample_boot_def LOGSIZE_def MAXOPBLOCKS_def)


theorem log_write_absorbs_witness:
  "\<exists>i s' s''. bread 1 60 (binit sample_boot) = Ok i s' \<and> log_write i s' = Ok () s'' \<and> log_blocks s'' = [60]"
proof -
  let ?s = "binit sample_boot"
  obtain i s' where b: "bread 1 60 ?s = Ok i s'" "bst s' 0 {60} {}" "hbuf (bufs s') 60 i" "same_store ?s s'"
    using bread_ex[OF sample_boot_zero(4), of 60] by (auto simp: sample_boot_zero NBUF_def MAXOPBLOCKS_def)
  note F = bio_frame_log[OF same_storeD(4)[OF b(4)]] same_storeD(5)[OF b(4)]
  have n: "lh_n ?s = 0" by (simp add: binit_def sample_boot_def)
  have lb: "log_blocks s' = []" by (simp add: log_blocks_def F n)
  have "in_trans s' 0 {60}" using b(2) by (simp add: in_trans_def log_ok_def lb F n sample_boot_zero)
  with log_write_absorbs[OF _ b(3), of 0 "{60}"] obtain s'' where w: "log_write i s' = Ok () s''" "set (log_blocks s'') = {60}" "lh_n s'' = 1"
    by (auto simp: F n lb sample_boot_zero LOGSIZE_def MAXOPBLOCKS_def)
  then have "log_blocks s'' = [60]" by (simp add: log_blocks_def)
  with b(1) w(1) show ?thesis by blast
qed


end
