(* ===== verification/Fs.thy ===== *)
theory Fs
  imports Log Cstring
begin

text \<open>
  The file system: \<^verbatim>\<open>src/xv6/fs.c\<close> (block allocator, inodes, directories, path names), with the structures of
  \<^verbatim>\<open>src/xv6/fs.h\<close>, \<^verbatim>\<open>src/xv6/file.h\<close> and \<^verbatim>\<open>src/xv6/stat.h\<close>.

  Inode \<open>i\<close> of \<^verbatim>\<open>icache.inode\<close> is index \<open>i\<close>; a null inode pointer is \<open>None\<close>. Words of the disk structures are
  read and written in the bytes of their block. A C string or a character array is the function of its
  bytes; a path name is the list of its bytes before the NUL. \<^verbatim>\<open>readi\<close> returns the bytes it copies, and its caller
  stores them; \<^verbatim>\<open>writei\<close> is given the bytes of its source. The table \<^verbatim>\<open>devsw\<close> is an argument: its
  entries are routines of the drivers. Messages to the console are left out.
\<close>

subsection \<open>Structures\<close>

record inode =
  i_dev :: nat
  i_inum :: nat
  i_ref :: int
  i_lock :: sleeplock
  i_valid :: bool
  i_type :: u16
  i_major :: u16
  i_minor :: u16
  i_nlink :: u16
  i_size :: u32
  i_addrs :: "nat \<Rightarrow> u32"

record kfs = klog +
  icache :: "nat \<Rightarrow> inode"
  sb :: superblock

record stat =
  st_type :: u16
  st_dev :: nat
  st_ino :: nat
  st_nlink :: u16
  st_size :: u32

text \<open>The driver entries of a device: reading gives the result and the bytes for the destination.\<close>

record 's devsw =
  dev_read :: "(nat \<Rightarrow> int \<Rightarrow> (int \<times> u8 list, 's) kop) option"
  dev_write :: "(nat \<Rightarrow> bytes \<Rightarrow> int \<Rightarrow> (int, 's) kop) option"

definition T_DIR :: u16 where "T_DIR = 1"
definition T_FILE :: u16 where "T_FILE = 2"
definition T_DEV :: u16 where "T_DEV = 3"
definition IPB :: nat where "IPB = BSIZE div 64"
definition BPB :: nat where "BPB = BSIZE * 8"

definition IBLOCK :: "nat \<Rightarrow> superblock \<Rightarrow> nat" where
  "IBLOCK i b = i div IPB + sb_inodestart b"

definition BBLOCK :: "nat \<Rightarrow> superblock \<Rightarrow> nat" where
  "BBLOCK i b = i div BPB + sb_bmapstart b"

definition upd_inode :: "nat \<Rightarrow> (inode \<Rightarrow> inode) \<Rightarrow> 'a kfs_scheme \<Rightarrow> 'a kfs_scheme" where
  "upd_inode ip f s = s\<lparr>icache := (icache s)(ip := f (icache s ip))\<rparr>"

abbreviation inode_lock :: "nat \<Rightarrow> 'a kfs_scheme \<Rightarrow> sleeplock" where
  "inode_lock ip s \<equiv> i_lock (icache s ip)"

abbreviation upd_inode_lock :: "nat \<Rightarrow> (sleeplock \<Rightarrow> sleeplock) \<Rightarrow> 'a kfs_scheme \<Rightarrow> 'a kfs_scheme" where
  "upd_inode_lock ip f \<equiv> upd_inode ip (i_lock_update f)"

abbreviation bdata :: "nat \<Rightarrow> (bytes, 'a kbio_scheme) kop" where
  "bdata bp \<equiv> kget (\<lambda>s. b_data (bufs s bp))"

abbreviation bstore :: "nat \<Rightarrow> (bytes \<Rightarrow> bytes) \<Rightarrow> (unit, 'a kbio_scheme) kop" where
  "bstore bp f \<equiv> kmod (upd_buf bp (b_data_update f))"

abbreviation inode_of :: "nat \<Rightarrow> (inode, 'a kfs_scheme) kop" where
  "inode_of ip \<equiv> kget (\<lambda>s. icache s ip)"

text \<open>An on-disk inode (64 bytes) at offset \<open>o\<close> of a block.\<close>

definition dinode_get :: "bytes \<Rightarrow> nat \<Rightarrow> inode \<Rightarrow> inode" where
  "dinode_get d off ip = ip\<lparr>i_type := rd16 d off, i_major := rd16 d (off + 2), i_minor := rd16 d (off + 4),
     i_nlink := rd16 d (off + 6), i_size := rd32 d (off + 8),
     i_addrs := (\<lambda>k. if k \<le> NDIRECT then rd32 d (off + 12 + 4 * k) else i_addrs ip k)\<rparr>"

definition dinode_put :: "inode \<Rightarrow> nat \<Rightarrow> bytes \<Rightarrow> bytes" where
  "dinode_put ip off d0 =
     (let d1 = wr16 d0 off (i_type ip); d2 = wr16 d1 (off + 2) (i_major ip); d3 = wr16 d2 (off + 4) (i_minor ip);
          d4 = wr16 d3 (off + 6) (i_nlink ip); d5 = wr32 d4 (off + 8) (i_size ip)
      in foldl (\<lambda>d k. wr32 d (off + 12 + 4 * k) (i_addrs ip k)) d5 [0..<NDIRECT + 1])"

definition dinode_off :: "nat \<Rightarrow> nat" where
  "dinode_off inum = 64 * (inum mod IPB)"

subsection \<open>Blocks\<close>

definition bzero :: "nat \<Rightarrow> nat \<Rightarrow> (unit, 'a klog_scheme) kop" where
  "bzero dev bno =
     kbind (bread dev bno) (\<lambda>bp.
     kthen (bstore bp (\<lambda>d. memset d 0 0 BSIZE)) (
     kthen (log_write bp) (brelse bp)))"

definition bbit :: "nat \<Rightarrow> u8" where
  "bbit bi = push_bit (bi mod 8) 1"

primrec balloc_loop :: "nat list \<Rightarrow> nat \<Rightarrow> (nat, 'a kfs_scheme) kop" where
  "balloc_loop [] dev = kpanic ''balloc: out of blocks''"
| "balloc_loop (b # bs) dev =
     kbind (kget sb) (\<lambda>sp.
     kbind (bread dev (BBLOCK b sp)) (\<lambda>bp.
     kbind (bdata bp) (\<lambda>d.
     case List.find (\<lambda>bi. d (bi div 8) AND bbit bi = 0) [0..<min BPB (sb_size sp - b)] of
       Some bi \<Rightarrow>
         kthen (bstore bp (\<lambda>d. d(bi div 8 := d (bi div 8) OR bbit bi))) (
         kthen (log_write bp) (
         kthen (brelse bp) (
         kthen (bzero dev (b + bi)) (kret (b + bi)))))
     | None \<Rightarrow> kthen (brelse bp) (balloc_loop bs dev))))"

definition balloc :: "nat \<Rightarrow> (nat, 'a kfs_scheme) kop" where
  "balloc dev =
     kbind (kget sb) (\<lambda>sp. balloc_loop (map (\<lambda>k. k * BPB) [0..<(sb_size sp + BPB - 1) div BPB]) dev)"

definition bfree :: "nat \<Rightarrow> nat \<Rightarrow> (unit, 'a kfs_scheme) kop" where
  "bfree dev b =
     kbind (kget sb) (\<lambda>sp.
     kbind (bread dev (BBLOCK b sp)) (\<lambda>bp.
     kbind (bdata bp) (\<lambda>d.
     let bi = b mod BPB in
     if d (bi div 8) AND bbit bi = 0 then kpanic ''freeing free block'' else
     kthen (bstore bp (\<lambda>d. d(bi div 8 := d (bi div 8) AND NOT (bbit bi)))) (
     kthen (log_write bp) (brelse bp)))))"

subsection \<open>Inodes\<close>

definition iinit :: "nat \<Rightarrow> (unit, 'a kfs_scheme) kop" where
  "iinit dev =
     kthen (kfor [0..<NINODE] (\<lambda>i. kmod (upd_inode_lock i (initsleeplock ''inode'')))) (
     kbind (readsb dev) (\<lambda>b. kmod (\<lambda>s. s\<lparr>sb := b\<rparr>)))"

definition iget :: "nat \<Rightarrow> nat \<Rightarrow> (nat, 'a kfs_scheme) kop" where
  "iget dev inum =
     kthen (acquire LIcache) (
     kbind (kget icache) (\<lambda>I.
     case List.find (\<lambda>ip. 0 < i_ref (I ip) \<and> i_dev (I ip) = dev \<and> i_inum (I ip) = inum) [0..<NINODE] of
       Some ip \<Rightarrow>
         kthen (kmod (upd_inode ip (i_ref_update (\<lambda>r. r + 1)))) (
         kthen (release LIcache) (kret ip))
     | None \<Rightarrow> (case List.find (\<lambda>ip. i_ref (I ip) = 0) [0..<NINODE] of
         None \<Rightarrow> kpanic ''iget: no inodes''
       | Some ip \<Rightarrow>
           kthen (kmod (upd_inode ip (\<lambda>x. x\<lparr>i_dev := dev, i_inum := inum, i_ref := 1, i_valid := False\<rparr>))) (
           kthen (release LIcache) (kret ip)))))"

primrec ialloc_loop :: "nat list \<Rightarrow> nat \<Rightarrow> u16 \<Rightarrow> (nat, 'a kfs_scheme) kop" where
  "ialloc_loop [] dev type = kpanic ''ialloc: no inodes''"
| "ialloc_loop (inum # is) dev type =
     kbind (kget sb) (\<lambda>sp.
     kbind (bread dev (IBLOCK inum sp)) (\<lambda>bp.
     kbind (bdata bp) (\<lambda>d.
     if rd16 d (dinode_off inum) = 0 then
       kthen (bstore bp (\<lambda>d. wr16 (memset d (dinode_off inum) 0 64) (dinode_off inum) type)) (
       kthen (log_write bp) (
       kthen (brelse bp) (iget dev inum)))
     else kthen (brelse bp) (ialloc_loop is dev type))))"

definition ialloc :: "nat \<Rightarrow> u16 \<Rightarrow> (nat, 'a kfs_scheme) kop" where
  "ialloc dev type = kbind (kget sb) (\<lambda>sp. ialloc_loop [1..<sb_ninodes sp] dev type)"

definition iupdate :: "nat \<Rightarrow> (unit, 'a kfs_scheme) kop" where
  "iupdate ip =
     kbind (inode_of ip) (\<lambda>x.
     kbind (kget sb) (\<lambda>sp.
     kbind (bread (i_dev x) (IBLOCK (i_inum x) sp)) (\<lambda>bp.
     kthen (bstore bp (dinode_put x (dinode_off (i_inum x)))) (
     kthen (log_write bp) (brelse bp)))))"

definition idup :: "nat \<Rightarrow> (nat, 'a kfs_scheme) kop" where
  "idup ip =
     kthen (acquire LIcache) (
     kthen (kmod (upd_inode ip (i_ref_update (\<lambda>r. r + 1)))) (
     kthen (release LIcache) (kret ip)))"

definition ilock :: "nat option \<Rightarrow> (unit, 'a kfs_scheme) kop" where
  "ilock po = (case po of
     None \<Rightarrow> kpanic ''ilock''
   | Some ip \<Rightarrow>
       kbind (inode_of ip) (\<lambda>x0.
       if i_ref x0 < 1 then kpanic ''ilock'' else
       kthen (acquiresleep (LInode ip) (ChInodeLock ip) (inode_lock ip) (upd_inode_lock ip)) (
       kbind (inode_of ip) (\<lambda>x.
       if \<not> i_valid x then
         kbind (kget sb) (\<lambda>sp.
         kbind (bread (i_dev x) (IBLOCK (i_inum x) sp)) (\<lambda>bp.
         kbind (bdata bp) (\<lambda>d.
         kthen (kmod (upd_inode ip (dinode_get d (dinode_off (i_inum x))))) (
         kthen (brelse bp) (
         kthen (kmod (upd_inode ip (i_valid_update (\<lambda>_. True)))) (
         kbind (inode_of ip) (\<lambda>y. if i_type y = 0 then kpanic ''ilock: no type'' else kret ())))))))
       else kret ()))))"

definition iunlock :: "nat option \<Rightarrow> (unit, 'a kfs_scheme) kop" where
  "iunlock po = (case po of
     None \<Rightarrow> kpanic ''iunlock''
   | Some ip \<Rightarrow>
       kbind (holdingsleep (LInode ip) (inode_lock ip)) (\<lambda>h.
       kbind (inode_of ip) (\<lambda>x.
       if \<not> h \<or> i_ref x < 1 then kpanic ''iunlock''
       else releasesleep (LInode ip) (ChInodeLock ip) (upd_inode_lock ip))))"

definition itrunc :: "nat \<Rightarrow> (unit, 'a kfs_scheme) kop" where
  "itrunc ip =
     kthen (kfor [0..<NDIRECT] (\<lambda>i.
       kbind (inode_of ip) (\<lambda>x.
       if i_addrs x i \<noteq> 0 then
         kthen (bfree (i_dev x) (unat (i_addrs x i))) (kmod (upd_inode ip (i_addrs_update (\<lambda>a. a(i := 0)))))
       else kret ()))) (
     kthen (kbind (inode_of ip) (\<lambda>x.
       if i_addrs x NDIRECT \<noteq> 0 then
         kbind (bread (i_dev x) (unat (i_addrs x NDIRECT))) (\<lambda>bp.
         kthen (kfor [0..<NINDIRECT] (\<lambda>j.
           kbind (bdata bp) (\<lambda>a. if bword a j \<noteq> 0 then bfree (i_dev x) (bword a j) else kret ()))) (
         kthen (brelse bp) (
         kthen (bfree (i_dev x) (unat (i_addrs x NDIRECT)))
           (kmod (upd_inode ip (i_addrs_update (\<lambda>a. a(NDIRECT := 0))))))))
       else kret ())) (
     kthen (kmod (upd_inode ip (i_size_update (\<lambda>_. 0)))) (iupdate ip)))"

definition iput :: "nat \<Rightarrow> (unit, 'a kfs_scheme) kop" where
  "iput ip =
     kthen (acquiresleep (LInode ip) (ChInodeLock ip) (inode_lock ip) (upd_inode_lock ip)) (
     kthen (kbind (inode_of ip) (\<lambda>x.
       if i_valid x \<and> i_nlink x = 0 then
         kthen (acquire LIcache) (
         kbind (kget (\<lambda>s. i_ref (icache s ip))) (\<lambda>r.
         kthen (release LIcache) (
         if r = 1 then
           kthen (itrunc ip) (
           kthen (kmod (upd_inode ip (i_type_update (\<lambda>_. 0)))) (
           kthen (iupdate ip) (kmod (upd_inode ip (i_valid_update (\<lambda>_. False))))))
         else kret ())))
       else kret ())) (
     kthen (releasesleep (LInode ip) (ChInodeLock ip) (upd_inode_lock ip)) (
     kthen (acquire LIcache) (
     kthen (kmod (upd_inode ip (i_ref_update (\<lambda>r. r - 1)))) (release LIcache)))))"

definition iunlockput :: "nat \<Rightarrow> (unit, 'a kfs_scheme) kop" where
  "iunlockput ip = kthen (iunlock (Some ip)) (iput ip)"

subsection \<open>Contents\<close>

definition bmap :: "nat \<Rightarrow> nat \<Rightarrow> (nat, 'a kfs_scheme) kop" where
  "bmap ip bn =
     kbind (inode_of ip) (\<lambda>x.
     if bn < NDIRECT then
       if i_addrs x bn = 0 then
         kbind (balloc (i_dev x)) (\<lambda>addr.
         kthen (kmod (upd_inode ip (i_addrs_update (\<lambda>a. a(bn := of_nat addr))))) (kret addr))
       else kret (unat (i_addrs x bn))
     else
       let bn = bn - NDIRECT in
       if bn < NINDIRECT then
         kbind (if i_addrs x NDIRECT = 0 then
                  kbind (balloc (i_dev x)) (\<lambda>addr.
                  kthen (kmod (upd_inode ip (i_addrs_update (\<lambda>a. a(NDIRECT := of_nat addr))))) (kret addr))
                else kret (unat (i_addrs x NDIRECT))) (\<lambda>addr.
         kbind (bread (i_dev x) addr) (\<lambda>bp.
         kbind (bdata bp) (\<lambda>a.
         kbind (if bword a bn = 0 then
                  kbind (balloc (i_dev x)) (\<lambda>addr.
                  kthen (bstore bp (\<lambda>d. wr32 d (4 * bn) (of_nat addr))) (
                  kthen (log_write bp) (kret addr)))
                else kret (bword a bn)) (\<lambda>addr.
         kthen (brelse bp) (kret addr)))))
       else kpanic ''bmap: out of range'')"

definition stati :: "nat \<Rightarrow> (stat, 'a kfs_scheme) kop" where
  "stati ip =
     kbind (inode_of ip) (\<lambda>x.
     kret \<lparr>st_type = i_type x, st_dev = i_dev x, st_ino = i_inum x, st_nlink = i_nlink x, st_size = i_size x\<rparr>)"

text \<open>The \<open>n\<close> bytes from offset \<open>off\<close> on, block by block. Each round copies at least one byte, so \<open>n\<close> rounds
  are enough.\<close>

primrec readi_loop :: "nat \<Rightarrow> nat \<Rightarrow> nat \<Rightarrow> nat \<Rightarrow> (u8 list, 'a kfs_scheme) kop" where
  "readi_loop 0 ip off n = kret []"
| "readi_loop (Suc f) ip off n =
     (if \<not> 0 < n then kret [] else
      kbind (bmap ip (off div BSIZE)) (\<lambda>addr.
      kbind (kget (\<lambda>s. i_dev (icache s ip))) (\<lambda>dev.
      kbind (bread dev addr) (\<lambda>bp.
      let m = min n (BSIZE - off mod BSIZE) in
      kbind (bdata bp) (\<lambda>d.
      kthen (brelse bp) (
      kbind (readi_loop f ip (off + m) (n - m)) (\<lambda>rest.
      kret (map d [off mod BSIZE..<off mod BSIZE + m] @ rest))))))))"

definition devsw_of :: "(nat \<Rightarrow> 's devsw) \<Rightarrow> u16 \<Rightarrow> 's devsw option" where
  "devsw_of dv major = (if sint major < 0 \<or> int NDEV \<le> sint major then None else Some (dv (unat major)))"

definition readi :: "(nat \<Rightarrow> 'a kfs_scheme devsw) \<Rightarrow> nat \<Rightarrow> u32 \<Rightarrow> u32 \<Rightarrow> (int \<times> u8 list, 'a kfs_scheme) kop" where
  "readi dv ip off n =
     kbind (inode_of ip) (\<lambda>x.
     if i_type x = T_DEV then
       (case devsw_of dv (i_major x) of
          None \<Rightarrow> kret (-1, [])
        | Some e \<Rightarrow> (case dev_read e of None \<Rightarrow> kret (-1, []) | Some rd \<Rightarrow> rd ip (sint n)))
     else if off > i_size x \<or> off + n < off then kret (-1, [])
     else let n = (if off + n > i_size x then i_size x - off else n) in
       kbind (readi_loop (unat n) ip (unat off) (unat n)) (\<lambda>bs. kret (sint n, bs)))"

primrec writei_loop :: "nat \<Rightarrow> nat \<Rightarrow> bytes \<Rightarrow> nat \<Rightarrow> nat \<Rightarrow> nat \<Rightarrow> (unit, 'a kfs_scheme) kop" where
  "writei_loop 0 ip src tot off n = kret ()"
| "writei_loop (Suc f) ip src tot off n =
     (if \<not> 0 < n then kret () else
      kbind (bmap ip (off div BSIZE)) (\<lambda>addr.
      kbind (kget (\<lambda>s. i_dev (icache s ip))) (\<lambda>dev.
      kbind (bread dev addr) (\<lambda>bp.
      let m = min n (BSIZE - off mod BSIZE) in
      kthen (bstore bp (\<lambda>d. bcopy src tot d (off mod BSIZE) m)) (
      kthen (log_write bp) (
      kthen (brelse bp) (writei_loop f ip src (tot + m) (off + m) (n - m))))))))"

definition writei :: "(nat \<Rightarrow> 'a kfs_scheme devsw) \<Rightarrow> nat \<Rightarrow> bytes \<Rightarrow> u32 \<Rightarrow> u32 \<Rightarrow> (int, 'a kfs_scheme) kop" where
  "writei dv ip src off n =
     kbind (inode_of ip) (\<lambda>x.
     if i_type x = T_DEV then
       (case devsw_of dv (i_major x) of
          None \<Rightarrow> kret (-1)
        | Some e \<Rightarrow> (case dev_write e of None \<Rightarrow> kret (-1) | Some wr \<Rightarrow> wr ip src (sint n)))
     else if off > i_size x \<or> off + n < off then kret (-1)
     else if off + n > of_nat (MAXFILE * BSIZE) then kret (-1)
     else
       kthen (writei_loop (unat n) ip src 0 (unat off) (unat n)) (
       kbind (inode_of ip) (\<lambda>y.
       kthen (if n > 0 \<and> off + n > i_size y then
                kthen (kmod (upd_inode ip (i_size_update (\<lambda>_. off + n)))) (iupdate ip)
              else kret ())
         (kret (sint n)))))"

subsection \<open>Directories\<close>

text \<open>\<^verbatim>\<open>sizeof(struct dirent)\<close>.\<close>

definition DESIZE :: nat where "DESIZE = 2 + DIRSIZ"

text \<open>Two character arrays in one memory, at addresses 0 and \<open>DIRSIZ\<close>; only their first \<open>DIRSIZ\<close> bytes are read.\<close>

definition namecmp :: "bytes \<Rightarrow> bytes \<Rightarrow> int" where
  "namecmp s t = strncmp (\<lambda>i. if i < DIRSIZ then s i else t (i - DIRSIZ)) 0 DIRSIZ DIRSIZ"

definition list_bytes :: "u8 list \<Rightarrow> bytes" where
  "list_bytes xs = (\<lambda>i. if i < length xs then xs ! i else 0)"

definition de_inum :: "u8 list \<Rightarrow> u16" where
  "de_inum de = rd16 (list_bytes de) 0"

definition de_name :: "u8 list \<Rightarrow> bytes" where
  "de_name de = list_bytes (drop 2 de)"

text \<open>The scan from offset \<open>off\<close> on, over \<open>f\<close> entries at most; the result has the inode and its offset.\<close>

primrec dirlookup_loop :: "nat \<Rightarrow> (nat \<Rightarrow> 'a kfs_scheme devsw) \<Rightarrow> nat \<Rightarrow> bytes \<Rightarrow> u32 \<Rightarrow> ((nat \<times> u32) option, 'a kfs_scheme) kop" where
  "dirlookup_loop 0 dv dp name off = kret None"
| "dirlookup_loop (Suc f) dv dp name off =
     kbind (inode_of dp) (\<lambda>x.
     if \<not> off < i_size x then kret None else
     kbind (readi dv dp off (of_nat DESIZE)) (\<lambda>(r, de).
     if r \<noteq> int DESIZE then kpanic ''dirlookup read''
     else if de_inum de = 0 then dirlookup_loop f dv dp name (off + of_nat DESIZE)
     else if namecmp name (de_name de) = 0 then
       kbind (iget (i_dev x) (unat (de_inum de))) (\<lambda>ip. kret (Some (ip, off)))
     else dirlookup_loop f dv dp name (off + of_nat DESIZE)))"

definition dirlookup :: "(nat \<Rightarrow> 'a kfs_scheme devsw) \<Rightarrow> nat \<Rightarrow> bytes \<Rightarrow> ((nat \<times> u32) option, 'a kfs_scheme) kop" where
  "dirlookup dv dp name =
     kbind (inode_of dp) (\<lambda>x.
     if i_type x \<noteq> T_DIR then kpanic ''dirlookup not DIR''
     else dirlookup_loop ((unat (i_size x) + DESIZE - 1) div DESIZE) dv dp name 0)"

text \<open>The offset of the first empty entry, or the end.\<close>

primrec dirlink_loop :: "nat \<Rightarrow> (nat \<Rightarrow> 'a kfs_scheme devsw) \<Rightarrow> nat \<Rightarrow> u32 \<Rightarrow> (u32, 'a kfs_scheme) kop" where
  "dirlink_loop 0 dv dp off = kret off"
| "dirlink_loop (Suc f) dv dp off =
     kbind (inode_of dp) (\<lambda>x.
     if \<not> off < i_size x then kret off else
     kbind (readi dv dp off (of_nat DESIZE)) (\<lambda>(r, de).
     if r \<noteq> int DESIZE then kpanic ''dirlink read''
     else if de_inum de = 0 then kret off
     else dirlink_loop f dv dp (off + of_nat DESIZE)))"

text \<open>The entry that \<^verbatim>\<open>dirlink\<close> writes: every byte of it is set by \<^verbatim>\<open>strncpy\<close> or is part of the number. The source
  string is at address \<open>DESIZE\<close> while it is copied.\<close>

definition dirent_of :: "bytes \<Rightarrow> u16 \<Rightarrow> bytes" where
  "dirent_of name inum = wr16 (strncpy (\<lambda>i. if i < DESIZE then 0 else name (i - DESIZE)) 2 DESIZE (int DIRSIZ)) 0 inum"

definition dirlink :: "(nat \<Rightarrow> 'a kfs_scheme devsw) \<Rightarrow> nat \<Rightarrow> bytes \<Rightarrow> nat \<Rightarrow> (int, 'a kfs_scheme) kop" where
  "dirlink dv dp name inum =
     kbind (dirlookup dv dp name) (\<lambda>r. case r of
       Some (ip, _) \<Rightarrow> kthen (iput ip) (kret (-1))
     | None \<Rightarrow>
         kbind (inode_of dp) (\<lambda>x.
         kbind (dirlink_loop ((unat (i_size x) + DESIZE - 1) div DESIZE) dv dp 0) (\<lambda>off.
         kbind (writei dv dp (dirent_of name (of_nat inum)) off (of_nat DESIZE)) (\<lambda>w.
         if w \<noteq> int DESIZE then kpanic ''dirlink'' else kret 0))))"

subsection \<open>Paths\<close>

definition SLASH :: u8 where "SLASH = 47"

definition skipelem :: "u8 list \<Rightarrow> bytes \<Rightarrow> (u8 list \<times> bytes) option" where
  "skipelem path name =
     (let path = dropWhile (\<lambda>c. c = SLASH) path in
      if path = [] then None else
      let s = takeWhile (\<lambda>c. c \<noteq> SLASH) path; path = dropWhile (\<lambda>c. c \<noteq> SLASH) path; len = length s;
          name = (if DIRSIZ \<le> len then bcopy (list_bytes s) 0 name 0 DIRSIZ else (bcopy (list_bytes s) 0 name 0 len)(len := 0))
      in Some (dropWhile (\<lambda>c. c = SLASH) path, name))"

text \<open>The loop of \<^verbatim>\<open>namex\<close>; each round takes at least one byte off the path. The result has the final name.\<close>

primrec namex_loop :: "nat \<Rightarrow> (nat \<Rightarrow> 'a kfs_scheme devsw) \<Rightarrow> nat \<Rightarrow> u8 list \<Rightarrow> bool \<Rightarrow> bytes \<Rightarrow> (nat option \<times> bytes, 'a kfs_scheme) kop" where
  "namex_loop 0 dv ip path parent name = kret (None, name)"
| "namex_loop (Suc f) dv ip path parent name =
     (case skipelem path name of
        None \<Rightarrow> if parent then kthen (iput ip) (kret (None, name)) else kret (Some ip, name)
      | Some (path, name) \<Rightarrow>
          kthen (ilock (Some ip)) (
          kbind (inode_of ip) (\<lambda>x.
          if i_type x \<noteq> T_DIR then kthen (iunlockput ip) (kret (None, name))
          else if parent \<and> path = [] then kthen (iunlock (Some ip)) (kret (Some ip, name))
          else kbind (dirlookup dv ip name) (\<lambda>r. case r of
            None \<Rightarrow> kthen (iunlockput ip) (kret (None, name))
          | Some (next, _) \<Rightarrow> kthen (iunlockput ip) (namex_loop f dv next path parent name)))))"

definition namex :: "(nat \<Rightarrow> 'a kfs_scheme devsw) \<Rightarrow> u8 list \<Rightarrow> bool \<Rightarrow> bytes \<Rightarrow> (nat option \<times> bytes, 'a kfs_scheme) kop" where
  "namex dv path parent name =
     kbind (if path \<noteq> [] \<and> hd path = SLASH then iget ROOTDEV ROOTINO
            else kbind (kget (\<lambda>s. map_option (\<lambda>p. p_cwd (procs s p)) (curproc s))) (\<lambda>c. case c of
              Some (Some d) \<Rightarrow> idup d
            | _ \<Rightarrow> kpanic ''trap'')) (\<lambda>ip.
     namex_loop (length path + 1) dv ip path parent name)"

definition namei :: "(nat \<Rightarrow> 'a kfs_scheme devsw) \<Rightarrow> u8 list \<Rightarrow> (nat option, 'a kfs_scheme) kop" where
  "namei dv path = kbind (namex dv path False (\<lambda>_. 0)) (\<lambda>(ip, _). kret ip)"

definition nameiparent :: "(nat \<Rightarrow> 'a kfs_scheme devsw) \<Rightarrow> u8 list \<Rightarrow> bytes \<Rightarrow> (nat option \<times> bytes, 'a kfs_scheme) kop" where
  "nameiparent dv path name = namex dv path True name"

end
