(* ===== verification/Fs_Blocks.thy ===== *)
theory Fs_Blocks
  imports Fs
begin

text \<open>
  Block level of the file system inside a transaction: the rules by which the routines of \<^verbatim>\<open>src/xv6/fs.c\<close> read and change
  blocks through the buffer cache and the log, and the block allocator proved with them.

  A state of a transaction (\<open>tr\<close>) is one of the log's (\<open>in_trans\<close>) with room for a number of further log entries. A block that
  is held is one whose buffer the process has locked, with its contents either those of the disk or pinned by the log.
  Shown: \<^verbatim>\<open>balloc\<close> returns the lowest free block, marks it and zeroes it; \<^verbatim>\<open>bfree\<close> undoes the mark; no other block changes.
\<close>

subsection \<open>States of a transaction\<close>

definition fs_frame :: "'a kfs_scheme \<Rightarrow> 'a kfs_scheme \<Rightarrow> bool" where
  "fs_frame s s' \<longleftrightarrow> (\<exists>n blk. bio_frame (s\<lparr>lh_n := n, lh_block := blk\<rparr>) s')"

lemma fs_frame_bio: "bio_frame s s' \<Longrightarrow> fs_frame s s'"
  unfolding fs_frame_def by (intro exI[of _ "lh_n s"] exI[of _ "lh_block s"]) simp

lemma fs_frame_refl [simp]: "fs_frame s s"
  by (rule fs_frame_bio) simp

lemma bio_frame_log_upd:
  assumes "bio_frame s t"
  shows "bio_frame (s\<lparr>lh_n := n, lh_block := b\<rparr>) (t\<lparr>lh_n := n, lh_block := b\<rparr>)"
proof -
  obtain ps B D W where t: "t = s\<lparr>procs := ps, bufs := B, memdisk := D, dwrites := W\<rparr>"
    and ps: "\<And>i. ps i = (procs s i)\<lparr>p_state := p_state (ps i)\<rparr>" using assms unfolding bio_frame_def by blast
  show ?thesis by (rule bio_frameI[where ps = ps and B = B and D = D and W = W]) (simp add: t, simp, rule ps)
qed

lemma fs_frame_trans:
  assumes "fs_frame s t" "fs_frame t u"
  shows "fs_frame s u"
proof -
  obtain n blk where 1: "bio_frame (s\<lparr>lh_n := n, lh_block := blk\<rparr>) t" using assms(1) unfolding fs_frame_def by blast
  obtain m c where 2: "bio_frame (t\<lparr>lh_n := m, lh_block := c\<rparr>) u" using assms(2) unfolding fs_frame_def by blast
  have "bio_frame (s\<lparr>lh_n := m, lh_block := c\<rparr>) (t\<lparr>lh_n := m, lh_block := c\<rparr>)"
    using bio_frame_log_upd[OF 1, where n = m and b = c] by simp
  then show ?thesis using bio_frame_trans[OF _ 2] unfolding fs_frame_def by blast
qed

lemma fs_frame_sel:
  assumes "fs_frame s s'"
  shows "icache s' = icache s" "sb s' = sb s" "disksize s' = disksize s" "log_start s' = log_start s" "log_size s' = log_size s"
    "klocks s' = klocks s" "curproc s' = curproc s" "p_pid (procs s' i) = p_pid (procs s i)" "kfs.more s' = kfs.more s"
proof -
  obtain n blk where b: "bio_frame (s\<lparr>lh_n := n, lh_block := blk\<rparr>) s'" using assms unfolding fs_frame_def by blast
  then obtain ps B D W where t: "s' = s\<lparr>lh_n := n, lh_block := blk, procs := ps, bufs := B, memdisk := D, dwrites := W\<rparr>"
    unfolding bio_frame_def by auto
  show "icache s' = icache s" "sb s' = sb s" "disksize s' = disksize s" "log_start s' = log_start s" "log_size s' = log_size s"
    "klocks s' = klocks s" "curproc s' = curproc s" "kfs.more s' = kfs.more s" by (simp_all add: t)
  show "p_pid (procs s' i) = p_pid (procs s i)" using bio_frame_sel(7)[OF b] by simp
qed

text \<open>A state in which the process may read blocks, holding the buffers of the blocks \<open>H\<close>.\<close>

definition rd :: "'a kfs_scheme \<Rightarrow> int \<Rightarrow> nat set \<Rightarrow> bool" where
  "rd s pid H \<longleftrightarrow> bst s pid H (set (log_blocks s)) \<and> log_ok s \<and> lh_n s + 3 \<le> int NBUF"

text \<open>A transaction with a budget: it may log the blocks \<open>B\<close> and \<open>k\<close> more, which are \<open>M\<close> together with those logged before. The log and the
  cache have room for all of them, and for three more buffers.\<close>

definition tr :: "nat \<Rightarrow> 'a kfs_scheme \<Rightarrow> int \<Rightarrow> nat set \<Rightarrow> nat set \<Rightarrow> nat \<Rightarrow> bool" where
  "tr M s pid H B k \<longleftrightarrow> in_trans s pid H \<and> finite B \<and> card (set (log_blocks s) \<union> B) + k \<le> M \<and> M + 3 \<le> NBUF \<and> int M + 1 < log_size s"

lemma log_n: "log_ok s \<Longrightarrow> lh_n s = int (card (set (log_blocks s)))"
  using log_okD[of s] by (simp add: distinct_card)

lemma trD:
  assumes "tr M s pid H B k"
  shows "rd s pid H" "in_trans s pid H" "finite B" "lh_n s + int k + 3 \<le> int NBUF" "lh_n s + int k + 1 < log_size s" "log_ok s"
    "bst s pid H (set (log_blocks s))" "lh_n s + int k \<le> int M"
proof -
  show t: "in_trans s pid H" "finite B" using assms by (simp_all add: tr_def)
  then show L: "log_ok s" "bst s pid H (set (log_blocks s))" by (simp_all add: in_trans_def)
  have "card (set (log_blocks s)) \<le> card (set (log_blocks s) \<union> B)" using t(2) by (intro card_mono) auto
  then show "lh_n s + int k + 3 \<le> int NBUF" "lh_n s + int k + 1 < log_size s" "lh_n s + int k \<le> int M" using assms log_n[OF L(1)] by (auto simp: tr_def)
  then show "rd s pid H" using L by (simp add: rd_def)
qed

lemma tr_spend:
  assumes "tr M s pid H B (Suc k)"
  shows "tr M s pid H (insert b B) k"
proof -
  have "card (set (log_blocks s) \<union> insert b B) \<le> Suc (card (set (log_blocks s) \<union> B))"
    using card_Un_le[of "{b}" "set (log_blocks s) \<union> B"] by simp
  then show ?thesis using assms by (simp add: tr_def)
qed

lemma tr_mono:
  assumes "tr M s pid H B k" "j \<le> k" "C \<subseteq> B"
  shows "tr M s pid H C j"
proof -
  have "card (set (log_blocks s) \<union> C) \<le> card (set (log_blocks s) \<union> B)" using assms(3) trD(3)[OF assms(1)] by (intro card_mono) auto
  then show ?thesis using assms finite_subset[OF assms(3)] by (simp add: tr_def)
qed

definition held :: "'a kfs_scheme \<Rightarrow> nat \<Rightarrow> nat \<Rightarrow> bool" where
  "held s bn i \<longleftrightarrow> hbuf (bufs s) bn i \<and> (bn \<in> set (log_blocks s) \<or> view s bn = memdisk s bn)"

definition keeps :: "nat set \<Rightarrow> 'a kfs_scheme \<Rightarrow> 'a kfs_scheme \<Rightarrow> bool" where
  "keeps X s s' \<longleftrightarrow> (\<forall>c j. c \<notin> X \<longrightarrow> held s c j \<longrightarrow> held s' c j)"

lemma keeps_trans: "keeps X s t \<Longrightarrow> keeps Y t u \<Longrightarrow> keeps (X \<union> Y) s u"
  by (simp add: keeps_def)

lemma keeps_refl [simp]: "keeps X s s"
  by (simp add: keeps_def)

lemma keeps_mono: "keeps X s t \<Longrightarrow> X \<subseteq> Y \<Longrightarrow> keeps Y s t"
  by (auto simp: keeps_def)

text \<open>A block that may be logged.\<close>

definition dblk :: "'a kfs_scheme \<Rightarrow> nat \<Rightarrow> bool" where
  "dblk s b \<longleftrightarrow> b < disksize s \<and> (b < log_start s \<or> int (log_start s) + log_size s \<le> int b)"

lemma dblk_frame: "fs_frame s s' \<Longrightarrow> dblk s' b = dblk s b"
  by (simp add: dblk_def fs_frame_sel)

text \<open>Reading does not touch the log.\<close>

definition reads :: "'a kfs_scheme \<Rightarrow> 'a kfs_scheme \<Rightarrow> bool" where
  "reads s s' \<longleftrightarrow> view s' = view s \<and> bio_frame s s' \<and> memdisk s' = memdisk s"

lemma reads_trans: "reads s t \<Longrightarrow> reads t u \<Longrightarrow> reads s u"
  by (auto simp: reads_def intro: bio_frame_trans)

lemma readsD: "reads s s' \<Longrightarrow> view s' = view s" "reads s s' \<Longrightarrow> fs_frame s s'" "reads s s' \<Longrightarrow> bio_frame s s'"
  unfolding reads_def by (auto intro: fs_frame_bio)

lemma tr_reads:
  assumes "tr M s pid H B k" "reads s s'" "rd s' pid H'"
  shows "tr M s' pid H' B k"
proof -
  have f: "bio_frame s s'" using assms(2) by (simp add: reads_def)
  note L = log_blocks_frame[OF f] bio_frame_log[OF f]
  have "in_trans s' pid H'" using assms(1,3) L log_ok_frame[OF f] by (simp add: tr_def in_trans_def rd_def)
  then show ?thesis using assms(1) L by (simp add: tr_def)
qed

lemma rd_bread:
  assumes "rd s pid H" "finite H" "card H \<le> 2" "bn \<notin> H" "bn < disksize s"
  shows "\<exists>i s'. bread 1 bn s = Ok i s' \<and> rd s' pid (insert bn H) \<and> held s' bn i \<and> b_data (bufs s' i) = view s bn
    \<and> reads s s' \<and> keeps {bn} s s'"
proof -
  have t: "bst s pid H (set (log_blocks s))" "log_ok s" "lh_n s + 3 \<le> int NBUF" using assms(1) by (auto simp: rd_def)
  have "card (set (log_blocks s) \<union> H) \<le> card (set (log_blocks s)) + card H" by (rule card_Un_le)
  then have "card (set (log_blocks s) \<union> H) < NBUF" using t(3) assms(3) log_n[OF t(2)] by linarith
  then obtain i s' where s': "bread 1 bn s = Ok i s'" "bst s' pid (insert bn H) (set (log_blocks s))" "hbuf (bufs s') bn i" "same_store s s'" "hkeep bn s s'"
    using bread_ex[OF t(1) assms(4,5)] by blast
  note S = same_storeD[OF s'(4)] and L = log_blocks_frame[OF same_storeD(4)[OF s'(4)]]
  have "rd s' pid (insert bn H)" using t s'(2) L log_ok_frame[OF S(4)] bio_frame_log[OF S(4)] by (simp add: rd_def)
  moreover have "held s' bn i" using s'(3) view_clean[OF t(1) assms(4)] L S(1,2) by (auto simp: held_def)
  moreover have "b_data (bufs s' i) = view s bn" using hbufD(9)[OF s'(2,3)] S(1) by simp
  moreover have "keeps {bn} s s'" using s'(5) L S(1,2) by (auto simp: keeps_def held_def hkeep_def)
  ultimately show ?thesis using s'(1) S(1,2,4) unfolding reads_def by blast
qed

lemma rd_brelse:
  assumes "rd s pid H" "held s bn i"
  shows "\<exists>s'. brelse i s = Ok () s' \<and> rd s' pid (H - {bn}) \<and> reads s s' \<and> keeps {bn} s s'"
proof -
  have t: "bst s pid H (set (log_blocks s))" using assms(1) by (simp add: rd_def)
  obtain s' where s': "brelse i s = Ok () s'" "bst s' pid (H - {bn}) (set (log_blocks s))" "same_store s s'" "hkeep bn s s'"
    using brelse_ex[OF t] assms(2) unfolding held_def by blast
  note S = same_storeD[OF s'(3)] and L = log_blocks_frame[OF same_storeD(4)[OF s'(3)]]
  have "rd s' pid (H - {bn})" using assms(1) s'(2) L log_ok_frame[OF S(4)] bio_frame_log[OF S(4)] by (simp add: rd_def)
  moreover have "keeps {bn} s s'" using s'(4) L S(1,2) by (auto simp: keeps_def held_def hkeep_def)
  ultimately show ?thesis using s'(1) S(1,2,4) unfolding reads_def by blast
qed

text \<open>Changing the contents of a held block and logging it.\<close>

lemma tr_change:
  fixes f :: "bytes \<Rightarrow> bytes"
  assumes "tr M s pid H B k" "held s bn i" "dblk s bn" "bn \<in> B"
  shows "\<exists>s1 s2. kmod (upd_buf i (b_data_update f)) s = Ok () s1 \<and> log_write i s1 = Ok () s2 \<and> tr M s2 pid H B k \<and> held s2 bn i
    \<and> view s2 = (view s)(bn := f (view s bn)) \<and> fs_frame s s2 \<and> keeps {bn} s s2"
proof -
  note t = trD[OF assms(1)]
  have h: "hbuf (bufs s) bn i" using assms(2) by (simp add: held_def)
  obtain s1 where 1: "kmod (upd_buf i (b_data_update f)) s = Ok () s1" "bst s1 pid H (set (log_blocks s))" "view s1 = (view s)(bn := f (view s bn))"
    "memdisk s1 = memdisk s" "bio_frame s s1" "hkeep bn s s1" "hbuf (bufs s1) bn i" using bdata_ex[OF t(7) h] by blast
  note L = log_blocks_frame[OF 1(5)] and F = bio_frame_log[OF 1(5)] bio_frame_sel(5)[OF 1(5)]
  have t1: "in_trans s1 pid H" using t(2) 1(2) L log_ok_frame[OF 1(5)] F by (simp add: in_trans_def)
  have r: "lh_n s1 < int LOGSIZE" "lh_n s1 < log_size s1 - 1" using t(4,5) F by (simp_all add: LOGSIZE_def NBUF_def MAXOPBLOCKS_def)
  have d: "bn < disksize s1" "bn < log_start s1 \<or> int (log_start s1) + log_size s1 \<le> int bn" using assms(3) F by (simp_all add: dblk_def)
  obtain s2 n blk where 2: "log_write i s1 = Ok () s2" "in_trans s2 pid H" "set (log_blocks s2) = insert bn (set (log_blocks s1))"
    "view s2 = view s1" "memdisk s2 = memdisk s1" "hkeep bn s1 s2" "hbuf (bufs s2) bn i"
    "bio_frame (s1\<lparr>lh_n := n, lh_block := blk\<rparr>) s2" using log_write_ex[OF t1 1(7) r d] by blast
  have "set (log_blocks s2) \<union> B = set (log_blocks s) \<union> B" "log_size s2 = log_size s"
    using 2(3) L assms(4) bio_frame_log(2)[OF 2(8)] F(2) by auto
  then have "tr M s2 pid H B k" using assms(1) 2(2) by (simp add: tr_def)
  moreover have "held s2 bn i" using 2(3,7) by (simp add: held_def)
  moreover have "fs_frame s s2" using fs_frame_trans[OF fs_frame_bio[OF 1(5)]] 2(8) unfolding fs_frame_def by blast
  moreover have "keeps {bn} s s2" using 1(3,4,6) 2(3-6) L by (auto simp: keeps_def held_def hkeep_def)
  ultimately show ?thesis using 1(1,3) 2(1,4) by (intro exI[of _ s1] exI[of _ s2]) simp
qed

text \<open>Reading a block, and reading, changing and logging it.\<close>

lemma blk_read:
  assumes "rd s pid H" "finite H" "card H \<le> 2" "bn \<notin> H" "bn < disksize s"
  obtains i s1 s2 where "bread 1 bn s = Ok i s1" "b_data (bufs s1 i) = view s bn" "brelse i s1 = Ok () s2" "rd s2 pid H"
    "reads s s2" "keeps {bn} s s2" "reads s s1"
proof -
  obtain i s1 where 1: "bread 1 bn s = Ok i s1" "rd s1 pid (insert bn H)" "held s1 bn i" "b_data (bufs s1 i) = view s bn"
    "reads s s1" "keeps {bn} s s1" using rd_bread[OF assms] by blast
  obtain s2 where 2: "brelse i s1 = Ok () s2" "rd s2 pid (insert bn H - {bn})" "reads s1 s2" "keeps {bn} s1 s2"
    using rd_brelse[OF 1(2,3)] by blast
  show ?thesis using that 1 2 reads_trans[OF 1(5) 2(3)] keeps_trans[OF 1(6) 2(4)] assms(4) by simp
qed

lemma blk_update:
  fixes f :: "bytes \<Rightarrow> bytes"
  assumes "tr M s pid H B k" "finite H" "card H \<le> 2" "bn \<notin> H" "dblk s bn" "bn \<in> B"
  obtains i s1 s2 s3 s4 where "bread 1 bn s = Ok i s1" "b_data (bufs s1 i) = view s bn" "kmod (upd_buf i (b_data_update f)) s1 = Ok () s2"
    "log_write i s2 = Ok () s3" "brelse i s3 = Ok () s4" "tr M s4 pid H B k" "view s4 = (view s)(bn := f (view s bn))" "fs_frame s s4"
    "keeps {bn} s s4" "reads s s1"
proof -
  have "bn < disksize s" using assms(5) by (simp add: dblk_def)
  then obtain i s1 where 1: "bread 1 bn s = Ok i s1" "rd s1 pid (insert bn H)" "held s1 bn i" "b_data (bufs s1 i) = view s bn"
    "reads s s1" "keeps {bn} s s1" using rd_bread[OF trD(1)[OF assms(1)] assms(2-4)] by blast
  note R = readsD[OF 1(5)]
  obtain s2 s3 where 2: "kmod (upd_buf i (b_data_update f)) s1 = Ok () s2" "log_write i s2 = Ok () s3" "tr M s3 pid (insert bn H) B k" "held s3 bn i"
    "view s3 = (view s1)(bn := f (view s1 bn))" "fs_frame s1 s3" "keeps {bn} s1 s3"
    using tr_change[OF tr_reads[OF assms(1) 1(5,2)] 1(3) _ assms(6)] assms(5) dblk_frame[OF R(2)] by blast
  obtain s4 where 3: "brelse i s3 = Ok () s4" "rd s4 pid (insert bn H - {bn})" "reads s3 s4" "keeps {bn} s3 s4"
    using rd_brelse[OF trD(1)[OF 2(3)] 2(4)] by blast
  have "keeps {bn} s s4" using keeps_trans[OF keeps_trans[OF 1(6) 2(7)] 3(4)] by simp
  moreover have "view s4 = (view s)(bn := f (view s bn))" unfolding readsD(1)[OF 3(3)] 2(5) R(1) ..
  moreover have "tr M s4 pid H B k" using tr_reads[OF 2(3) 3(3,2)] assms(4) by simp
  ultimately show ?thesis using that 1(1,4,5) 2(1,2) 3(1) fs_frame_trans[OF fs_frame_trans[OF R(2) 2(6)] readsD(2)[OF 3(3)]] by blast
qed

subsection \<open>The bitmap\<close>

lemma bbit_bit: "x AND bbit bi \<noteq> 0 \<longleftrightarrow> bit x (bi mod 8)"
proof -
  have "x AND bbit bi = (if bit x (bi mod 8) then bbit bi else 0)"
    by (rule bit_word_eqI) (auto simp: bbit_def bit_simps)
  moreover have "bit (bbit bi) (bi mod 8)" by (simp add: bbit_def bit_simps)
  then have "bbit bi \<noteq> 0" by (metis bit_0_eq bot_apply bot_bool_def)
  ultimately show ?thesis by simp
qed

definition used_in :: "(nat \<Rightarrow> bytes) \<Rightarrow> superblock \<Rightarrow> nat \<Rightarrow> bool" where
  "used_in v sp b \<longleftrightarrow> v (BBLOCK b sp) ((b mod BPB) div 8) AND bbit (b mod BPB) \<noteq> 0"

abbreviation used :: "'a kfs_scheme \<Rightarrow> nat \<Rightarrow> bool" where
  "used s \<equiv> used_in (view s) (sb s)"

text \<open>The blocks of the bitmap.\<close>

definition bmblocks :: "superblock \<Rightarrow> nat set" where
  "bmblocks sp = {BBLOCK b sp | b. b < sb_size sp}"

text \<open>The bitmap and every block it shows as free may be logged, and free blocks are neither part of the bitmap nor block 0.\<close>

definition layout :: "'a kfs_scheme \<Rightarrow> bool" where
  "layout s \<longleftrightarrow> sb_size (sb s) \<le> disksize s \<and> (\<forall>b\<in>bmblocks (sb s). dblk s b)
     \<and> (\<forall>b. b < sb_size (sb s) \<longrightarrow> \<not> used s b \<longrightarrow> dblk s b \<and> b \<notin> bmblocks (sb s) \<and> b \<noteq> 0)"

definition set_bit_of :: "nat \<Rightarrow> bytes \<Rightarrow> bytes" where
  "set_bit_of b d = d((b mod BPB) div 8 := d ((b mod BPB) div 8) OR bbit (b mod BPB))"

definition clear_bit_of :: "nat \<Rightarrow> bytes \<Rightarrow> bytes" where
  "clear_bit_of b d = d((b mod BPB) div 8 := d ((b mod BPB) div 8) AND NOT (bbit (b mod BPB)))"

lemma BPB_pos: "0 < BPB" "BPB mod 8 = 0"
  by (simp_all add: BPB_def BSIZE_def)

lemma same_bit:
  assumes "BBLOCK b sp = BBLOCK c sp" "(b mod BPB) div 8 = (c mod BPB) div 8" "b mod BPB mod 8 = c mod BPB mod 8"
  shows "b = c"
proof -
  have "b mod BPB = c mod BPB" using assms(2,3) by (metis div_mult_mod_eq)
  moreover have "b div BPB = c div BPB" using assms(1) by (simp add: BBLOCK_def)
  ultimately show ?thesis by (metis div_mult_mod_eq)
qed

lemma bit_bbit: "bit (bbit c) (b mod 8) \<longleftrightarrow> b mod 8 = c mod 8"
  by (auto simp: bbit_def bit_simps)

lemma used_in_set:
  "used_in (v(BBLOCK b sp := set_bit_of b (v (BBLOCK b sp)))) sp c \<longleftrightarrow> used_in v sp c \<or> c = b"
proof (cases "BBLOCK c sp = BBLOCK b sp \<and> (c mod BPB) div 8 = (b mod BPB) div 8")
  case True
  then have "used_in (v(BBLOCK b sp := set_bit_of b (v (BBLOCK b sp)))) sp c \<longleftrightarrow> used_in v sp c \<or> c mod BPB mod 8 = b mod BPB mod 8"
    by (simp add: used_in_def set_bit_of_def bbit_bit bit_or_iff bit_bbit)
  then show ?thesis using True same_bit[of c sp b] by auto
next
  case False
  then show ?thesis by (auto simp: used_in_def set_bit_of_def)
qed

lemma used_in_clear:
  "used_in (v(BBLOCK b sp := clear_bit_of b (v (BBLOCK b sp)))) sp c \<longleftrightarrow> used_in v sp c \<and> c \<noteq> b"
proof (cases "BBLOCK c sp = BBLOCK b sp \<and> (c mod BPB) div 8 = (b mod BPB) div 8")
  case True
  then have "used_in (v(BBLOCK b sp := clear_bit_of b (v (BBLOCK b sp)))) sp c \<longleftrightarrow> used_in v sp c \<and> c mod BPB mod 8 \<noteq> b mod BPB mod 8"
    by (auto simp: used_in_def clear_bit_of_def bbit_bit bit_simps bit_bbit)
  then show ?thesis using True same_bit[of c sp b] by auto
next
  case False
  then show ?thesis by (auto simp: used_in_def clear_bit_of_def)
qed

lemma used_in_cong: "(\<And>x. x \<in> bmblocks sp \<Longrightarrow> v' x = v x) \<Longrightarrow> b < sb_size sp \<Longrightarrow> used_in v' sp b = used_in v sp b"
proof -
  assume h: "\<And>x. x \<in> bmblocks sp \<Longrightarrow> v' x = v x" "b < sb_size sp"
  then have "v' (BBLOCK b sp) = v (BBLOCK b sp)" by (auto simp: bmblocks_def)
  then show ?thesis by (simp add: used_in_def)
qed

subsection \<open>Allocating and freeing\<close>

lemma bzero_ok:
  assumes "tr M s pid H B k" "finite H" "card H \<le> 2" "b \<notin> H" "dblk s b" "b \<in> B"
  shows "\<exists>s'. bzero 1 b s = Ok () s' \<and> tr M s' pid H B k \<and> view s' = (view s)(b := bfill (view s b) 0 0 BSIZE) \<and> fs_frame s s' \<and> keeps {b} s s'"
proof (rule blk_update[OF assms, of "\<lambda>d. memset d 0 0 BSIZE"])
  fix i s1 s2 s3 s4
  assume r: "bread 1 b s = Ok i s1" "kmod (upd_buf i (b_data_update (\<lambda>d. memset d 0 0 BSIZE))) s1 = Ok () s2" "log_write i s2 = Ok () s3" "brelse i s3 = Ok () s4"
    "tr M s4 pid H B k" "view s4 = (view s)(b := memset (view s b) 0 0 BSIZE)" "fs_frame s s4" "keeps {b} s s4"
  have "bzero 1 b s = Ok () s4" unfolding bzero_def using r(1-4) by simp
  then show ?thesis using r(5-8) by (intro exI[of _ s4]) (simp add: memset_bfill)
qed

lemma bitmap_scan:
  assumes "b < sb_size sp" "\<not> used_in v sp b" "\<And>c. c < b \<Longrightarrow> used_in v sp c" "j \<le> b div BPB"
  shows "List.find (\<lambda>bi. v (BBLOCK (j * BPB) sp) (bi div 8) AND bbit bi = 0) [0..<min BPB (sb_size sp - j * BPB)]
    = (if j < b div BPB then None else Some (b mod BPB))"
proof -
  let ?m = "min BPB (sb_size sp - j * BPB)"
  have p: "v (BBLOCK (j * BPB) sp) (bi div 8) AND bbit bi = 0 \<longleftrightarrow> \<not> used_in v sp (j * BPB + bi)" if "bi < ?m" for bi
    using that BPB_pos(1) by (simp add: used_in_def BBLOCK_def)
  show ?thesis
  proof (cases "j < b div BPB")
    case True
    have "used_in v sp (j * BPB + bi)" if "bi < ?m" for bi
    proof (rule assms(3))
      have "j * BPB + bi < (j + 1) * BPB" using that by simp
      also have "\<dots> \<le> b div BPB * BPB" using True by (intro mult_le_mono1) simp
      also have "\<dots> \<le> b" by simp
      finally show "j * BPB + bi < b" .
    qed
    then show ?thesis using True p by (simp add: find_None_iff)
  next
    case False
    then have j: "j = b div BPB" using assms(4) by simp
    have b: "j * BPB + b mod BPB = b" by (simp add: j)
    have lt: "b mod BPB < ?m" using BPB_pos(1) assms(1) b by (simp add: less_diff_conv2 add.commute)
    have "\<not> used_in v sp (j * BPB + b mod BPB)" using assms(2) b by simp
    moreover have "used_in v sp (j * BPB + bi)" if "bi < b mod BPB" for bi using that b by (intro assms(3)) linarith
    ultimately show ?thesis using False lt p by (auto simp: find_Some_iff intro!: exI[of _ "b mod BPB"])
  qed
qed

lemma layoutD:
  assumes "layout s"
  shows "sb_size (sb s) \<le> disksize s" "x \<in> bmblocks (sb s) \<Longrightarrow> dblk s x"
    "b < sb_size (sb s) \<Longrightarrow> \<not> used s b \<Longrightarrow> dblk s b" "b < sb_size (sb s) \<Longrightarrow> \<not> used s b \<Longrightarrow> b \<notin> bmblocks (sb s)"
    "b < sb_size (sb s) \<Longrightarrow> \<not> used s b \<Longrightarrow> b \<noteq> 0"
  using assms unfolding layout_def by blast+

lemma BBLOCK_in: "b < sb_size sp \<Longrightarrow> BBLOCK b sp \<in> bmblocks sp"
  by (auto simp: bmblocks_def)

text \<open>The block with the least number among the free ones.\<close>

definition first_free :: "'a kfs_scheme \<Rightarrow> nat \<Rightarrow> bool" where
  "first_free s b \<longleftrightarrow> b < sb_size (sb s) \<and> \<not> used s b \<and> (\<forall>c<b. used s c)"

definition alloc_view :: "(nat \<Rightarrow> bytes) \<Rightarrow> superblock \<Rightarrow> nat \<Rightarrow> nat \<Rightarrow> bytes" where
  "alloc_view v sp b = v(BBLOCK b sp := set_bit_of b (v (BBLOCK b sp)), b := bfill (v b) 0 0 BSIZE)"

lemma balloc_loop_ok:
  assumes "tr M s pid H B k" "finite H" "card H \<le> 2" "layout s" "first_free s b" "b \<notin> H" "H \<inter> bmblocks (sb s) = {}"
    "j \<le> b div BPB" "b div BPB < n" "b \<in> B" "bmblocks (sb s) \<subseteq> B"
  shows "\<exists>s'. balloc_loop (map (\<lambda>k. k * BPB) [j..<n]) 1 s = Ok b s' \<and> tr M s' pid H B k \<and> view s' = alloc_view (view s) (sb s) b
    \<and> fs_frame s s' \<and> keeps (insert b (bmblocks (sb s))) s s'"
  using assms(8,1,4,5,7,11)
proof (induction "b div BPB - j" arbitrary: j s)
  case 0
  then have j: "j = b div BPB" by simp
  let ?x = "BBLOCK b (sb s)" and ?f = "set_bit_of b"
  have ff: "b < sb_size (sb s)" "\<not> used s b" "\<And>c. c < b \<Longrightarrow> used s c" using 0(5) by (auto simp: first_free_def)
  have bx: "BBLOCK (j * BPB) (sb s) = ?x" using BPB_pos(1) by (simp add: BBLOCK_def j)
  note L = layoutD[OF 0(4)]
  have xb: "?x \<in> bmblocks (sb s)" "?x \<notin> H" "dblk s ?x" "?x \<noteq> b" "?x \<in> B" using BBLOCK_in[OF ff(1)] 0(6,7) L(2,4) ff(1,2) by auto
  have jb: "j * BPB + b mod BPB = b" by (simp add: j)
  have sc: "List.find (\<lambda>bi. view s ?x (bi div 8) AND bbit bi = 0) [0..<min BPB (sb_size (sb s) - j * BPB)] = Some (b mod BPB)"
    using bitmap_scan[OF ff, of j] unfolding bx by (simp add: j)
  show ?case
  proof (rule blk_update[OF 0(3) assms(2,3) xb(2,3,5), of ?f])
    fix i s1 s2 s3 s4
    assume r: "bread 1 ?x s = Ok i s1" "b_data (bufs s1 i) = view s ?x" "kmod (upd_buf i (b_data_update ?f)) s1 = Ok () s2" "log_write i s2 = Ok () s3"
      "brelse i s3 = Ok () s4" "tr M s4 pid H B k" "view s4 = (view s)(?x := ?f (view s ?x))" "fs_frame s s4" "keeps {?x} s s4"
    have d4: "dblk s4 b" using L(3)[OF ff(1,2)] dblk_frame[OF r(8)] by simp
    obtain s' where s': "bzero 1 b s4 = Ok () s'" "tr M s' pid H B k" "view s' = (view s4)(b := bfill (view s4 b) 0 0 BSIZE)" "fs_frame s4 s'" "keeps {b} s4 s'"
      using bzero_ok[OF r(6) assms(2,3,6) d4 assms(10)] by blast
    have v: "view s' = alloc_view (view s) (sb s) b" unfolding s'(3) r(7) alloc_view_def using xb(4) by simp
    have f: "?f = (\<lambda>d. d(b mod BPB div 8 := d (b mod BPB div 8) OR bbit (b mod BPB)))" by (simp add: fun_eq_iff set_bit_of_def)
    have "[j..<n] = j # [Suc j..<n]" using assms(9) j by (simp add: upt_conv_Cons)
    then have "balloc_loop (map (\<lambda>k. k * BPB) [j..<n]) 1 s = Ok b s'"
      using r(1-5) s'(1) sc jb bx by (simp add: f)
    moreover have "keeps (insert b (bmblocks (sb s))) s s'" using keeps_mono[OF keeps_trans[OF r(9) s'(5)]] xb(1) by simp
    ultimately show ?thesis using s'(2) v fs_frame_trans[OF r(8) s'(4)] by blast
  qed
next
  case (Suc m)
  then have j: "j < b div BPB" by simp
  let ?x = "BBLOCK (j * BPB) (sb s)"
  have ff: "b < sb_size (sb s)" "\<not> used s b" "\<And>c. c < b \<Longrightarrow> used s c" using Suc.prems(4) by (auto simp: first_free_def)
  have "j * BPB \<le> b div BPB * BPB" using j by (intro mult_le_mono1) simp
  also have "\<dots> \<le> b" by simp
  finally have "?x \<in> bmblocks (sb s)" using ff(1) by (intro BBLOCK_in) simp
  then have xb: "?x \<in> bmblocks (sb s)" "?x \<notin> H" "?x < disksize s" using Suc.prems(5) layoutD(2)[OF Suc.prems(3)] by (auto simp: dblk_def)
  have sc: "List.find (\<lambda>bi. view s ?x (bi div 8) AND bbit bi = 0) [0..<min BPB (sb_size (sb s) - j * BPB)] = None"
    using bitmap_scan[OF ff, of j] j by simp
  show ?case
  proof (rule blk_read[OF trD(1)[OF Suc.prems(2)] assms(2,3) xb(2,3)])
    fix i s1 s2
    assume r: "bread 1 ?x s = Ok i s1" "b_data (bufs s1 i) = view s ?x" "brelse i s1 = Ok () s2" "rd s2 pid H" "reads s s2"
      "keeps {?x} s s2"
    note Q = readsD[OF r(5)] and F = fs_frame_sel[OF readsD(2)[OF r(5)]]
    have t2: "tr M s2 pid H B k" using tr_reads[OF Suc.prems(2) r(5,4)] .
    have m: "m = b div BPB - Suc j" using Suc.hyps(2) by simp
    have "layout s2" "first_free s2 b" using Suc.prems(3,4) Q(1) F dblk_frame[OF Q(2)] by (simp_all add: layout_def first_free_def)
    then obtain s' where s': "balloc_loop (map (\<lambda>k. k * BPB) [Suc j..<n]) 1 s2 = Ok b s'" "tr M s' pid H B k" "view s' = alloc_view (view s2) (sb s2) b"
      "fs_frame s2 s'" "keeps (insert b (bmblocks (sb s2))) s2 s'" using Suc.hyps(1)[OF m _ t2] j Suc.prems(5,6) F(2) by auto
    have "[j..<n] = j # [Suc j..<n]" using assms(9) j by (simp add: upt_conv_Cons)
    then have "balloc_loop (map (\<lambda>k. k * BPB) [j..<n]) 1 s = Ok b s'" using r(1-3) s'(1) sc by simp
    moreover have "keeps (insert b (bmblocks (sb s))) s s'" using keeps_mono[OF keeps_trans[OF r(6) s'(5)], of "insert b (bmblocks (sb s))"] xb(1) F(2) by auto
    ultimately show ?thesis using s'(2,3) Q(1) F(2) fs_frame_trans[OF Q(2) s'(4)] by auto
  qed
qed

lemma alloc_view_used:
  assumes "layout s" "first_free s b" "c < sb_size (sb s)"
  shows "used_in (alloc_view (view s) (sb s) b) (sb s) c \<longleftrightarrow> used s c \<or> c = b"
proof -
  let ?v = "(view s)(BBLOCK b (sb s) := set_bit_of b (view s (BBLOCK b (sb s))))"
  have "b \<notin> bmblocks (sb s)" using layoutD(4)[OF assms(1)] assms(2) by (simp add: first_free_def)
  then have "used_in (alloc_view (view s) (sb s) b) (sb s) c = used_in ?v (sb s) c"
    using assms(3) by (intro used_in_cong) (auto simp: alloc_view_def)
  then show ?thesis by (simp add: used_in_set)
qed

lemma alloc_view_layout:
  assumes "layout s" "first_free s b" "view s' = alloc_view (view s) (sb s) b" "fs_frame s s'"
  shows "layout s'" "c < sb_size (sb s) \<Longrightarrow> used s' c \<longleftrightarrow> used s c \<or> c = b"
proof -
  show u: "c < sb_size (sb s) \<Longrightarrow> used s' c \<longleftrightarrow> used s c \<or> c = b" for c
    using alloc_view_used[OF assms(1,2)] assms(3) fs_frame_sel(2)[OF assms(4)] by simp
  show "layout s'" unfolding layout_def dblk_frame[OF assms(4)] fs_frame_sel[OF assms(4)]
    using layoutD[OF assms(1)] u fs_frame_sel(2)[OF assms(4)] by auto
qed

lemma balloc_ok:
  assumes "tr M s pid H B (Suc k)" "finite H" "card H \<le> 2" "layout s" "first_free s b" "b \<notin> H" "H \<inter> bmblocks (sb s) = {}" "bmblocks (sb s) \<subseteq> B"
  obtains s' where "balloc 1 s = Ok b s'" "tr M s' pid H (insert b B) k" "view s' = alloc_view (view s) (sb s) b" "fs_frame s s'"
    "keeps (insert b (bmblocks (sb s))) s s'" "layout s'" "\<And>c. c < sb_size (sb s) \<Longrightarrow> used s' c \<longleftrightarrow> used s c \<or> c = b"
proof -
  have b: "b < sb_size (sb s)" using assms(5) by (simp add: first_free_def)
  have "b div BPB \<le> (sb_size (sb s) - 1) div BPB" using b by (intro div_le_mono) simp
  also have "\<dots> < (sb_size (sb s) - 1 + BPB) div BPB" using div_add_self2[of BPB "sb_size (sb s) - 1"] BPB_pos(1) by simp
  also have "sb_size (sb s) - 1 + BPB = sb_size (sb s) + BPB - 1" using b by simp
  finally have n: "b div BPB < (sb_size (sb s) + BPB - 1) div BPB" .
  obtain s' where s': "balloc_loop (map (\<lambda>k. k * BPB) [0..<(sb_size (sb s) + BPB - 1) div BPB]) 1 s = Ok b s'" "tr M s' pid H (insert b B) k"
    "view s' = alloc_view (view s) (sb s) b" "fs_frame s s'" "keeps (insert b (bmblocks (sb s))) s s'" using balloc_loop_ok[OF tr_spend[OF assms(1)] assms(2-7) le0 n] assms(8) by blast
  show ?thesis
  proof (rule that)
    show "balloc 1 s = Ok b s'" using s'(1) by (simp add: balloc_def)
  qed (use s' alloc_view_layout[OF assms(4,5) s'(3,4)] in auto)
qed

lemma bfree_ok:
  assumes "tr M s pid H B k" "finite H" "card H \<le> 2" "dblk s (BBLOCK b (sb s))" "BBLOCK b (sb s) \<notin> H" "BBLOCK b (sb s) \<in> B" "used s b"
  obtains s' where "bfree 1 b s = Ok () s'" "tr M s' pid H B k"
    "view s' = (view s)(BBLOCK b (sb s) := clear_bit_of b (view s (BBLOCK b (sb s))))" "fs_frame s s'" "keeps {BBLOCK b (sb s)} s s'"
proof (rule blk_update[OF assms(1-3,5,4,6), of "clear_bit_of b"])
  let ?x = "BBLOCK b (sb s)"
  fix i s1 s2 s3 s4
  assume r: "bread 1 ?x s = Ok i s1" "b_data (bufs s1 i) = view s ?x" "kmod (upd_buf i (b_data_update (clear_bit_of b))) s1 = Ok () s2"
    "log_write i s2 = Ok () s3" "brelse i s3 = Ok () s4" "tr M s4 pid H B k" "view s4 = (view s)(?x := clear_bit_of b (view s ?x))"
    "fs_frame s s4" "keeps {?x} s s4"
  have f: "clear_bit_of b = (\<lambda>d. d(b mod BPB div 8 := d (b mod BPB div 8) AND NOT (bbit (b mod BPB))))" by (simp add: fun_eq_iff clear_bit_of_def)
  have "view s ?x (b mod BPB div 8) AND bbit (b mod BPB) \<noteq> 0" using assms(7) by (simp add: used_in_def)
  then have "bfree 1 b s = Ok () s4" using r(1-5) by (simp add: bfree_def Let_def f)
  then show ?thesis using r(6-9) that by blast
qed

subsection \<open>The allocator\<close>

text \<open>C12. Inside a transaction, \<^verbatim>\<open>balloc\<close> returns the free block with the lowest number. Afterwards exactly that block is marked in
  the bitmap in addition, its bytes are zero, no block other than it and those of the bitmap has changed, and the inode cache and the shape
  of the disk are as before. When the transaction may log the bitmap, allocating costs it one further log entry.\<close>

theorem balloc_lowest_free:
  assumes "tr M s pid {} B (Suc k)" "bmblocks (sb s) \<subseteq> B" "layout s" "first_free s b"
  shows "\<exists>s'. balloc 1 s = Ok b s' \<and> tr M s' pid {} (insert b B) k \<and> layout s' \<and> icache s' = icache s
    \<and> (\<forall>c. c < sb_size (sb s) \<longrightarrow> (used s' c \<longleftrightarrow> used s c \<or> c = b)) \<and> (\<forall>i. i < BSIZE \<longrightarrow> view s' b i = 0)
    \<and> (\<forall>c. c \<noteq> b \<and> c \<notin> bmblocks (sb s) \<longrightarrow> view s' c = view s c)"
proof (rule balloc_ok[OF assms(1) _ _ assms(3,4) _ _ assms(2)])
  fix s'
  assume r: "balloc 1 s = Ok b s'" "tr M s' pid {} (insert b B) k" "view s' = alloc_view (view s) (sb s) b" "fs_frame s s'" "layout s'"
    "\<And>c. c < sb_size (sb s) \<Longrightarrow> used s' c \<longleftrightarrow> used s c \<or> c = b"
  have "view s' c = view s c" if "c \<noteq> b" "c \<notin> bmblocks (sb s)" for c
    using that BBLOCK_in[of b "sb s"] assms(4) by (auto simp: r(3) alloc_view_def first_free_def)
  moreover have "\<forall>i. i < BSIZE \<longrightarrow> view s' b i = 0" by (simp add: r(3) alloc_view_def bfill_def)
  ultimately show ?thesis using r(1,2,5,6) fs_frame_sel(1)[OF r(4)] by blast
qed simp_all

lemma clear_set_bit:
  assumes "\<not> used_in v sp b"
  shows "clear_bit_of b (set_bit_of b (v (BBLOCK b sp))) = v (BBLOCK b sp)"
proof -
  let ?i = "(b mod BPB) div 8"
  have "\<not> bit (v (BBLOCK b sp) ?i) (b mod BPB mod 8)" using assms by (simp add: used_in_def bbit_bit)
  then have "(v (BBLOCK b sp) ?i OR bbit (b mod BPB)) AND NOT (bbit (b mod BPB)) = v (BBLOCK b sp) ?i"
    by (intro bit_word_eqI) (auto simp: bit_simps bbit_def)
  then show ?thesis by (simp add: clear_bit_of_def set_bit_of_def)
qed

text \<open>C13. Freeing the block that \<^verbatim>\<open>balloc\<close> has just returned gives back the block contents of before, those of the bitmap
  included, except that the block is now zero; it is free again, and a second \<^verbatim>\<open>bfree\<close> panics.\<close>

theorem balloc_bfree_roundtrip:
  assumes "tr M s pid {} B (Suc k)" "bmblocks (sb s) \<subseteq> B" "layout s" "first_free s b" "balloc 1 s = Ok b s1"
  shows "\<exists>s2. bfree 1 b s1 = Ok () s2 \<and> tr M s2 pid {} (insert b B) k \<and> view s2 = (view s)(b := bfill (view s b) 0 0 BSIZE)
    \<and> \<not> used s2 b \<and> bfree 1 b s2 = Panic ''freeing free block''"
proof (rule balloc_ok[OF assms(1) _ _ assms(3,4) _ _ assms(2)])
  let ?x = "BBLOCK b (sb s)"
  fix s'
  assume r: "balloc 1 s = Ok b s'" "tr M s' pid {} (insert b B) k" "view s' = alloc_view (view s) (sb s) b" "fs_frame s s'" "layout s'"
    "\<And>c. c < sb_size (sb s) \<Longrightarrow> used s' c \<longleftrightarrow> used s c \<or> c = b"
  have f: "b < sb_size (sb s)" "\<not> used s b" using assms(4) by (auto simp: first_free_def)
  have x: "?x \<noteq> b" using layoutD(4)[OF assms(3) f] BBLOCK_in[OF f(1)] by auto
  have s1: "s1 = s'" "sb s1 = sb s" using r(1) assms(5) fs_frame_sel(2)[OF r(4)] by auto
  have d: "dblk s1 ?x" using layoutD(2)[OF r(5)] BBLOCK_in[OF f(1)] s1 by simp
  have xB: "BBLOCK b (sb s1) \<in> insert b B" and t1: "tr M s1 pid {} (insert b B) k" and u1: "used s1 b"
    using assms(2) BBLOCK_in[OF f(1)] r(2,6) f(1) s1 by auto
  obtain s2 where s2: "bfree 1 b s1 = Ok () s2" "tr M s2 pid {} (insert b B) k"
    "view s2 = (view s1)(?x := clear_bit_of b (view s1 ?x))" "fs_frame s1 s2"
    using bfree_ok[OF t1 _ _ _ _ xB u1] d s1(2) by auto
  have v: "view s2 = (view s)(b := bfill (view s b) 0 0 BSIZE)"
    unfolding s2(3) s1(1) r(3) alloc_view_def using x clear_set_bit[OF f(2)] by (auto simp: fun_eq_iff)
  have u: "\<not> used s2 b" "sb s2 = sb s" using s2(3) fs_frame_sel(2)[OF s2(4)] s1(2) by (simp_all add: used_in_clear)
  have "?x < disksize s2" using d fs_frame_sel(3)[OF s2(4)] by (simp add: dblk_def)
  then obtain i s3 where "bread 1 ?x s2 = Ok i s3" "b_data (bufs s3 i) = view s2 ?x" using blk_read[OF trD(1)[OF s2(2)] finite.emptyI, of ?x] by (metis card.empty empty_iff zero_le)
  then have "bfree 1 b s2 = Panic ''freeing free block''" using u by (simp add: bfree_def Let_def used_in_def)
  then show ?thesis using s2(1,2) v u(1) by blast
qed simp_all

subsection \<open>A small file system\<close>

text \<open>A disk of 100 blocks: the log at 2, inodes at 32, the bitmap at 45 with the blocks below 60 in use, of which 50 and 51 have other bytes than zero; an open transaction, and an
  empty file as the first entry of the inode cache.\<close>

definition sample_fs_disk :: "nat \<Rightarrow> bytes" where
  "sample_fs_disk b = (if b = 45 then (\<lambda>i. if i < 7 then 255 else if i = 7 then 15 else 0)
     else if b = 50 \<or> b = 51 then of_nat else (\<lambda>_. 0))"

definition sample_inode :: inode where
  "sample_inode = \<lparr>i_dev = 1, i_inum = 5, i_ref = 1, i_lock = \<lparr>sl_locked = False, sl_name = ''inode'', sl_pid = 0\<rparr>, i_valid = True, i_type = T_FILE, i_major = 0,
     i_minor = 0, i_nlink = 1, i_size = 0, i_addrs = (\<lambda>_. 0)\<rparr>"

definition sample_fs_boot :: kfs where
  "sample_fs_boot = \<lparr>klocks = {}, procs = (\<lambda>_. proc_zero), curproc = Some 0, nextpid = 1, initproc = None,
     pmem = (\<lambda>_ _. 0), freelist = 0, use_lock = True, kend = 0, kdata = 0, kpgdir = 0, cr3 = 0, tss_esp0 = 0,
     bufs = (\<lambda>_. buf_zero), memdisk = sample_fs_disk, disksize = 100, dwrites = [],
     log_start = 2, log_size = 30, log_outstanding = 1, log_committing = False, log_dev = 1, lh_n = 0, lh_block = (\<lambda>_. 0),
     icache = (\<lambda>_. sample_inode\<lparr>i_ref := 0\<rparr>)(0 := sample_inode),
     sb = \<lparr>sb_size = 100, sb_nblocks = 54, sb_ninodes = 100, sb_nlog = 30, sb_logstart = 2, sb_inodestart = 32, sb_bmapstart = 45\<rparr>\<rparr>"

definition sample_fs :: kfs where "sample_fs = binit sample_fs_boot"

lemma sample_fs_sel: "disksize sample_fs = 100" "log_start sample_fs = 2" "log_size sample_fs = 30" "lh_n sample_fs = 0" "icache sample_fs = (\<lambda>_. sample_inode\<lparr>i_ref := 0\<rparr>)(0 := sample_inode)"
  "sb sample_fs = \<lparr>sb_size = 100, sb_nblocks = 54, sb_ninodes = 100, sb_nlog = 30, sb_logstart = 2, sb_inodestart = 32, sb_bmapstart = 45\<rparr>"
  "log_outstanding sample_fs = 1" "\<not> log_committing sample_fs" "log_dev sample_fs = 1" "log_blocks sample_fs = []"
  by (simp_all add: sample_fs_def sample_fs_boot_def binit_def log_blocks_def)

lemma sample_fs_tr: "finite B \<Longrightarrow> card B + k \<le> 27 \<Longrightarrow> tr 27 sample_fs 0 {} B k" "view sample_fs = sample_fs_disk"
proof -
  have z: "bufs sample_fs_boot i = buf_zero" "klocks sample_fs_boot = {}" "curproc sample_fs_boot = Some 0" for i
    by (simp_all add: sample_fs_boot_def)
  have b: "bst sample_fs 0 {} {}" "view sample_fs = memdisk sample_fs_boot"
    using bst_binit[OF z] by (simp_all add: sample_fs_def) (simp add: sample_fs_boot_def proc_zero_def)
  show "view sample_fs = sample_fs_disk" unfolding b(2) by (simp add: sample_fs_boot_def)
  show "finite B \<Longrightarrow> card B + k \<le> 27 \<Longrightarrow> tr 27 sample_fs 0 {} B k" using b(1)
    by (simp add: tr_def in_trans_def log_ok_def sample_fs_sel NBUF_def MAXOPBLOCKS_def LOGSIZE_def)
qed

lemma sample_fs_used: "b < 100 \<Longrightarrow> used sample_fs b \<longleftrightarrow> b < 60"
proof -
  assume b: "b < 100"
  have m: "(255 :: u8) = mask 8" "(15 :: u8) = mask 4" by (simp_all add: mask_eq_exp_minus_1)
  have "used sample_fs b \<longleftrightarrow> bit (sample_fs_disk 45 (b div 8)) (b mod 8)"
    using b by (simp add: used_in_def bbit_bit sample_fs_sel sample_fs_tr BBLOCK_def BPB_def BSIZE_def)
  also have "\<dots> \<longleftrightarrow> b div 8 < 7 \<or> b div 8 = 7 \<and> b mod 8 < 4"
    by (simp add: sample_fs_disk_def m bit_mask_iff)
  also have "\<dots> \<longleftrightarrow> b < 60" using div_mult_mod_eq[of b 8] mod_less_divisor[of 8 b] by linarith
  finally show ?thesis .
qed

lemma sample_fs_layout: "bmblocks (sb sample_fs) = {45}" "layout sample_fs" "first_free sample_fs 60"
proof -
  have "BBLOCK b (sb sample_fs) = 45" if "b < 100" for b using that by (simp add: BBLOCK_def BPB_def BSIZE_def sample_fs_sel)
  then show bm: "bmblocks (sb sample_fs) = {45}" using exI[of _ "0 :: nat"] by (auto simp: bmblocks_def sample_fs_sel)
  moreover have "60 \<le> b" if "b < 100" "\<not> used sample_fs b" for b using sample_fs_used[OF that(1)] that(2) by simp
  ultimately show "layout sample_fs" using bm unfolding layout_def dblk_def sample_fs_sel(1-3) by (force simp: sample_fs_sel(6))
  show "first_free sample_fs 60" using sample_fs_used by (simp add: first_free_def sample_fs_sel(6))
qed

theorem balloc_lowest_free_witness: "\<exists>s'. balloc 1 sample_fs = Ok 60 s' \<and> used s' 60 \<and> \<not> used s' 61"
proof -
  obtain s' where s': "balloc 1 sample_fs = Ok 60 s'" "\<forall>c. c < sb_size (sb sample_fs) \<longrightarrow> (used s' c \<longleftrightarrow> used sample_fs c \<or> c = 60)"
    using balloc_lowest_free[OF sample_fs_tr(1) _ sample_fs_layout(2,3), of "{45}" 0] sample_fs_layout(1) by auto
  have "used s' 60 \<and> \<not> used s' 61" using s'(2) sample_fs_used[of 61] by (auto simp: sample_fs_sel(6))
  then show ?thesis using s'(1) by blast
qed

theorem balloc_bfree_roundtrip_witness:
  "\<exists>s1 s2. balloc 1 sample_fs = Ok 60 s1 \<and> bfree 1 60 s1 = Ok () s2 \<and> bfree 1 60 s2 = Panic ''freeing free block''"
proof -
  have "tr 27 sample_fs 0 {} {45} (Suc 0)" by (rule sample_fs_tr) simp_all
  then obtain s1 where "balloc 1 sample_fs = Ok 60 s1"
    by (rule balloc_ok[OF _ _ _ sample_fs_layout(2,3)]) (simp_all add: sample_fs_layout(1))
  then show ?thesis using balloc_bfree_roundtrip[OF sample_fs_tr(1) _ sample_fs_layout(2,3), of "{45}" 0] sample_fs_layout(1) by auto
qed

end
