(* ===== verification/Fs_Files.thy ===== *)
theory Fs_Files
  imports Fs_Blocks
begin

text \<open>
  Contents of files: \<^verbatim>\<open>bmap\<close>, \<^verbatim>\<open>readi\<close>, \<^verbatim>\<open>writei\<close> and \<^verbatim>\<open>iupdate\<close> of \<^verbatim>\<open>src/xv6/fs.c\<close> refine operations on a list of bytes.

  The address map of an inode (\<open>amap\<close>) is read through its direct entries and its indirect block. A file is well formed when its blocks
  are distinct, in use, and neither bitmap nor inode blocks. The budget of a write (\<open>wr\<close>) says how many more data blocks a transaction may
  touch: one log entry for each, one for the indirect block when the file has none, and the bitmap and the inode's block.
  Shown: \<^verbatim>\<open>readi\<close> returns the bytes of the file, \<^verbatim>\<open>writei\<close> replaces exactly the range it is given, and the blocks of every other file stay
  as they are; a chunk of the size \<^verbatim>\<open>filewrite\<close> chooses fits into the log space that \<^verbatim>\<open>begin_op\<close> has reserved.
\<close>

subsection \<open>Address maps\<close>

definition iaddr :: "inode \<Rightarrow> nat" where
  "iaddr x = unat (i_addrs x NDIRECT)"

definition amap :: "(nat \<Rightarrow> bytes) \<Rightarrow> inode \<Rightarrow> nat \<Rightarrow> nat" where
  "amap v x bn = (if bn < NDIRECT then unat (i_addrs x bn)
     else if bn < MAXFILE \<and> iaddr x \<noteq> 0 then bword (v (iaddr x)) (bn - NDIRECT) else 0)"

abbreviation fmap :: "'a kfs_scheme \<Rightarrow> nat \<Rightarrow> nat \<Rightarrow> nat" where
  "fmap s ip \<equiv> amap (view s) (icache s ip)"

text \<open>A block of a file: in use, not part of the bitmap, and one the log accepts.\<close>

definition blk_ok :: "'a kfs_scheme \<Rightarrow> nat \<Rightarrow> bool" where
  "blk_ok s b \<longleftrightarrow> b < sb_size (sb s) \<and> used s b \<and> dblk s b \<and> b \<notin> bmblocks (sb s)"

definition shape_ok :: "'a kfs_scheme \<Rightarrow> (nat \<Rightarrow> nat) \<Rightarrow> nat \<Rightarrow> nat \<Rightarrow> bool" where
  "shape_ok s A ia ib \<longleftrightarrow> sb_size (sb s) < 2 ^ 32 \<and> blk_ok s ib \<and> (ia \<noteq> 0 \<longrightarrow> blk_ok s ia \<and> ia \<noteq> ib)
     \<and> (\<forall>bn. A bn \<noteq> 0 \<longrightarrow> blk_ok s (A bn) \<and> A bn \<noteq> ia \<and> A bn \<noteq> ib)
     \<and> (\<forall>bn cn. A bn = A cn \<longrightarrow> A bn \<noteq> 0 \<longrightarrow> bn = cn)"

abbreviation iblk :: "'a kfs_scheme \<Rightarrow> nat \<Rightarrow> nat" where
  "iblk s ip \<equiv> IBLOCK (i_inum (icache s ip)) (sb s)"

definition file_ok :: "'a kfs_scheme \<Rightarrow> nat \<Rightarrow> bool" where
  "file_ok s ip \<longleftrightarrow> i_dev (icache s ip) = 1 \<and> shape_ok s (fmap s ip) (iaddr (icache s ip)) (iblk s ip)"

text \<open>The blocks of a file, and its byte at an offset.\<close>

definition owned :: "'a kfs_scheme \<Rightarrow> nat \<Rightarrow> nat set" where
  "owned s ip = (range (fmap s ip) \<union> {iaddr (icache s ip)}) - {0}"

definition fbyte :: "'a kfs_scheme \<Rightarrow> nat \<Rightarrow> nat \<Rightarrow> u8" where
  "fbyte s ip off = (let a = fmap s ip (off div BSIZE) in if a = 0 then 0 else view s a (off mod BSIZE))"

lemma shape_okD:
  assumes "shape_ok s A ia ib"
  shows "sb_size (sb s) < 2 ^ 32" "blk_ok s ib" "ia \<noteq> 0 \<Longrightarrow> blk_ok s ia" "ia \<noteq> 0 \<Longrightarrow> ia \<noteq> ib"
    "A bn \<noteq> 0 \<Longrightarrow> blk_ok s (A bn)" "A bn \<noteq> 0 \<Longrightarrow> A bn \<noteq> ia" "A bn \<noteq> 0 \<Longrightarrow> A bn \<noteq> ib"
    "A bn = A cn \<Longrightarrow> A bn \<noteq> 0 \<Longrightarrow> bn = cn"
  using assms unfolding shape_ok_def by blast+

lemma shape_okI:
  assumes "sb_size (sb s) < 2 ^ 32" "blk_ok s ib" "ia \<noteq> 0 \<Longrightarrow> blk_ok s ia" "ia \<noteq> 0 \<Longrightarrow> ia \<noteq> ib"
    "\<And>bn. A bn \<noteq> 0 \<Longrightarrow> blk_ok s (A bn)" "\<And>bn. A bn \<noteq> 0 \<Longrightarrow> A bn \<noteq> ia" "\<And>bn. A bn \<noteq> 0 \<Longrightarrow> A bn \<noteq> ib"
    "\<And>bn cn. A bn = A cn \<Longrightarrow> A bn \<noteq> 0 \<Longrightarrow> bn = cn"
  shows "shape_ok s A ia ib"
  unfolding shape_ok_def using assms by blast

lemma blk_okD:
  assumes "blk_ok s b"
  shows "b < sb_size (sb s)" "used s b" "dblk s b" "b \<notin> bmblocks (sb s)" "b < disksize s"
  using assms by (auto simp: blk_ok_def dblk_def)

subsection \<open>Free blocks\<close>

definition nfree :: "'a kfs_scheme \<Rightarrow> nat" where
  "nfree s = card {b. b < sb_size (sb s) \<and> \<not> used s b}"

lemma first_free_ex:
  assumes "0 < nfree s"
  obtains b where "first_free s b"
proof -
  have "{b. b < sb_size (sb s) \<and> \<not> used s b} \<noteq> {}" using assms unfolding nfree_def card_gt_0_iff by blast
  then obtain b where b: "b < sb_size (sb s) \<and> \<not> used s b" by blast
  define m where "m = (LEAST b. b < sb_size (sb s) \<and> \<not> used s b)"
  have m: "m < sb_size (sb s) \<and> \<not> used s m" unfolding m_def by (rule LeastI[of "\<lambda>b. b < sb_size (sb s) \<and> \<not> used s b" b]) (rule b)
  have "used s c" if "c < m" for c using not_less_Least[OF that[unfolded m_def]] that m by simp
  then have "first_free s m" using m by (simp add: first_free_def)
  then show ?thesis by (rule that)
qed

lemma nfree_alloc:
  assumes "first_free s b" "sb s' = sb s" "\<forall>c. c < sb_size (sb s) \<longrightarrow> used s' c = (used s c \<or> c = b)"
  shows "nfree s = Suc (nfree s')"
proof -
  have "{c. c < sb_size (sb s) \<and> \<not> used s c} = insert b {c. c < sb_size (sb s') \<and> \<not> used s' c}"
    using assms by (auto simp: first_free_def)
  moreover have "b \<notin> {c. c < sb_size (sb s') \<and> \<not> used s' c}" using assms by (auto simp: first_free_def)
  ultimately show ?thesis by (simp add: nfree_def)
qed

text \<open>What an allocation does to the blocks of files.\<close>

lemma alloc_other:
  assumes "first_free s b" "view s' = alloc_view (view s) (sb s) b" "blk_ok s c"
  shows "view s' c = view s c" "c \<noteq> b"
proof -
  show "c \<noteq> b" using blk_okD(2)[OF assms(3)] assms(1) by (auto simp: first_free_def)
  moreover have "c \<noteq> BBLOCK b (sb s)" using blk_okD(4)[OF assms(3)] BBLOCK_in[of b "sb s"] assms(1) by (auto simp: first_free_def)
  ultimately show "view s' c = view s c" by (simp add: assms(2) alloc_view_def)
qed

lemma alloc_new:
  assumes "layout s" "first_free s b" "view s' = alloc_view (view s) (sb s) b" "fs_frame s s'"
    "\<forall>c. c < sb_size (sb s) \<longrightarrow> used s' c = (used s c \<or> c = b)"
  shows "blk_ok s' b" "b \<noteq> 0" "i < BSIZE \<Longrightarrow> view s' b i = 0" "blk_ok s c \<Longrightarrow> blk_ok s' c"
proof -
  have f: "b < sb_size (sb s)" "\<not> used s b" using assms(2) by (auto simp: first_free_def)
  note L = layoutD[OF assms(1)] and F = fs_frame_sel(2)[OF assms(4)] dblk_frame[OF assms(4)]
  show "blk_ok s' b" using L(3,4)[OF f] f assms(5) F by (simp add: blk_ok_def)
  show "b \<noteq> 0" using L(5)[OF f] .
  show "view s' b i = 0" if "i < BSIZE" for i using that by (simp add: assms(3) alloc_view_def bfill_def)
  show "blk_ok s' c" if "blk_ok s c" for c using that assms(5) F by (simp add: blk_ok_def)
qed

lemma shape_alloc:
  assumes "shape_ok s A ia ib" "layout s" "first_free s b" "view s' = alloc_view (view s) (sb s) b" "fs_frame s s'"
    "\<forall>c. c < sb_size (sb s) \<longrightarrow> used s' c = (used s c \<or> c = b)"
  shows "shape_ok s' A ia ib" "shape_ok s' (A(bn := b)) ia ib" "ia = 0 \<Longrightarrow> shape_ok s' A b ib"
proof -
  note S = shape_okD[OF assms(1)] and N = alloc_new[OF assms(2-6)] and F = fs_frame_sel(2)[OF assms(5)]
  have nb: "c \<noteq> b" if "blk_ok s c" for c using alloc_other(2)[OF assms(3,4) that] .
  have a: "A cn \<noteq> b" for cn using nb[OF S(5)[of cn]] N(2) by auto
  have i: "ib \<noteq> b" "ia \<noteq> b" using nb[OF S(2)] nb[OF S(3)] N(2) by auto
  have z: "sb_size (sb s') < 2 ^ 32" using S(1) F by simp
  show "shape_ok s' A ia ib" by (rule shape_okI[OF z N(4)[OF S(2)] N(4)[OF S(3)] S(4) N(4)[OF S(5)] S(6,7,8)])
  show "shape_ok s' (A(bn := b)) ia ib"
  proof (rule shape_okI[OF z N(4)[OF S(2)] N(4)[OF S(3)] S(4)])
    show "(A(bn := b)) cn \<noteq> 0 \<Longrightarrow> blk_ok s' ((A(bn := b)) cn)" for cn using N(1) N(4)[OF S(5)] by (cases "cn = bn") simp_all
    show "(A(bn := b)) cn \<noteq> 0 \<Longrightarrow> (A(bn := b)) cn \<noteq> ia" for cn using i S(6) by (cases "cn = bn") simp_all
    show "(A(bn := b)) cn \<noteq> 0 \<Longrightarrow> (A(bn := b)) cn \<noteq> ib" for cn using i S(7) by (cases "cn = bn") simp_all
    show "(A(bn := b)) cn = (A(bn := b)) dn \<Longrightarrow> (A(bn := b)) cn \<noteq> 0 \<Longrightarrow> cn = dn" for cn dn
      using a[of cn] a[of dn] S(8)[of cn dn] by (simp split: if_splits)
  qed
  show "ia = 0 \<Longrightarrow> shape_ok s' A b ib"
    by (rule shape_okI[OF z N(4)[OF S(2)] N(1) _ N(4)[OF S(5)] a S(7,8)]) (use i in auto)
qed

subsection \<open>Updating the inode\<close>

lemma upd_inode_sel [simp]: "icache (upd_inode ip f s) = (icache s)(ip := f (icache s ip))" "sb (upd_inode ip f s) = sb s"
  "bufs (upd_inode ip f s) = bufs s" "memdisk (upd_inode ip f s) = memdisk s" "disksize (upd_inode ip f s) = disksize s"
  "log_start (upd_inode ip f s) = log_start s" "log_size (upd_inode ip f s) = log_size s"
  by (simp_all add: upd_inode_def)

lemma upd_inode_tr [simp]: "tr M (upd_inode ip f s) pid H B k = tr M s pid H B k" "rd (upd_inode ip f s) pid H = rd s pid H"
  by (simp_all add: tr_def rd_def in_trans_def bst_def log_ok_def log_blocks_def upd_inode_def)

lemma upd_inode_ok [simp]: "dblk (upd_inode ip f s) b = dblk s b" "layout (upd_inode ip f s) = layout s" "blk_ok (upd_inode ip f s) b = blk_ok s b"
  "shape_ok (upd_inode ip f s) A ia ib = shape_ok s A ia ib" "nfree (upd_inode ip f s) = nfree s"
  by (simp_all add: dblk_def layout_def blk_ok_def shape_ok_def nfree_def)

text \<open>A change of a file leaves the blocks of other files alone, and takes new blocks from the free ones.\<close>

definition wrote :: "nat \<Rightarrow> 'a kfs_scheme \<Rightarrow> 'a kfs_scheme \<Rightarrow> bool" where
  "wrote ip s s' \<longleftrightarrow> sb s' = sb s \<and> (\<forall>jp. jp \<noteq> ip \<longrightarrow> icache s' jp = icache s jp)
     \<and> (\<exists>a. icache s' ip = (icache s ip)\<lparr>i_addrs := a\<rparr>)
     \<and> (\<forall>b. blk_ok s b \<longrightarrow> blk_ok s' b) \<and> (\<forall>b. blk_ok s b \<and> b \<notin> owned s ip \<longrightarrow> b \<notin> owned s' ip \<and> view s' b = view s b)
     \<and> (\<forall>bn. fmap s ip bn \<noteq> 0 \<longrightarrow> fmap s' ip bn = fmap s ip bn)"

lemma wrote_trans:
  assumes "wrote ip s t" "wrote ip t u"
  shows "wrote ip s u"
proof -
  obtain a where "icache t ip = (icache s ip)\<lparr>i_addrs := a\<rparr>" using assms(1) unfolding wrote_def by blast
  moreover obtain b where "icache u ip = (icache t ip)\<lparr>i_addrs := b\<rparr>" using assms(2) unfolding wrote_def by blast
  ultimately have "icache u ip = (icache s ip)\<lparr>i_addrs := b\<rparr>" by simp
  then show ?thesis using assms unfolding wrote_def by auto
qed

text \<open>A transaction in which the file may get or change \<open>k\<close> more data blocks.\<close>

definition wr :: "nat \<Rightarrow> 'a kfs_scheme \<Rightarrow> int \<Rightarrow> nat \<Rightarrow> nat set \<Rightarrow> nat \<Rightarrow> bool" where
  "wr M s pid ip B k \<longleftrightarrow> (let x = icache s ip; j = k + (if iaddr x = 0 then 1 else 0) in
     tr M s pid {} B j \<and> j \<le> nfree s \<and> layout s \<and> file_ok s ip \<and> bmblocks (sb s) \<subseteq> B \<and> iblk s ip \<in> B \<and> (iaddr x \<noteq> 0 \<longrightarrow> iaddr x \<in> B))"

text \<open>The map under the changes that \<^verbatim>\<open>bmap\<close> makes.\<close>

lemma amap_direct:
  assumes "bn < NDIRECT" "iaddr x \<noteq> 0 \<Longrightarrow> v' (iaddr x) = v (iaddr x)"
  shows "amap v' (x\<lparr>i_addrs := (i_addrs x)(bn := a)\<rparr>) = (amap v x)(bn := unat a)" "iaddr (x\<lparr>i_addrs := (i_addrs x)(bn := a)\<rparr>) = iaddr x"
proof -
  show i: "iaddr (x\<lparr>i_addrs := (i_addrs x)(bn := a)\<rparr>) = iaddr x" using assms(1) by (simp add: iaddr_def)
  show "amap v' (x\<lparr>i_addrs := (i_addrs x)(bn := a)\<rparr>) = (amap v x)(bn := unat a)"
    by (rule ext) (use assms in \<open>simp add: amap_def i\<close>)
qed

lemma amap_new_indirect:
  assumes "iaddr x = 0" "\<And>i. i < BSIZE \<Longrightarrow> v' (unat a) i = 0"
  shows "amap v' (x\<lparr>i_addrs := (i_addrs x)(NDIRECT := a)\<rparr>) = amap v x" "iaddr (x\<lparr>i_addrs := (i_addrs x)(NDIRECT := a)\<rparr>) = unat a"
proof -
  show i: "iaddr (x\<lparr>i_addrs := (i_addrs x)(NDIRECT := a)\<rparr>) = unat a" by (simp add: iaddr_def)
  have "rd32 (v' (unat a)) (4 * j) = rd32 (\<lambda>_. 0) (4 * j)" if "j < NINDIRECT" for j
    by (rule rd32_cong) (use that assms(2) in \<open>simp add: NINDIRECT_def BSIZE_def\<close>)
  then show "amap v' (x\<lparr>i_addrs := (i_addrs x)(NDIRECT := a)\<rparr>) = amap v x"
    using assms(1) by (auto simp: fun_eq_iff amap_def i bword_def MAXFILE_def)
qed

lemma amap_indirect:
  assumes "iaddr x \<noteq> 0" "NDIRECT \<le> bn" "bn < MAXFILE" "v' (iaddr x) = wr32 (v (iaddr x)) (4 * (bn - NDIRECT)) a"
  shows "amap v' x = (amap v x)(bn := unat a)"
proof -
  have "rd32 (v' (iaddr x)) (4 * (cn - NDIRECT)) = rd32 (v (iaddr x)) (4 * (cn - NDIRECT))" if "NDIRECT \<le> cn" "cn \<noteq> bn" for cn
    unfolding assms(4) using that assms(2) by (intro rd32_wr32_other) linarith
  moreover have "rd32 (v' (iaddr x)) (4 * (bn - NDIRECT)) = a" unfolding assms(4) by simp
  ultimately show ?thesis using assms(1-3) by (auto simp: fun_eq_iff amap_def bword_def)
qed

subsection \<open>Reading leaves files alone\<close>

lemma reads_same:
  assumes "reads s s'"
  shows "icache s' = icache s" "sb s' = sb s" "dblk s' b = dblk s b" "layout s' = layout s" "blk_ok s' b = blk_ok s b"
    "shape_ok s' A ia ib = shape_ok s A ia ib" "nfree s' = nfree s" "fbyte s' ip off = fbyte s ip off" "file_ok s' ip = file_ok s ip"
    "owned s' ip = owned s ip" "view s' = view s"
proof -
  note R = readsD[OF assms] and F = fs_frame_sel[OF readsD(2)[OF assms]] dblk_frame[OF readsD(2)[OF assms]]
  show d: "icache s' = icache s" "sb s' = sb s" "dblk s' b = dblk s b" "view s' = view s" for b using R F by simp_all
  show "layout s' = layout s" by (simp add: layout_def d F(3))
  show b: "blk_ok s' b = blk_ok s b" for b by (simp add: blk_ok_def d)
  show "nfree s' = nfree s" by (simp add: nfree_def d)
  show sh: "shape_ok s' A ia ib = shape_ok s A ia ib" for A ia ib by (simp add: shape_ok_def d(2) b)
  show "fbyte s' ip off = fbyte s ip off" by (simp add: fbyte_def d Let_def)
  show "file_ok s' ip = file_ok s ip" by (simp add: file_ok_def d sh)
  show "owned s' ip = owned s ip" by (simp add: owned_def d)
qed

lemma reads_wrote: "reads s s' \<Longrightarrow> wrote ip s s'"
  by (auto simp: wrote_def reads_same intro: exI[of _ "i_addrs (icache s ip)"])

lemma reads_wr:
  assumes "wr M s pid ip B k" "reads s s'" "rd s' pid {}"
  shows "wr M s' pid ip B k"
  using assms(1) tr_reads[OF _ assms(2,3)] unfolding wr_def Let_def reads_same[OF assms(2)] by blast

text \<open>The part of \<^verbatim>\<open>bmap\<close> that reads the indirect block.\<close>

definition bmap_tail :: "nat \<Rightarrow> nat \<Rightarrow> nat \<Rightarrow> (nat, 'a kfs_scheme) kop" where
  "bmap_tail dev bn addr =
     kbind (bread dev addr) (\<lambda>bp.
     kbind (bdata bp) (\<lambda>a.
     kbind (if bword a bn = 0 then
              kbind (balloc dev) (\<lambda>addr.
              kthen (bstore bp (\<lambda>d. wr32 d (4 * bn) (of_nat addr))) (
              kthen (log_write bp) (kret addr)))
            else kret (bword a bn)) (\<lambda>addr.
     kthen (brelse bp) (kret addr))))"

lemma bmap_direct:
  "bn < NDIRECT \<Longrightarrow> bmap ip bn s = (let x = icache s ip in if i_addrs x bn = 0 then
     kbind (balloc (i_dev x)) (\<lambda>addr. kthen (kmod (upd_inode ip (i_addrs_update (\<lambda>a. a(bn := of_nat addr))))) (kret addr)) s
     else kret (unat (i_addrs x bn)) s)"
  by (simp add: bmap_def Let_def)

lemma bmap_indirect:
  "NDIRECT \<le> bn \<Longrightarrow> bn < MAXFILE \<Longrightarrow> bmap ip bn s = (let x = icache s ip in if i_addrs x NDIRECT = 0 then
     kbind (balloc (i_dev x)) (\<lambda>addr. kthen (kmod (upd_inode ip (i_addrs_update (\<lambda>a. a(NDIRECT := of_nat addr)))))
       (bmap_tail (i_dev x) (bn - NDIRECT) addr)) s
     else bmap_tail (i_dev x) (bn - NDIRECT) (iaddr x) s)"
  unfolding bmap_def bmap_tail_def[symmetric] Let_def
  by (cases "balloc (i_dev (icache s ip)) s") (simp_all add: MAXFILE_def iaddr_def less_diff_conv2 add.commute kbind_apply kthen_apply)

lemma bmap_tail_mapped:
  assumes "rd s pid {}" "addr < disksize s" "bword (view s addr) j \<noteq> 0"
  shows "\<exists>s'. bmap_tail 1 j addr s = Ok (bword (view s addr) j) s' \<and> rd s' pid {} \<and> reads s s'"
proof (rule blk_read[OF assms(1), of addr])
  fix i s1 s2
  assume r: "bread 1 addr s = Ok i s1" "b_data (bufs s1 i) = view s addr" "brelse i s1 = Ok () s2" "rd s2 pid {}" "reads s s2"
  have "bmap_tail 1 j addr s = Ok (bword (view s addr) j) s2" using r(1-3) assms(3) by (simp add: bmap_tail_def)
  then show ?thesis using r(4,5) by blast
qed (use assms(2) in simp_all)

lemma bmap_mapped:
  assumes "rd s pid {}" "i_dev (icache s ip) = 1" "fmap s ip bn \<noteq> 0" "iaddr (icache s ip) < disksize s"
  shows "\<exists>s'. bmap ip bn s = Ok (fmap s ip bn) s' \<and> rd s' pid {} \<and> reads s s'"
proof (cases "bn < NDIRECT")
  case True
  then have "fmap s ip bn = unat (i_addrs (icache s ip) bn)" "i_addrs (icache s ip) bn \<noteq> 0"
    using assms(3) by (auto simp: amap_def unat_eq_zero)
  then show ?thesis using True assms(1) by (simp add: bmap_direct Let_def kret_def) (simp add: reads_def)
next
  case False
  then have b: "NDIRECT \<le> bn" "bn < MAXFILE" "i_addrs (icache s ip) NDIRECT \<noteq> 0"
    "fmap s ip bn = bword (view s (iaddr (icache s ip))) (bn - NDIRECT)" using assms(3) by (auto simp: amap_def iaddr_def split: if_splits)
  then show ?thesis using bmap_tail_mapped[OF assms(1,4), of "bn - NDIRECT"] assms(2,3) by (simp add: bmap_indirect Let_def)
qed

subsection \<open>Mapping a block\<close>

text \<open>The outcome of \<^verbatim>\<open>bmap\<close> for a write.\<close>

definition got :: "nat \<Rightarrow> int \<Rightarrow> nat \<Rightarrow> nat \<Rightarrow> nat \<Rightarrow> nat \<Rightarrow> nat set \<Rightarrow> 'a kfs_scheme \<Rightarrow> 'a kfs_scheme \<Rightarrow> bool" where
  "got M pid ip bn a k B s s' \<longleftrightarrow> wr M s' pid ip B k \<and> a \<in> B \<and> a \<noteq> 0 \<and> fmap s' ip bn = a
     \<and> (\<forall>off. fbyte s' ip off = fbyte s ip off) \<and> wrote ip s s'"

lemma wrD:
  assumes "wr M s pid ip B k"
  shows "tr M s pid {} B (k + (if iaddr (icache s ip) = 0 then 1 else 0))" "k + (if iaddr (icache s ip) = 0 then 1 else 0) \<le> nfree s"
    "layout s" "file_ok s ip" "bmblocks (sb s) \<subseteq> B" "iblk s ip \<in> B" "iaddr (icache s ip) \<noteq> 0 \<Longrightarrow> iaddr (icache s ip) \<in> B" "rd s pid {}"
    "i_dev (icache s ip) = 1" "shape_ok s (fmap s ip) (iaddr (icache s ip)) (iblk s ip)"
  using assms trD(1) unfolding wr_def Let_def file_ok_def by blast+

lemma wrI:
  assumes "tr M s pid {} B (k + (if ia = 0 then 1 else 0))" "k + (if ia = 0 then 1 else 0) \<le> nfree s" "layout s" "i_dev (icache s ip) = 1"
    "shape_ok s (fmap s ip) ia (iblk s ip)" "bmblocks (sb s) \<subseteq> B" "iblk s ip \<in> B" "ia \<noteq> 0 \<Longrightarrow> ia \<in> B" "iaddr (icache s ip) = ia"
  shows "wr M s pid ip B k"
  using assms unfolding wr_def Let_def file_ok_def by simp

lemma fbyte_grow:
  assumes "fmap s' ip = (fmap s ip)(bn := b)" "fmap s ip bn = 0" "\<And>i. i < BSIZE \<Longrightarrow> view s' b i = 0"
    "\<And>cn. fmap s ip cn \<noteq> 0 \<Longrightarrow> view s' (fmap s ip cn) = view s (fmap s ip cn)"
  shows "fbyte s' ip off = fbyte s ip off"
proof (cases "off div BSIZE = bn")
  case True
  have "off mod BSIZE < BSIZE" by (simp add: BSIZE_def)
  then show ?thesis using True assms(1-3) by (simp add: fbyte_def Let_def)
next
  case False
  then show ?thesis using assms(1) assms(4)[of "off div BSIZE"] by (simp add: fbyte_def Let_def)
qed

lemma owned_ok:
  assumes "file_ok s ip"
  shows "b \<in> owned s ip \<Longrightarrow> blk_ok s b"
  using assms shape_okD(3,5) unfolding owned_def file_ok_def by blast

lemma wroteI:
  assumes "sb s' = sb s" "\<And>jp. jp \<noteq> ip \<Longrightarrow> icache s' jp = icache s jp" "icache s' ip = (icache s ip)\<lparr>i_addrs := a\<rparr>"
    "\<And>b. blk_ok s b \<Longrightarrow> blk_ok s' b" "\<And>b. blk_ok s b \<Longrightarrow> b \<notin> owned s ip \<Longrightarrow> view s' b = view s b"
    "owned s' ip \<subseteq> insert c (owned s ip)" "\<not> blk_ok s c" "\<And>bn. fmap s ip bn \<noteq> 0 \<Longrightarrow> fmap s' ip bn = fmap s ip bn"
  shows "wrote ip s s'"
  unfolding wrote_def using assms by blast

text \<open>Results of \<^verbatim>\<open>balloc\<close>, as the lemmas on files use them.\<close>

lemma balloc_file:
  assumes "tr M s pid H B (Suc k)" "layout s" "0 < nfree s" "bmblocks (sb s) \<subseteq> B" "finite H" "card H \<le> 2" "\<forall>c\<in>H. blk_ok s c"
  obtains b s' where "balloc 1 s = Ok b s'" "first_free s b" "tr M s' pid H (insert b B) k" "view s' = alloc_view (view s) (sb s) b"
    "fs_frame s s'" "keeps (insert b (bmblocks (sb s))) s s'" "layout s'" "\<forall>c. c < sb_size (sb s) \<longrightarrow> used s' c = (used s c \<or> c = b)"
    "nfree s = Suc (nfree s')"
proof -
  obtain b where b: "first_free s b" using first_free_ex[OF assms(3)] .
  have H: "b \<notin> H" "H \<inter> bmblocks (sb s) = {}" using assms(7) b by (auto simp: first_free_def blk_ok_def)
  show ?thesis
  proof (rule balloc_ok[OF assms(1,5,6,2) b H assms(4)])
    fix s'
    assume r: "balloc 1 s = Ok b s'" "tr M s' pid H (insert b B) k" "view s' = alloc_view (view s) (sb s) b" "fs_frame s s'"
      "keeps (insert b (bmblocks (sb s))) s s'" "layout s'" "\<And>c. c < sb_size (sb s) \<Longrightarrow> used s' c = (used s c \<or> c = b)"
    have u: "\<forall>c. c < sb_size (sb s) \<longrightarrow> used s' c = (used s c \<or> c = b)" using r(7) by blast
    show ?thesis by (rule that[OF r(1) b r(2-6) u nfree_alloc[OF b fs_frame_sel(2)[OF r(4)] u]])
  qed
qed

text \<open>A change of a block outside the bitmap.\<close>

lemma change_same:
  assumes "view s' = (view s)(x := d)" "fs_frame s s'" "x \<notin> bmblocks (sb s)"
  shows "layout s' = layout s" "blk_ok s' b = blk_ok s b" "shape_ok s' A ia ib = shape_ok s A ia ib" "nfree s' = nfree s" "sb s' = sb s" "icache s' = icache s"
    "dblk s' b = dblk s b"
proof -
  note F = fs_frame_sel[OF assms(2)] dblk_frame[OF assms(2)]
  have u: "used s' c = used s c" if "c < sb_size (sb s)" for c
    unfolding F(2) by (rule used_in_cong[OF _ that]) (use assms(1,3) in auto)
  show "sb s' = sb s" "icache s' = icache s" "dblk s' b = dblk s b" by (rule F)+
  show "layout s' = layout s" unfolding layout_def F using u F(2) by auto
  show b: "blk_ok s' b = blk_ok s b" for b unfolding blk_ok_def F using u F(2) by auto
  show "shape_ok s' A ia ib = shape_ok s A ia ib" by (simp add: shape_ok_def F(2) b)
  have "{b. b < sb_size (sb s') \<and> \<not> used s' b} = {b. b < sb_size (sb s) \<and> \<not> used s b}" using u F(2) by auto
  then show "nfree s' = nfree s" by (simp add: nfree_def)
qed

lemma bmap_direct_new:
  assumes "wr M s pid ip B (Suc k)" "bn < NDIRECT" "fmap s ip bn = 0"
  shows "\<exists>a s' B'. bmap ip bn s = Ok a s' \<and> got M pid ip bn a k B' s s' \<and> B \<subseteq> B'"
proof -
  let ?x = "icache s ip"
  note W = wrD[OF assms(1)] and S = shape_okD[OF wrD(10)[OF assms(1)]]
  define j where "j = (if iaddr ?x = 0 then 1 else 0 :: nat)"
  have t: "tr M s pid {} B (Suc (k + j))" "0 < nfree s" using W(1,2) by (simp_all add: j_def)
  obtain b s1 where r: "balloc 1 s = Ok b s1" "first_free s b" "tr M s1 pid {} (insert b B) (k + j)" "view s1 = alloc_view (view s) (sb s) b"
    "fs_frame s s1" "layout s1" "\<forall>c. c < sb_size (sb s) \<longrightarrow> used s1 c = (used s c \<or> c = b)" "nfree s = Suc (nfree s1)"
    using balloc_file[OF t(1) W(3) t(2) W(5)] by (metis card.empty empty_iff finite.emptyI zero_le)
  define s' where "s' = upd_inode ip (i_addrs_update (\<lambda>a. a(bn := of_nat b))) s1"
  note F = fs_frame_sel[OF r(5)] and N = alloc_new[OF W(3) r(2,4,5,7)] and O = alloc_other[OF r(2,4)]
  have b: "unat (of_nat b :: u32) = b" using r(2) S(1) by (simp add: first_free_def unat_of_nat)
  have x': "icache s' ip = ?x\<lparr>i_addrs := (i_addrs ?x)(bn := of_nat b)\<rparr>" "view s' = view s1" "sb s' = sb s" by (simp_all add: s'_def F)
  have vi: "view s1 (iaddr ?x) = view s (iaddr ?x)" if "iaddr ?x \<noteq> 0" using O(1)[OF S(3)[OF that]] .
  have fm: "fmap s' ip = (fmap s ip)(bn := b)" "iaddr (icache s' ip) = iaddr ?x"
    unfolding x' using amap_direct[OF assms(2), of ?x "view s1" "view s" "of_nat b"] vi b by simp_all
  have sh: "shape_ok s' (fmap s' ip) (iaddr (icache s' ip)) (iblk s' ip)"
    unfolding fm x'(3) using shape_alloc(2)[OF W(10,3) r(2,4,5,7)] x'(1) by (simp add: s'_def F)
  have ib: "iblk s' ip = iblk s ip" using x' by simp
  have "wr M s' pid ip (insert b B) k"
    by (rule wrI[where ia = "iaddr ?x"]) (use r(3,6,8) W(2,5,6,7,9) x'(1,3) sh ib fm(2) in \<open>auto simp: s'_def j_def\<close>)
  moreover have "fbyte s' ip off = fbyte s ip off" for off
    by (rule fbyte_grow[OF fm(1) assms(3)]) (use N(3) O(1)[OF S(5)] x'(2) in simp_all)
  moreover have "wrote ip s s'"
  proof (rule wroteI[OF x'(3) _ x'(1)])
    show "owned s' ip \<subseteq> insert b (owned s ip)" using fm by (auto simp: owned_def split: if_splits)
    show "\<not> blk_ok s b" using r(2) by (simp add: blk_ok_def first_free_def)
  qed (use O(1) N(4) fm(1) assms(3) in \<open>auto simp: s'_def F\<close>)
  ultimately have "got M pid ip bn b k (insert b B) s s'" using N(2) fm(1) by (simp add: got_def)
  moreover have "bmap ip bn s = Ok b s'" using r(1) W(9) assms(2,3) by (simp add: bmap_direct Let_def amap_def unat_eq_zero s'_def)
  ultimately show ?thesis by blast
qed

text \<open>The first part of the indirect case: a file without an indirect block gets one.\<close>

lemma bmap_new_indirect:
  assumes "wr M s pid ip B k" "iaddr (icache s ip) = 0"
  obtains b s1 where "balloc 1 s = Ok b s1"
    "wr M (upd_inode ip (i_addrs_update (\<lambda>a. a(NDIRECT := of_nat b))) s1) pid ip (insert b B) k"
    "iaddr (icache (upd_inode ip (i_addrs_update (\<lambda>a. a(NDIRECT := of_nat b))) s1) ip) = b" "b \<noteq> 0"
    "wrote ip s (upd_inode ip (i_addrs_update (\<lambda>a. a(NDIRECT := of_nat b))) s1)"
    "\<And>off. fbyte (upd_inode ip (i_addrs_update (\<lambda>a. a(NDIRECT := of_nat b))) s1) ip off = fbyte s ip off"
proof -
  let ?x = "icache s ip"
  note W = wrD[OF assms(1)] and S = shape_okD[OF wrD(10)[OF assms(1)]]
  have t: "tr M s pid {} B (Suc k)" "0 < nfree s" using W(1,2) assms(2) by simp_all
  obtain b s1 where r: "balloc 1 s = Ok b s1" "first_free s b" "tr M s1 pid {} (insert b B) k" "view s1 = alloc_view (view s) (sb s) b"
    "fs_frame s s1" "layout s1" "\<forall>c. c < sb_size (sb s) \<longrightarrow> used s1 c = (used s c \<or> c = b)" "nfree s = Suc (nfree s1)"
    using balloc_file[OF t(1) W(3) t(2) W(5)] by (metis card.empty empty_iff finite.emptyI zero_le)
  define s' where "s' = upd_inode ip (i_addrs_update (\<lambda>a. a(NDIRECT := of_nat b))) s1"
  note F = fs_frame_sel[OF r(5)] and N = alloc_new[OF W(3) r(2,4,5,7)] and O = alloc_other[OF r(2,4)]
  have b: "unat (of_nat b :: u32) = b" using r(2) S(1) by (simp add: first_free_def unat_of_nat)
  have x': "icache s' ip = ?x\<lparr>i_addrs := (i_addrs ?x)(NDIRECT := of_nat b)\<rparr>" "view s' = view s1" "sb s' = sb s" by (simp_all add: s'_def F)
  have fm: "fmap s' ip = fmap s ip" "iaddr (icache s' ip) = b"
    unfolding x' using amap_new_indirect(1)[OF assms(2), of "view s1" "of_nat b" "view s"] N(3) b by (simp_all add: iaddr_def)
  have sh: "shape_ok s' (fmap s' ip) b (iblk s' ip)"
    unfolding fm x'(3) using shape_alloc(3)[OF W(10,3) r(2,4,5,7) assms(2)] x'(1) by (simp add: s'_def F)
  have ib: "iblk s' ip = iblk s ip" using x' by simp
  have "wr M s' pid ip (insert b B) k"
    by (rule wrI[where ia = b]) (use r(3,6,8) W(2,5,6,9) x'(1,3) sh ib fm(2) N(2) assms(2) in \<open>auto simp: s'_def\<close>)
  moreover have "wrote ip s s'"
  proof (rule wroteI[OF x'(3) _ x'(1)])
    show "owned s' ip \<subseteq> insert b (owned s ip)" using fm by (auto simp: owned_def split: if_splits)
    show "\<not> blk_ok s b" using r(2) by (simp add: blk_ok_def first_free_def)
  qed (use O(1) N(4) fm(1) in \<open>auto simp: s'_def F\<close>)
  moreover have "fbyte s' ip off = fbyte s ip off" for off using O(1)[OF S(5)] unfolding fbyte_def fm(1) by (simp add: x'(2) Let_def)
  ultimately show ?thesis using that[OF r(1)] fm(2) N(2) unfolding s'_def by blast
qed

text \<open>The second part: the block gets an entry in the indirect block.\<close>

lemma bmap_tail_new:
  assumes "wr M s pid ip B (Suc k)" "iaddr (icache s ip) \<noteq> 0" "NDIRECT \<le> bn" "bn < MAXFILE" "fmap s ip bn = 0"
  shows "\<exists>a s' B'. bmap_tail 1 (bn - NDIRECT) (iaddr (icache s ip)) s = Ok a s' \<and> got M pid ip bn a k B' s s' \<and> B \<subseteq> B'"
proof -
  define ia where "ia = iaddr (icache s ip)"
  let ?j = "bn - NDIRECT"
  note W = wrD[OF assms(1)] and S = shape_okD[OF wrD(10)[OF assms(1)]]
  have ia: "ia \<noteq> 0" "ia \<in> B" "blk_ok s ia" "bword (view s ia) ?j = 0" using assms W(7) S(3) by (auto simp: ia_def amap_def)
  note I = blk_okD[OF ia(3)]
  obtain i s1 where 1: "bread 1 ia s = Ok i s1" "rd s1 pid {ia}" "held s1 ia i" "b_data (bufs s1 i) = view s ia" "reads s s1"
    using rd_bread[OF W(8), of ia] I(5) by auto
  note R = reads_same[OF 1(5)]
  have t1: "tr M s1 pid {ia} B (Suc k)" using tr_reads[OF W(1) 1(5,2)] assms(2) by simp
  have L1: "layout s1" "0 < nfree s1" "bmblocks (sb s1) \<subseteq> B" "\<forall>c\<in>{ia}. blk_ok s1 c" using W(2,3,5) ia(3) R by auto
  obtain b s2 where r: "balloc 1 s1 = Ok b s2" "first_free s1 b" "tr M s2 pid {ia} (insert b B) k" "view s2 = alloc_view (view s1) (sb s1) b"
    "fs_frame s1 s2" "keeps (insert b (bmblocks (sb s1))) s1 s2" "layout s2" "\<forall>c. c < sb_size (sb s1) \<longrightarrow> used s2 c = (used s1 c \<or> c = b)"
    "nfree s1 = Suc (nfree s2)" using balloc_file[OF t1 L1(1-3) _ _ L1(4)] by auto
  note F = fs_frame_sel[OF r(5)] and N = alloc_new[OF L1(1) r(2,4,5,8)] and O = alloc_other[OF r(2,4)]
  have nb: "ia \<noteq> b" using O(2) L1(4) by simp
  then have h2: "held s2 ia i" using r(6) 1(3) I(4) R(2) by (simp add: keeps_def)
  obtain s3 s4 where 2: "kmod (upd_buf i (b_data_update (\<lambda>d. wr32 d (4 * ?j) (of_nat b)))) s2 = Ok () s3" "log_write i s3 = Ok () s4"
    "tr M s4 pid {ia} (insert b B) k" "held s4 ia i" "view s4 = (view s2)(ia := wr32 (view s2 ia) (4 * ?j) (of_nat b))" "fs_frame s2 s4"
    using tr_change[OF r(3) h2, of "\<lambda>d. wr32 d (4 * ?j) (of_nat b)"] I(3) dblk_frame[OF r(5)] R(3) ia(2) by auto
  obtain s5 where 3: "brelse i s4 = Ok () s5" "rd s5 pid {}" "reads s4 s5" using rd_brelse[OF trD(1)[OF 2(3)] 2(4)] by auto
  note Q = reads_same[OF 3(3)]
  have bm2: "ia \<notin> bmblocks (sb s2)" using I(4) R(2) F(2) by simp
  note C = change_same[OF 2(5,6) bm2]
  have t5: "tr M s5 pid {} (insert b B) k" using tr_reads[OF 2(3) 3(3,2)] .
  have b: "unat (of_nat b :: u32) = b" using r(2) S(1) R(2) by (simp add: first_free_def unat_of_nat)
  have ic: "icache s5 = icache s" "sb s5 = sb s" using Q(1,2) C(5,6) F(1,2) R(1,2) by simp_all
  have v5: "view s5 c = view s c" if "blk_ok s c" "c \<noteq> ia" for c
    using O(1)[of c] that R(5,11) 2(5) Q(11) by simp
  have vi: "view s5 ia = wr32 (view s ia) (4 * ?j) (of_nat b)" using O(1)[of ia] L1(4) R(11) 2(5) Q(11) by simp
  have fm: "fmap s5 ip = (fmap s ip)(bn := b)"
    using amap_indirect[OF assms(2-4), of "view s5" "view s" "of_nat b"] vi b unfolding ic ia_def by simp
  have "shape_ok s1 (fmap s ip) ia (iblk s ip)" using W(10) R(6) by (simp add: ia_def)
  then have "shape_ok s2 ((fmap s ip)(bn := b)) ia (iblk s ip)" using shape_alloc(2)[OF _ L1(1) r(2,4,5,8)] by blast
  moreover have "iblk s5 ip = iblk s ip" by (simp add: ic)
  ultimately have sh: "shape_ok s5 (fmap s5 ip) ia (iblk s5 ip)" unfolding fm Q(6) C(3) by simp
  have w5: "wr M s5 pid ip (insert b B) k"
    by (rule wrI[where ia = ia]) (use t5 sh W(2,5,6,9) ic ia Q(4,7) C(1,4) r(7,9) R(7) assms(2) in \<open>auto simp: ia_def\<close>)
  have fb: "fbyte s5 ip off = fbyte s ip off" for off
  proof (rule fbyte_grow[OF fm assms(5)])
    show "k < BSIZE \<Longrightarrow> view s5 b k = 0" for k using N(3) nb 2(5) Q(11) by simp
    show "fmap s ip cn \<noteq> 0 \<Longrightarrow> view s5 (fmap s ip cn) = view s (fmap s ip cn)" for cn using v5 S(5,6)[of cn] by (simp add: ia_def)
  qed
  have "wrote ip s s5"
  proof (rule wroteI[where a = "i_addrs (icache s ip)" and c = b])
    show "owned s5 ip \<subseteq> insert b (owned s ip)" using fm ic by (auto simp: owned_def split: if_splits)
    show "\<not> blk_ok s b" using r(2) R(2,11) by (simp add: blk_ok_def first_free_def)
    show "blk_ok s5 c" if "blk_ok s c" for c using that N(4) R(5) C(2) Q(5) by simp
    show "view s5 c = view s c" if "blk_ok s c" "c \<notin> owned s ip" for c using v5 that ia(1) by (auto simp: owned_def ia_def)
  qed (use fm assms(5) ic in auto)
  then have "got M pid ip bn b k (insert b B) s s5" using w5 fb fm N(2) by (simp add: got_def)
  moreover have "bmap_tail 1 ?j ia s = Ok b s5" using 1(1,4) ia(4) r(1) 2(1,2) 3(1) by (simp add: bmap_tail_def)
  ultimately show ?thesis unfolding ia_def by blast
qed

lemma got_mapped:
  assumes "wr M s pid ip B (Suc k)" "fmap s ip bn \<noteq> 0" "rd s' pid {}" "reads s s'"
  shows "got M pid ip bn (fmap s ip bn) k (insert (fmap s ip bn) B) s s'"
proof -
  note W = wrD[OF reads_wr[OF assms(1,4,3)]] and R = reads_same[OF assms(4)]
  have "tr M s' pid {} (insert (fmap s ip bn) B) (k + (if iaddr (icache s' ip) = 0 then 1 else 0))" using W(1) by (intro tr_spend) simp
  then have "wr M s' pid ip (insert (fmap s ip bn) B) k"
    by (rule wrI) (use W(2-7,9,10) in auto)
  then show ?thesis using assms(2) R reads_wrote[OF assms(4)] by (simp add: got_def)
qed

lemma got_trans:
  assumes "wrote ip s t" "\<And>off. fbyte t ip off = fbyte s ip off" "got M pid ip bn a k B t u"
  shows "got M pid ip bn a k B s u"
  using assms wrote_trans unfolding got_def by metis

lemma bmap_wr:
  assumes "wr M s pid ip B (Suc k)" "bn < MAXFILE"
  shows "\<exists>a s' B'. bmap ip bn s = Ok a s' \<and> got M pid ip bn a k B' s s' \<and> B \<subseteq> B'"
proof (cases "fmap s ip bn = 0")
  case False
  note W = wrD[OF assms(1)]
  have "iaddr (icache s ip) < disksize s"
    using blk_okD(5)[OF shape_okD(3)[OF W(10)]] blk_okD(5)[OF shape_okD(2)[OF W(10)]] by (cases "iaddr (icache s ip) = 0") simp_all
  then show ?thesis using bmap_mapped[OF W(8,9) False] got_mapped[OF assms(1) False] by blast
next
  case True
  note W = wrD[OF assms(1)]
  show ?thesis
  proof (cases "bn < NDIRECT")
    case n: True
    show ?thesis by (rule bmap_direct_new[OF assms(1) n True])
  next
    case n: False
    then have n: "NDIRECT \<le> bn" by simp
    show ?thesis
    proof (cases "iaddr (icache s ip) = 0")
      case False
      then have "i_addrs (icache s ip) NDIRECT \<noteq> 0" by (auto simp: iaddr_def)
      then show ?thesis using bmap_tail_new[OF assms(1) False n assms(2) True] W(9) by (simp add: bmap_indirect[OF n assms(2)] Let_def)
    next
      case i: True
      obtain b s1 where r: "balloc 1 s = Ok b s1"
        "wr M (upd_inode ip (i_addrs_update (\<lambda>a. a(NDIRECT := of_nat b))) s1) pid ip (insert b B) (Suc k)"
        "iaddr (icache (upd_inode ip (i_addrs_update (\<lambda>a. a(NDIRECT := of_nat b))) s1) ip) = b" "b \<noteq> 0"
        "wrote ip s (upd_inode ip (i_addrs_update (\<lambda>a. a(NDIRECT := of_nat b))) s1)"
        "\<And>off. fbyte (upd_inode ip (i_addrs_update (\<lambda>a. a(NDIRECT := of_nat b))) s1) ip off = fbyte s ip off"
        using bmap_new_indirect[OF assms(1) i] by blast
      define t where "t = upd_inode ip (i_addrs_update (\<lambda>a. a(NDIRECT := of_nat b))) s1"
      note r = r[folded t_def]
      have "\<exists>a s' B'. bmap_tail 1 (bn - NDIRECT) b t = Ok a s' \<and> got M pid ip bn a k B' t s' \<and> insert b B \<subseteq> B'"
      proof (cases "fmap t ip bn = 0")
        case True
        then show ?thesis using bmap_tail_new[OF r(2) _ n assms(2) True] r(3,4) by simp
      next
        case False
        have bm: "fmap t ip bn = bword (view t b) (bn - NDIRECT)" using False n r(3) by (auto simp: amap_def split: if_splits)
        have "b < disksize t" using blk_okD(5)[OF shape_okD(3)[OF wrD(10)[OF r(2)]]] r(3,4) by simp
        then obtain s' where "bmap_tail 1 (bn - NDIRECT) b t = Ok (fmap t ip bn) s'" "rd s' pid {}" "reads t s'"
          using bmap_tail_mapped[OF wrD(8)[OF r(2)], of b "bn - NDIRECT"] False unfolding bm by blast
        then show ?thesis using got_mapped[OF r(2) False] by blast
      qed
      then obtain a s' B' where s': "bmap_tail 1 (bn - NDIRECT) b t = Ok a s'" "got M pid ip bn a k B' t s'" "insert b B \<subseteq> B'" by blast
      have "bmap ip bn s = Ok a s'"
        using r(1) s'(1) W(9) i by (simp add: bmap_indirect[OF n assms(2)] Let_def iaddr_def unat_eq_zero t_def)
      then show ?thesis using got_trans[OF r(5,6) s'(2)] s'(3) by blast
    qed
  qed
qed

subsection \<open>Writing\<close>

lemma store_block:
  fixes f :: "bytes \<Rightarrow> bytes"
  assumes "wr M s pid ip B k" "fmap s ip bn \<noteq> 0" "fmap s ip bn \<in> B"
  obtains i s1 s2 s3 s4 where "bread 1 (fmap s ip bn) s = Ok i s1" "kmod (upd_buf i (b_data_update f)) s1 = Ok () s2" "log_write i s2 = Ok () s3"
    "brelse i s3 = Ok () s4" "wr M s4 pid ip B k" "fmap s4 ip = fmap s ip" "wrote ip s s4"
    "\<And>off. fbyte s4 ip off = (if off div BSIZE = bn then f (view s (fmap s ip bn)) (off mod BSIZE) else fbyte s ip off)"
proof -
  let ?a = "fmap s ip bn"
  note W = wrD[OF assms(1)] and S = shape_okD[OF wrD(10)[OF assms(1)]]
  have d: "dblk s ?a" "?a \<notin> bmblocks (sb s)" using blk_okD[OF S(5)[OF assms(2)]] by simp_all
  obtain i s1 s2 s3 s4 where r: "bread 1 ?a s = Ok i s1" "kmod (upd_buf i (b_data_update f)) s1 = Ok () s2" "log_write i s2 = Ok () s3"
    "brelse i s3 = Ok () s4" "tr M s4 pid {} B (k + (if iaddr (icache s ip) = 0 then 1 else 0))" "view s4 = (view s)(?a := f (view s ?a))" "fs_frame s s4"
    using blk_update[OF W(1) finite.emptyI _ _ d(1) assms(3), of f] by (metis card.empty empty_iff zero_le)
  note C = change_same[OF r(6,7) d(2)]
  have "view s4 (iaddr (icache s ip)) = view s (iaddr (icache s ip))" using r(6) S(6)[OF assms(2)] by simp
  then have fm: "fmap s4 ip = fmap s ip" by (intro ext) (simp add: amap_def C(6))
  have ib: "iblk s4 ip = iblk s ip" by (simp add: C)
  have "wr M s4 pid ip B k"
    by (rule wrI[where ia = "iaddr (icache s ip)"]) (use r(5) W C(1,4-6) C(3)[of "fmap s ip"] fm ib in auto)
  moreover have "wrote ip s s4"
    unfolding wrote_def using C(2,5,6) r(6) fm assms(2) by (auto simp: owned_def intro!: exI[of _ "i_addrs (icache s ip)"])
  moreover have "fbyte s4 ip off = (if off div BSIZE = bn then f (view s ?a) (off mod BSIZE) else fbyte s ip off)" for off
    unfolding fbyte_def fm using S(8)[of "off div BSIZE" bn] r(6) assms(2) by (auto simp: Let_def)
  ultimately show ?thesis using that r(1-4) fm by blast
qed

text \<open>The data blocks touched by a write of \<open>n\<close> bytes at \<open>off\<close>.\<close>

definition touched :: "nat \<Rightarrow> nat \<Rightarrow> nat" where
  "touched off n = (if n = 0 then 0 else (off + n - 1) div BSIZE - off div BSIZE + 1)"

lemma touched_step:
  assumes "0 < n" "m = min n (BSIZE - off mod BSIZE)"
  shows "touched off n = Suc (touched (off + m) (n - m))"
proof (cases "n \<le> BSIZE - off mod BSIZE")
  case True
  then have "off + n - 1 = off div BSIZE * BSIZE + (off mod BSIZE + n - 1)" "off mod BSIZE + n - 1 < BSIZE"
    using assms(1) mod_less_divisor[of BSIZE off] div_mult_mod_eq[of off BSIZE] by (simp_all add: BSIZE_def)
  then have "(off + n - 1) div BSIZE = off div BSIZE" by simp
  then show ?thesis using True assms by (simp add: touched_def)
next
  case False
  then have m: "m = BSIZE - off mod BSIZE" "m < n" using assms by auto
  have b: "off mod BSIZE < BSIZE" "(off div BSIZE + 1) * BSIZE = off div BSIZE * BSIZE + BSIZE" by (simp_all add: BSIZE_def)
  then have "off + m = (off div BSIZE + 1) * BSIZE" using m(1) div_mult_mod_eq[of off BSIZE] by linarith
  then have d: "(off + m) div BSIZE = off div BSIZE + 1" by (simp add: BSIZE_def)
  have "off + m + (n - m) - 1 = off + n - 1" using m by simp
  moreover have "(off + m) div BSIZE \<le> (off + n - 1) div BSIZE" using m(2) by (intro div_le_mono) simp
  ultimately show ?thesis using assms(1) m(2) d by (simp add: touched_def)
qed

lemma in_block:
  assumes "0 < n" "m = min n (BSIZE - off mod BSIZE)"
  shows "c div BSIZE = off div BSIZE \<and> off mod BSIZE \<le> c mod BSIZE \<and> c mod BSIZE < off mod BSIZE + m \<longleftrightarrow> off \<le> c \<and> c < off + m"
    "0 < m" "m \<le> n" "c div BSIZE = off div BSIZE \<Longrightarrow> c mod BSIZE - off mod BSIZE = c - off"
proof -
  have b: "0 < BSIZE" "off mod BSIZE < BSIZE" by (simp_all add: BSIZE_def)
  note o = div_mult_mod_eq[of off BSIZE] and c = div_mult_mod_eq[of c BSIZE]
  show "0 < m" "m \<le> n" using assms b by auto
  show "c mod BSIZE - off mod BSIZE = c - off" if "c div BSIZE = off div BSIZE" using o c[unfolded that] by linarith
  have "c div BSIZE = off div BSIZE" if "off \<le> c" "c < off + m"
  proof (rule antisym)
    have "m \<le> BSIZE - off mod BSIZE" "(off div BSIZE + 1) * BSIZE = off div BSIZE * BSIZE + BSIZE" using assms(2) by simp_all
    then have "c < (off div BSIZE + 1) * BSIZE" using that(2) o b(2) by linarith
    then show "c div BSIZE \<le> off div BSIZE" by (simp add: div_less_iff_less_mult b(1) less_Suc_eq_le[symmetric])
  qed (rule div_le_mono[OF that(1)])
  moreover have "(off mod BSIZE \<le> c mod BSIZE) = (off \<le> c)" "(c mod BSIZE < off mod BSIZE + m) = (c < off + m)" if "c div BSIZE = off div BSIZE"
    using o c[unfolded that] by linarith+
  ultimately show "c div BSIZE = off div BSIZE \<and> off mod BSIZE \<le> c mod BSIZE \<and> c mod BSIZE < off mod BSIZE + m \<longleftrightarrow> off \<le> c \<and> c < off + m"
    by blast
qed

lemma writei_loop_ok:
  assumes "wr M s pid ip B (touched off n)" "off + n \<le> MAXFILE * BSIZE" "n \<le> f"
  shows "\<exists>s' B'. writei_loop f ip src tot off n s = Ok () s' \<and> wr M s' pid ip B' 0 \<and> B \<subseteq> B' \<and> wrote ip s s'
    \<and> (\<forall>c. fbyte s' ip c = (if off \<le> c \<and> c < off + n then src (tot + (c - off)) else fbyte s ip c))
    \<and> (\<forall>c. off \<le> c \<and> c < off + n \<longrightarrow> fmap s' ip (c div BSIZE) \<noteq> 0)"
  using assms
proof (induction f arbitrary: s B tot off n)
  case 0
  then show ?case by (intro exI[of _ s] exI[of _ B]) (auto simp: touched_def kret_def reads_wrote reads_def)
next
  case (Suc f)
  show ?case
  proof (cases "n = 0")
    case True
    then show ?thesis using Suc.prems(1) by (intro exI[of _ s] exI[of _ B]) (auto simp: touched_def kret_def reads_wrote reads_def)
  next
    case False
    define m where "m = min n (BSIZE - off mod BSIZE)"
    let ?bn = "off div BSIZE"
    have n0: "0 < n" using False by simp
    note I = in_block[OF n0 m_def] and T = touched_step[OF n0 m_def]
    have "?bn < MAXFILE" using Suc.prems(2) n0 by (simp add: div_less_iff_less_mult BSIZE_def)
    then obtain a s1 B1 where 1: "bmap ip ?bn s = Ok a s1" "got M pid ip ?bn a (touched (off + m) (n - m)) B1 s s1" "B \<subseteq> B1"
      using bmap_wr Suc.prems(1) unfolding T by blast
    note G = 1(2)[unfolded got_def]
    have a: "fmap s1 ip ?bn \<noteq> 0" "fmap s1 ip ?bn \<in> B1" "a = fmap s1 ip ?bn" using G by auto
    let ?f = "\<lambda>d. bcopy src tot d (off mod BSIZE) m"
    obtain i s2 s3 s4 s5 where 2: "bread 1 (fmap s1 ip ?bn) s1 = Ok i s2" "kmod (upd_buf i (b_data_update ?f)) s2 = Ok () s3" "log_write i s3 = Ok () s4"
      "brelse i s4 = Ok () s5" "wr M s5 pid ip B1 (touched (off + m) (n - m))" "fmap s5 ip = fmap s1 ip" "wrote ip s1 s5"
      "\<And>c. fbyte s5 ip c = (if c div BSIZE = ?bn then ?f (view s1 (fmap s1 ip ?bn)) (c mod BSIZE) else fbyte s1 ip c)"
      using store_block[OF conjunct1[OF G] a(1,2), of ?f] by blast
    have fb: "fbyte s5 ip c = (if off \<le> c \<and> c < off + m then src (tot + (c - off)) else fbyte s ip c)" for c
    proof -
      have "fbyte s1 ip c = view s1 (fmap s1 ip ?bn) (c mod BSIZE)" if "c div BSIZE = ?bn" using that a(1) by (simp add: fbyte_def Let_def)
      then show ?thesis using 2(8)[of c] I(1)[of c] I(4)[of c] G by (auto simp: bcopy_def)
    qed
    have "off + m + (n - m) \<le> MAXFILE * BSIZE" "n - m \<le> f" using Suc.prems(2,3) I(2,3) by auto
    then obtain s' B' where 3: "writei_loop f ip src (tot + m) (off + m) (n - m) s5 = Ok () s'" "wr M s' pid ip B' 0" "B1 \<subseteq> B'" "wrote ip s5 s'"
      "\<forall>c. fbyte s' ip c = (if off + m \<le> c \<and> c < off + m + (n - m) then src (tot + m + (c - (off + m))) else fbyte s5 ip c)"
      "\<forall>c. off + m \<le> c \<and> c < off + m + (n - m) \<longrightarrow> fmap s' ip (c div BSIZE) \<noteq> 0"
      using Suc.IH[OF 2(5)] by blast
    have "i_dev (icache s1 ip) = 1" using wrD(9)[OF conjunct1[OF G]] .
    then have "writei_loop (Suc f) ip src tot off n s = Ok () s'"
      using n0 1(1) a(3) 2(1-4) 3(1) by (simp add: Let_def m_def)
    moreover have "wrote ip s s'" using wrote_trans[OF wrote_trans[OF _ 2(7)] 3(4)] G by blast
    moreover have "fbyte s' ip c = (if off \<le> c \<and> c < off + n then src (tot + (c - off)) else fbyte s ip c)" for c
      using 3(5) fb[of c] I(3) by (auto simp: add.assoc)
    moreover have "fmap s' ip (c div BSIZE) \<noteq> 0" if "off \<le> c" "c < off + n" for c
    proof (cases "c < off + m")
      case True
      then have "c div BSIZE = ?bn" using I(1)[of c] that(1) by simp
      then show ?thesis using 3(4) a(1) 2(6) by (simp add: wrote_def)
    next
      case False
      then show ?thesis using 3(6) that I(3) by simp
    qed
    ultimately show ?thesis using 3(2,3) 1(3) by (intro exI[of _ s'] exI[of _ B']) auto
  qed
qed

subsection \<open>Reading\<close>

lemma readi_loop_ok:
  assumes "rd s pid {}" "file_ok s ip" "n \<le> f" "\<forall>c. off \<le> c \<and> c < off + n \<longrightarrow> fmap s ip (c div BSIZE) \<noteq> 0"
  shows "\<exists>s'. readi_loop f ip off n s = Ok (map (fbyte s ip) [off..<off + n]) s' \<and> rd s' pid {} \<and> reads s s'"
  using assms
proof (induction f arbitrary: s off n)
  case 0
  then show ?case by (simp add: kret_def reads_def)
next
  case (Suc f)
  show ?case
  proof (cases "n = 0")
    case True
    then show ?thesis using Suc.prems(1) by (simp add: kret_def reads_def)
  next
    case False
    define m where "m = min n (BSIZE - off mod BSIZE)"
    let ?a = "fmap s ip (off div BSIZE)"
    have n0: "0 < n" using False by simp
    note I = in_block[OF n0 m_def]
    have D: "i_dev (icache s ip) = 1" and S: "shape_ok s (fmap s ip) (iaddr (icache s ip)) (iblk s ip)" using Suc.prems(2) by (simp_all add: file_ok_def)
    have a: "?a \<noteq> 0" using Suc.prems(4) n0 by simp
    have b: "?a < disksize s" using blk_okD(5)[OF shape_okD(5)[OF S a]] .
    have "iaddr (icache s ip) < disksize s"
      using blk_okD(5)[OF shape_okD(3)[OF S]] b by (cases "iaddr (icache s ip) = 0") simp_all
    then obtain s1 where 1: "bmap ip (off div BSIZE) s = Ok ?a s1" "rd s1 pid {}" "reads s s1" using bmap_mapped[OF Suc.prems(1) D a] by blast
    note R = reads_same[OF 1(3)]
    have "?a < disksize s1" using b fs_frame_sel(3)[OF readsD(2)[OF 1(3)]] by simp
    then obtain i s2 s3 where 2: "bread 1 ?a s1 = Ok i s2" "b_data (bufs s2 i) = view s1 ?a" "brelse i s2 = Ok () s3" "rd s3 pid {}" "reads s1 s3"
      using blk_read[OF 1(2) finite.emptyI, of ?a] by (metis card.empty empty_iff zero_le)
    note Q = reads_same[OF reads_trans[OF 1(3) 2(5)]]
    have "n - m \<le> f" "\<forall>c. off + m \<le> c \<and> c < off + m + (n - m) \<longrightarrow> fmap s3 ip (c div BSIZE) \<noteq> 0" "file_ok s3 ip"
      using Suc.prems(2,3,4) I(2,3) Q by auto
    then obtain s' where 3: "readi_loop f ip (off + m) (n - m) s3 = Ok (map (fbyte s3 ip) [off + m..<off + m + (n - m)]) s'" "rd s' pid {}" "reads s3 s'"
      using Suc.IH[OF 2(4)] by blast
    have "view s1 ?a (off mod BSIZE + k) = fbyte s ip (off + k)" if "k < m" for k
    proof -
      have k: "(off + k) div BSIZE = off div BSIZE" "off mod BSIZE \<le> (off + k) mod BSIZE" using I(1)[of "off + k"] that by simp_all
      then have "(off + k) mod BSIZE = off mod BSIZE + k" using I(4)[of "off + k"] by simp
      then show ?thesis using k(1) a R(11) by (simp add: fbyte_def Let_def)
    qed
    then have d: "map (view s1 ?a) [off mod BSIZE..<off mod BSIZE + m] = map (fbyte s ip) [off..<off + m]" by (intro nth_equalityI) simp_all
    have fb: "fbyte s3 ip = fbyte s ip" using Q(8) by (intro ext) simp
    have "[off..<off + n] = [off..<off + m] @ [off + m..<off + m + (n - m)]" using I(3) upt_add_eq_append[of off "off + m" "n - m"] by simp
    then have "readi_loop (Suc f) ip off n s = Ok (map (fbyte s ip) [off..<off + n]) s'"
      using n0 1(1) 2(1-3) 3(1) d fb D R(1) by (simp add: Let_def m_def)
    then show ?thesis using 3(2) reads_trans[OF reads_trans[OF 1(3) 2(5)] 3(3)] by blast
  qed
qed

subsection \<open>Files as lists of bytes\<close>

definition contents :: "'a kfs_scheme \<Rightarrow> nat \<Rightarrow> u8 list" where
  "contents s ip = map (fbyte s ip) [0..<unat (i_size (icache s ip))]"

text \<open>Every byte below the size has a block.\<close>

definition dense :: "'a kfs_scheme \<Rightarrow> nat \<Rightarrow> bool" where
  "dense s ip \<longleftrightarrow> (\<forall>c. c < unat (i_size (icache s ip)) \<longrightarrow> fmap s ip (c div BSIZE) \<noteq> 0)"

lemma dense_size:
  assumes "dense s ip"
  shows "unat (i_size (icache s ip)) \<le> MAXFILE * BSIZE"
proof (rule ccontr)
  assume "\<not> unat (i_size (icache s ip)) \<le> MAXFILE * BSIZE"
  then have "fmap s ip (MAXFILE * BSIZE div BSIZE) \<noteq> 0" using assms unfolding dense_def linorder_not_le by blast
  then show False by (simp add: amap_def BSIZE_def MAXFILE_def)
qed

lemma readi_ok:
  assumes "rd s pid {}" "file_ok s ip" "dense s ip" "i_type (icache s ip) \<noteq> T_DEV" "off \<le> i_size (icache s ip)" "unat off + unat n < 2 ^ 32"
  shows "\<exists>s'. readi dv ip off n s = Ok (int (length (take (unat n) (drop (unat off) (contents s ip)))), take (unat n) (drop (unat off) (contents s ip))) s'
    \<and> rd s' pid {} \<and> reads s s'"
proof -
  let ?z = "i_size (icache s ip)"
  define m where "m = (if off + n > ?z then ?z - off else n)"
  have pl: "unat (off + n) = unat off + unat n" using assms(6) by (simp add: unat_word_ariths(1))
  have m: "unat m = min (unat n) (unat ?z - unat off)"
    using assms(5) pl by (auto simp: m_def word_less_nat_alt word_le_nat_alt unat_sub min_def)
  have z: "unat ?z < 2 ^ 31" using dense_size[OF assms(3)] by (simp add: MAXFILE_def NDIRECT_def NINDIRECT_def BSIZE_def)
  have ok: "\<not> (off > ?z \<or> off + n < off)" using assms(5) pl by (simp add: word_less_nat_alt word_le_nat_alt not_less)
  have le: "unat off + unat m \<le> unat ?z" using m assms(5) by (simp add: word_le_nat_alt)
  obtain s' where s': "readi_loop (unat m) ip (unat off) (unat m) s = Ok (map (fbyte s ip) [unat off..<unat off + unat m]) s'" "rd s' pid {}" "reads s s'"
    using readi_loop_ok[OF assms(1,2) order_refl, of "unat off" "unat m"] assms(3) le unfolding dense_def by (meson order_less_le_trans)
  have "take (unat n) (drop (unat off) (contents s ip)) = map (fbyte s ip) [unat off..<unat off + unat m]"
    using le m by (simp add: contents_def drop_map take_map take_upt min_def)
  moreover have "readi dv ip off n s = Ok (int (unat m), map (fbyte s ip) [unat off..<unat off + unat m]) s'"
    using assms(4) ok s'(1) le z by (simp add: readi_def Let_def m_def[symmetric] sint_small)
  ultimately show ?thesis using s'(2,3) by simp
qed

text \<open>C4. On a well-formed file that is not a device, \<^verbatim>\<open>readi\<close> with an offset inside the file returns the bytes of the file from the
  offset on, at most \<open>n\<close> of them, and their number; the contents of every block, the inodes and the log are as before. It needs no
  transaction.\<close>

theorem readi_refines:
  assumes "rd s pid {}" "file_ok s ip" "dense s ip" "i_type (icache s ip) \<noteq> T_DEV" "off \<le> i_size (icache s ip)" "unat off + unat n < 2 ^ 32"
  shows "\<exists>s'. readi dv ip off n s = Ok (int (length (take (unat n) (drop (unat off) (contents s ip)))), take (unat n) (drop (unat off) (contents s ip))) s'
    \<and> rd s' pid {} \<and> reads s s'"
  by (rule readi_ok[OF assms])

subsection \<open>Writing as an operation on the list\<close>

lemma amap_size [simp]: "amap v (i_size_update f x) = amap v x" "iaddr (i_size_update f x) = iaddr x"
  by (simp_all add: amap_def iaddr_def fun_eq_iff)

lemma wr_size:
  assumes "wr M s pid ip B k"
  shows "wr M (upd_inode ip (i_size_update f) s) pid ip B k"
  by (rule wrI[where ia = "iaddr (icache s ip)"]) (use wrD[OF assms] in auto)

lemma iupdate_ok:
  assumes "wr M s pid ip B k"
  obtains s' where "iupdate ip s = Ok () s'" "wr M s' pid ip B k" "fs_frame s s'" "\<And>b. b \<noteq> iblk s ip \<Longrightarrow> view s' b = view s b"
    "view s' (iblk s ip) = dinode_put (icache s ip) (dinode_off (i_inum (icache s ip))) (view s (iblk s ip))" "fmap s' ip = fmap s ip"
    "\<And>b. blk_ok s' b = blk_ok s b"
proof -
  let ?b = "iblk s ip" and ?f = "dinode_put (icache s ip) (dinode_off (i_inum (icache s ip)))"
  note W = wrD[OF assms] and S = shape_okD[OF wrD(10)[OF assms]]
  have d: "dblk s ?b" "?b \<notin> bmblocks (sb s)" using blk_okD[OF S(2)] by simp_all
  obtain i s1 s2 s3 s4 where r: "bread 1 ?b s = Ok i s1" "kmod (upd_buf i (b_data_update ?f)) s1 = Ok () s2" "log_write i s2 = Ok () s3"
    "brelse i s3 = Ok () s4" "tr M s4 pid {} B (k + (if iaddr (icache s ip) = 0 then 1 else 0))" "view s4 = (view s)(?b := ?f (view s ?b))" "fs_frame s s4"
    using blk_update[OF W(1) finite.emptyI _ _ d(1) W(6), of ?f] by (metis card.empty empty_iff zero_le)
  note C = change_same[OF r(6,7) d(2)]
  have "view s4 (iaddr (icache s ip)) = view s (iaddr (icache s ip))" if "iaddr (icache s ip) \<noteq> 0" using r(6) S(4)[OF that] by simp
  then have fm: "fmap s4 ip = fmap s ip" by (intro ext) (simp add: amap_def C(6))
  have ib: "iblk s4 ip = ?b" by (simp add: C)
  show ?thesis
  proof (rule that)
    show "iupdate ip s = Ok () s4" using r(1-4) W(9) by (simp add: iupdate_def)
    show "wr M s4 pid ip B k"
      by (rule wrI[where ia = "iaddr (icache s ip)"]) (use r(5) W C(1,4-6) C(3)[of "fmap s ip"] fm ib in auto)
  qed (use r(6,7) C(2) fm in auto)
qed

text \<open>A write of \<open>ys\<close> at an offset inside the list.\<close>

definition overwrite :: "nat \<Rightarrow> 'b list \<Rightarrow> 'b list \<Rightarrow> 'b list" where
  "overwrite off ys xs = take off xs @ ys @ drop (off + length ys) xs"

lemma overwrite_map:
  assumes "off \<le> z"
  shows "map (\<lambda>c. if off \<le> c \<and> c < off + n then g (c - off) else f c) [0..<max z (off + n)] = overwrite off (map g [0..<n]) (map f [0..<z])"
proof (rule nth_equalityI)
  show l: "length (map (\<lambda>c. if off \<le> c \<and> c < off + n then g (c - off) else f c) [0..<max z (off + n)]) = length (overwrite off (map g [0..<n]) (map f [0..<z]))"
    using assms by (simp add: overwrite_def)
  fix i
  assume "i < length (map (\<lambda>c. if off \<le> c \<and> c < off + n then g (c - off) else f c) [0..<max z (off + n)])"
  then show "map (\<lambda>c. if off \<le> c \<and> c < off + n then g (c - off) else f c) [0..<max z (off + n)] ! i = overwrite off (map g [0..<n]) (map f [0..<z]) ! i"
    using assms by (auto simp: overwrite_def nth_append)
qed

lemma contents_cong:
  assumes "\<forall>c. fbyte s' ip c = fbyte s ip c" "i_size (icache s' ip) = i_size (icache s ip)"
  shows "contents s' ip = contents s ip"
  using assms by (simp add: contents_def)

text \<open>A file none of whose blocks changes.\<close>

lemma other_contents:
  assumes "icache s' jp = icache s jp" "\<forall>b. b \<in> owned s jp \<longrightarrow> view s' b = view s b"
  shows "contents s' jp = contents s jp"
proof -
  have "view s' (iaddr (icache s jp)) = view s (iaddr (icache s jp))" if "iaddr (icache s jp) \<noteq> 0" using assms(2) that by (simp add: owned_def)
  then have fm: "fmap s' jp = fmap s jp" using assms(1) by (intro ext) (simp add: amap_def)
  have "fbyte s' jp c = fbyte s jp c" for c
    unfolding fbyte_def fm using assms(2) by (auto simp: Let_def owned_def)
  then show ?thesis using assms(1) by (simp add: contents_def)
qed

lemma writei_guards:
  assumes "off \<le> i_size x" "unat off + unat n \<le> MAXFILE * BSIZE"
  shows "\<not> (off > i_size x \<or> off + n < off)" "\<not> off + n > of_nat (MAXFILE * BSIZE)" "sint n = int (unat n)" "unat (off + n) = unat off + unat n"
proof -
  have z: "MAXFILE * BSIZE = 71680" by (simp add: MAXFILE_def NDIRECT_def NINDIRECT_def BSIZE_def)
  show pl: "unat (off + n) = unat off + unat n" using assms(2) by (simp add: unat_word_ariths(1) z)
  show "\<not> (off > i_size x \<or> off + n < off)" using assms(1) pl by (simp add: word_less_nat_alt word_le_nat_alt not_less)
  show "\<not> off + n > of_nat (MAXFILE * BSIZE)" using assms(2) pl by (simp add: word_less_nat_alt z not_less)
  show "sint n = int (unat n)" using assms(2) by (intro sint_small) (simp add: z)
qed

text \<open>What a write gives: the file is well formed again, its list of bytes is overwritten in that range, and no other file has changed.\<close>

definition written :: "nat \<Rightarrow> nat \<Rightarrow> u8 list \<Rightarrow> 'a kfs_scheme \<Rightarrow> 'a kfs_scheme \<Rightarrow> bool" where
  "written ip off ys s s' \<longleftrightarrow> file_ok s' ip \<and> dense s' ip \<and> contents s' ip = overwrite off ys (contents s ip)
     \<and> (\<forall>jp. jp \<noteq> ip \<and> file_ok s jp \<and> owned s jp \<inter> owned s ip = {} \<and> iblk s ip \<notin> owned s jp \<longrightarrow> contents s' jp = contents s jp)"

lemma wrote_size: "wrote ip s s' \<Longrightarrow> i_size (icache s' ip) = i_size (icache s ip) \<and> iblk s' ip = iblk s ip \<and> i_type (icache s' ip) = i_type (icache s ip)"
  by (auto simp: wrote_def)

lemma wrote_others:
  assumes "wrote ip s s1" "icache s' = (icache s1)(ip := x)" "\<And>b. b \<noteq> iblk s ip \<Longrightarrow> view s' b = view s1 b"
    "jp \<noteq> ip" "file_ok s jp" "owned s jp \<inter> owned s ip = {}" "iblk s ip \<notin> owned s jp"
  shows "contents s' jp = contents s jp"
proof (rule other_contents)
  show "icache s' jp = icache s jp" using assms(1,2,4) by (simp add: wrote_def)
  have "view s' b = view s b" if b: "b \<in> owned s jp" for b
  proof -
    have "b \<noteq> iblk s ip" using assms(7) b by blast
    then have "view s' b = view s1 b" by (rule assms(3))
    also have "\<dots> = view s b" using assms(1,6) b owned_ok[OF assms(5) b] unfolding wrote_def by blast
    finally show ?thesis .
  qed
  then show "\<forall>b. b \<in> owned s jp \<longrightarrow> view s' b = view s b" by blast
qed

lemma writei_written:
  assumes "wr M s pid ip B (touched (unat off) (unat n))" "dense s ip" "i_type (icache s ip) \<noteq> T_DEV"
    "off \<le> i_size (icache s ip)" "unat off + unat n \<le> MAXFILE * BSIZE"
  shows "\<exists>s' B'. writei dv ip src off n s = Ok (int (unat n)) s' \<and> written ip (unat off) (map src [0..<unat n]) s s' \<and> wr M s' pid ip B' 0"
proof -
  let ?z = "unat (i_size (icache s ip))"
  note G = writei_guards[OF assms(4,5)]
  obtain s1 B1 where 1: "writei_loop (unat n) ip src 0 (unat off) (unat n) s = Ok () s1" "wr M s1 pid ip B1 0" "wrote ip s s1"
    "\<forall>c. fbyte s1 ip c = (if unat off \<le> c \<and> c < unat off + unat n then src (0 + (c - unat off)) else fbyte s ip c)"
    "\<forall>c. unat off \<le> c \<and> c < unat off + unat n \<longrightarrow> fmap s1 ip (c div BSIZE) \<noteq> 0"
    using writei_loop_ok[OF assms(1,5) order_refl, of src 0] by blast
  note Z = wrote_size[OF 1(3)]
  have le: "unat off \<le> ?z" using assms(4) by (simp add: word_le_nat_alt)
  have mp: "fmap s1 ip (c div BSIZE) \<noteq> 0" if "c < max ?z (unat off + unat n)" for c
  proof (cases "c < ?z")
    case True
    then show ?thesis using assms(2) 1(3) by (simp add: dense_def wrote_def)
  next
    case False
    then show ?thesis using 1(5) that le by simp
  qed
  have sp: "map (fbyte s1 ip) [0..<max ?z (unat off + unat n)] = overwrite (unat off) (map src [0..<unat n]) (contents s ip)"
    unfolding contents_def overwrite_map[OF le, symmetric] using 1(4) by simp
  show ?thesis
  proof (cases "n > 0 \<and> off + n > i_size (icache s1 ip)")
    case True
    define t where "t = upd_inode ip (i_size_update (\<lambda>_. off + n)) s1"
    have tw: "wr M t pid ip B1 0" unfolding t_def by (rule wr_size[OF 1(2)])
    have ti: "iblk t ip = iblk s ip" "fmap t ip = fmap s1 ip" "view t = view s1" using Z by (simp_all add: t_def)
    obtain s' where s': "iupdate ip t = Ok () s'" "wr M s' pid ip B1 0" "fs_frame t s'" "\<And>b. b \<noteq> iblk t ip \<Longrightarrow> view s' b = view t b" "fmap s' ip = fmap t ip"
      using iupdate_ok[OF tw] by blast
    have ic: "icache s' = (icache s1)(ip := (icache s1 ip)\<lparr>i_size := off + n\<rparr>)" using fs_frame_sel(1)[OF s'(3)] by (simp add: t_def)
    have mx: "unat (off + n) = max ?z (unat off + unat n)" using True G(4) Z by (simp add: word_less_nat_alt)
    have "fbyte s' ip c = fbyte s1 ip c" for c
      unfolding fbyte_def s'(5) ti(2) using s'(4) shape_okD(7)[OF wrD(10)[OF tw], of "c div BSIZE"] ti by (auto simp: Let_def)
    then have "fbyte s' ip = fbyte s1 ip" by (rule ext)
    then have "contents s' ip = overwrite (unat off) (map src [0..<unat n]) (contents s ip)" using sp by (simp add: contents_def[of s'] ic mx)
    moreover have "dense s' ip" unfolding dense_def s'(5) ti(2) using mp by (simp add: ic mx)
    moreover have "contents s' jp = contents s jp"
      if "jp \<noteq> ip" "file_ok s jp" "owned s jp \<inter> owned s ip = {}" "iblk s ip \<notin> owned s jp" for jp
      by (rule wrote_others[OF 1(3) ic _ that]) (use s'(4) ti in simp)
    ultimately have "written ip (unat off) (map src [0..<unat n]) s s'" using wrD(4)[OF s'(2)] by (simp add: written_def)
    moreover have "writei dv ip src off n s = Ok (int (unat n)) s'"
      using assms(3) G 1(1) True s'(1) by (simp add: writei_def t_def)
    ultimately show ?thesis using s'(2) by blast
  next
    case False
    have mx: "max ?z (unat off + unat n) = ?z" using False G(4) Z le by (auto simp: word_less_nat_alt unat_gt_0)
    have "contents s1 ip = overwrite (unat off) (map src [0..<unat n]) (contents s ip)" using sp Z by (simp add: contents_def mx)
    moreover have "dense s1 ip" using mp Z by (simp add: dense_def mx)
    moreover have "contents s1 jp = contents s jp"
      if "jp \<noteq> ip" "file_ok s jp" "owned s jp \<inter> owned s ip = {}" "iblk s ip \<notin> owned s jp" for jp
      by (rule wrote_others[OF 1(3) _ _ that, where x = "icache s1 ip"]) simp_all
    ultimately have "written ip (unat off) (map src [0..<unat n]) s s1" using wrD(4)[OF 1(2)] by (simp add: written_def)
    moreover have "writei dv ip src off n s = Ok (int (unat n)) s1" using assms(3) G 1(1) False by (auto simp: writei_def)
    ultimately show ?thesis using 1(2) by blast
  qed
qed

subsection \<open>A write of one transaction\<close>

lemma touched_chunk:
  assumes "n \<le> 3 * BSIZE"
  shows "touched off n \<le> 4"
proof (cases "n = 0")
  case False
  have "(off + n - 1) div BSIZE \<le> (off + 3 * BSIZE) div BSIZE" using assms by (intro div_le_mono) simp
  also have "\<dots> = off div BSIZE + 3" by (simp add: BSIZE_def)
  finally show ?thesis by (simp add: touched_def le_diff_conv add.commute)
qed (simp add: touched_def)

lemma one_bitmap_block: "sb_size sp \<le> BPB \<Longrightarrow> bmblocks sp \<subseteq> {sb_bmapstart sp}"
  by (auto simp: bmblocks_def BBLOCK_def)

lemma wr_chunk:
  assumes "in_trans s pid {}" "lh_n s + int MAXOPBLOCKS \<le> int LOGSIZE" "log_size s = int LOGSIZE" "sb_size (sb s) \<le> BPB" "layout s"
    "file_ok s ip" "5 \<le> nfree s" "n \<le> 3 * BSIZE"
  shows "\<exists>B. wr (nat (lh_n s) + 7) s pid ip B (touched off n)"
proof -
  define ia where "ia = iaddr (icache s ip)"
  define B where "B = {sb_bmapstart (sb s), iblk s ip} \<union> (if ia = 0 then {} else {ia})"
  let ?j = "touched off n + (if ia = 0 then 1 else 0)"
  have L: "log_ok s" using assms(1) by (simp add: in_trans_def)
  have B: "finite B" by (simp add: B_def)
  have t: "touched off n \<le> 4" by (rule touched_chunk[OF assms(8)])
  have "card B + ?j \<le> 7" using t card_insert_le_m1[of 3 "{iblk s ip}" "sb_bmapstart (sb s)"]
    card_insert_le_m1[of 3 "{iblk s ip, ia}" "sb_bmapstart (sb s)"] card_insert_le_m1[of 2 "{ia}" "iblk s ip"] by (auto simp: B_def insert_commute card_insert_if)
  then have "card (set (log_blocks s) \<union> B) + ?j \<le> nat (lh_n s) + 7"
    using card_Un_le[of "set (log_blocks s)" B] log_n[OF L] by linarith
  then have "tr (nat (lh_n s) + 7) s pid {} B ?j"
    using assms(1-3) log_okD(2)[OF L] B by (simp add: tr_def NBUF_def LOGSIZE_def MAXOPBLOCKS_def nat_le_iff)
  then have "wr (nat (lh_n s) + 7) s pid ip B (touched off n)"
    by (rule wrI) (use assms(5-7) t one_bitmap_block[OF assms(4)] in \<open>auto simp: B_def file_ok_def ia_def\<close>)
  then show ?thesis by blast
qed

text \<open>C3. In a transaction for which \<^verbatim>\<open>begin_op\<close> has reserved its log space, on a disk with one bitmap block and at least five free blocks, a
  \<^verbatim>\<open>writei\<close> of at most 1536 bytes (the chunk of \<^verbatim>\<open>filewrite\<close>) at an offset inside a well-formed file succeeds: the list of bytes of the file
  is overwritten in exactly that range and extended if need be, the file is well formed again, the contents of every other file are
  as before, and at most seven log entries are used, which is within \<^verbatim>\<open>MAXOPBLOCKS\<close>.\<close>

theorem writei_chunk_refines:
  assumes "in_trans s pid {}" "lh_n s + int MAXOPBLOCKS \<le> int LOGSIZE" "log_size s = int LOGSIZE" "sb_size (sb s) \<le> BPB" "layout s"
    "file_ok s ip" "dense s ip" "i_type (icache s ip) \<noteq> T_DEV" "5 \<le> nfree s"
    "unat n \<le> (MAXOPBLOCKS - 1 - 1 - 2) div 2 * 512" "off \<le> i_size (icache s ip)" "unat off + unat n \<le> MAXFILE * BSIZE"
  shows "\<exists>s'. writei dv ip src off n s = Ok (int (unat n)) s' \<and> file_ok s' ip \<and> dense s' ip
    \<and> contents s' ip = overwrite (unat off) (map src [0..<unat n]) (contents s ip)
    \<and> (\<forall>jp. jp \<noteq> ip \<and> file_ok s jp \<and> owned s jp \<inter> owned s ip = {} \<and> iblk s ip \<notin> owned s jp \<longrightarrow> contents s' jp = contents s jp)
    \<and> in_trans s' pid {} \<and> layout s' \<and> lh_n s' \<le> lh_n s + 7"
proof -
  have n: "unat n \<le> 3 * BSIZE" using assms(10) by (simp add: MAXOPBLOCKS_def BSIZE_def)
  obtain B where B: "wr (nat (lh_n s) + 7) s pid ip B (touched (unat off) (unat n))" using wr_chunk[OF assms(1-6,9) n] by blast
  obtain s' B' where s': "writei dv ip src off n s = Ok (int (unat n)) s'" "written ip (unat off) (map src [0..<unat n]) s s'"
    "wr (nat (lh_n s) + 7) s' pid ip B' 0" using writei_written[OF B assms(7,8,11,12)] by blast
  note W = wrD[OF s'(3)]
  have "lh_n s' \<le> lh_n s + 7" using trD(8)[OF W(1)] assms(1) log_okD(2)[of s] by (simp add: in_trans_def split: if_splits)
  then show ?thesis using s'(1,2) trD(2)[OF W(1)] W(3) unfolding written_def by blast
qed

subsection \<open>A write and a read on the small file system\<close>

lemma sample_fs_file: "file_ok sample_fs 0" "dense sample_fs 0" "contents sample_fs 0 = []" "5 \<le> nfree sample_fs"
proof -
  have m: "fmap sample_fs 0 bn = 0" "iaddr (icache sample_fs 0) = 0" for bn by (simp_all add: amap_def iaddr_def sample_fs_sel sample_inode_def)
  have ib: "iblk sample_fs 0 = 32" by (simp add: IBLOCK_def IPB_def BSIZE_def sample_fs_sel sample_inode_def)
  have "blk_ok sample_fs 32" using sample_fs_used[of 32] by (simp add: blk_ok_def dblk_def sample_fs_sel(1-3) sample_fs_layout(1)) (simp add: sample_fs_sel)
  then show "file_ok sample_fs 0" unfolding file_ok_def shape_ok_def ib m by (simp add: sample_fs_sel sample_inode_def)
  show "dense sample_fs 0" "contents sample_fs 0 = []" by (simp_all add: dense_def contents_def sample_fs_sel sample_inode_def)
  have "{60..<65} \<subseteq> {b. b < sb_size (sb sample_fs) \<and> \<not> used sample_fs b}" using sample_fs_used by (auto simp: sample_fs_sel(6))
  then have "card {60..<65 :: nat} \<le> nfree sample_fs" unfolding nfree_def by (intro card_mono) auto
  then show "5 \<le> nfree sample_fs" by simp
qed

text \<open>No device has a driver.\<close>

abbreviation no_devsw :: "nat \<Rightarrow> kfs devsw" where
  "no_devsw \<equiv> \<lambda>_. \<lparr>dev_read = None, dev_write = None\<rparr>"

theorem writei_chunk_refines_witness:
  "\<exists>s'. writei no_devsw 0 (\<lambda>i. of_nat i) 0 600 sample_fs = Ok 600 s' \<and> contents s' 0 = map of_nat [0..<600]"
proof -
  have "in_trans sample_fs 0 {}" using trD(2)[OF sample_fs_tr(1)[of "{}" 0]] by simp
  then have "\<exists>s'. writei no_devsw 0 (\<lambda>i. of_nat i) 0 600 sample_fs = Ok (int (unat (600 :: u32))) s' \<and> file_ok s' 0 \<and> dense s' 0
      \<and> contents s' 0 = overwrite (unat (0 :: u32)) (map (\<lambda>i. of_nat i) [0..<unat (600 :: u32)]) (contents sample_fs 0)
      \<and> (\<forall>jp. jp \<noteq> 0 \<and> file_ok sample_fs jp \<and> owned sample_fs jp \<inter> owned sample_fs 0 = {} \<and> iblk sample_fs 0 \<notin> owned sample_fs jp
           \<longrightarrow> contents s' jp = contents sample_fs jp)
      \<and> in_trans s' 0 {} \<and> layout s' \<and> lh_n s' \<le> lh_n sample_fs + 7"
    by (rule writei_chunk_refines)
      (use sample_fs_file sample_fs_layout in \<open>simp_all add: sample_fs_sel sample_inode_def LOGSIZE_def MAXOPBLOCKS_def BPB_def BSIZE_def MAXFILE_def NDIRECT_def NINDIRECT_def T_FILE_def T_DEV_def\<close>)
  then show ?thesis using sample_fs_file(3) by (auto simp: overwrite_def)
qed

text \<open>The same inode with the blocks 50 and 51 and 600 bytes: a read across the border of the blocks.\<close>

definition sample_fs_file2 :: kfs where
  "sample_fs_file2 = upd_inode 0 (\<lambda>x. x\<lparr>i_addrs := (\<lambda>k. if k = 0 then 50 else if k = 1 then 51 else 0), i_size := 600\<rparr>) sample_fs"

lemma sample_fs_file2_ok: "file_ok sample_fs_file2 0" "dense sample_fs_file2 0" "rd sample_fs_file2 0 {}"
  "fmap sample_fs_file2 0 bn = (if bn = 0 then 50 else if bn = 1 then 51 else 0)"
proof -
  let ?s = sample_fs_file2
  show m: "fmap ?s 0 bn = (if bn = 0 then 50 else if bn = 1 then 51 else 0)" for bn
    by (simp add: sample_fs_file2_def amap_def iaddr_def NDIRECT_def)
  have i: "iaddr (icache ?s 0) = 0" "iblk ?s 0 = 32" by (simp_all add: sample_fs_file2_def iaddr_def NDIRECT_def IBLOCK_def IPB_def BSIZE_def sample_fs_sel sample_inode_def)
  have "blk_ok sample_fs b" if "32 \<le> b" "b < 60" "b \<noteq> 45" for b
    using sample_fs_used[of b] that by (simp add: blk_ok_def dblk_def sample_fs_sel(1-3) sample_fs_layout(1)) (simp add: sample_fs_sel)
  then have b: "blk_ok ?s 32" "blk_ok ?s 50" "blk_ok ?s 51" by (simp_all add: sample_fs_file2_def)
  then show "file_ok ?s 0" unfolding file_ok_def shape_ok_def i m by (simp add: sample_fs_sel sample_inode_def sample_fs_file2_def)
  have "c div BSIZE = 0 \<or> c div BSIZE = 1" if "c < 600" for c using that by (auto simp: BSIZE_def)
  then show "dense ?s 0" unfolding dense_def m by (force simp: sample_fs_file2_def)
  show "rd ?s 0 {}" using trD(1)[OF sample_fs_tr(1)[of "{}" 0]] by (simp add: sample_fs_file2_def)
qed

theorem readi_refines_witness: "\<exists>s'. readi no_devsw 0 510 4 sample_fs_file2 = Ok (4, [254, 255, 0, 1]) s'"
proof -
  let ?s = sample_fs_file2
  have f: "i_size (icache ?s 0) = 600" "i_type (icache ?s 0) \<noteq> T_DEV"
    by (simp_all add: sample_fs_file2_def sample_fs_sel sample_inode_def T_FILE_def T_DEV_def)
  have v: "view ?s 50 = of_nat" "view ?s 51 = of_nat" using sample_fs_tr(2) by (simp_all add: sample_fs_file2_def sample_fs_disk_def)
  have "take 4 (drop 510 (contents ?s 0)) = map (fbyte ?s 0) [510..<514]"
    by (simp add: contents_def f drop_map take_map take_upt del: upt_Suc)
  also have "\<dots> = [254, 255, 0, 1]" by (simp add: upt_conv_Cons fbyte_def sample_fs_file2_ok(4) v BSIZE_def)
  finally have "take 4 (drop 510 (contents ?s 0)) = [254, 255, 0, 1]" .
  then show ?thesis using readi_refines[OF sample_fs_file2_ok(3,1,2) f(2), of 510 4] f(1) by auto
qed

end
