(* ===== verification/Fs_Dirs.thy ===== *)
theory Fs_Dirs
  imports Fs_Files
begin

text \<open>
  The inode cache and directories of \<^verbatim>\<open>src/xv6/fs.c\<close>.

  Shown: \<^verbatim>\<open>iget\<close> keeps at most one entry of the cache for an inode and counts its references; \<^verbatim>\<open>namecmp\<close> compares names up to their
  NUL or \<^verbatim>\<open>DIRSIZ\<close>; \<^verbatim>\<open>dirlookup\<close> returns the first entry of the directory, read as a list of entries, that has the name;
  \<^verbatim>\<open>skipelem\<close> takes the elements off a path.
\<close>

subsection \<open>The inode cache\<close>

definition refers :: "inode \<Rightarrow> nat \<Rightarrow> nat \<Rightarrow> bool" where
  "refers x dev inum \<longleftrightarrow> 0 < i_ref x \<and> i_dev x = dev \<and> i_inum x = inum"

definition icache_ok :: "'a kfs_scheme \<Rightarrow> bool" where
  "icache_ok s \<longleftrightarrow> (\<forall>ip<NINODE. 0 \<le> i_ref (icache s ip))
     \<and> (\<forall>ip<NINODE. \<forall>jp<NINODE. \<forall>dev inum. refers (icache s ip) dev inum \<longrightarrow> refers (icache s jp) dev inum \<longrightarrow> ip = jp)"

lemma find_upt_Some:
  "List.find P [0..<n] = Some i \<longleftrightarrow> i < n \<and> P i \<and> (\<forall>j<i. \<not> P j)"
  by (auto simp: find_Some_iff)

lemma find_upt_None: "List.find P [0..<n] = None \<longleftrightarrow> (\<forall>i<n. \<not> P i)"
  by (auto simp: find_None_iff)

text \<open>The entry that \<^verbatim>\<open>iget\<close> returns, and the entry's new contents.\<close>

lemma iget_cases:
  assumes "LIcache \<notin> klocks s"
  shows "List.find (\<lambda>ip. refers (icache s ip) dev inum) [0..<NINODE] = Some ip \<Longrightarrow>
      iget dev inum s = Ok ip (upd_inode ip (i_ref_update (\<lambda>r. r + 1)) s)"
    "List.find (\<lambda>ip. refers (icache s ip) dev inum) [0..<NINODE] = None \<Longrightarrow> List.find (\<lambda>ip. i_ref (icache s ip) = 0) [0..<NINODE] = Some ip \<Longrightarrow>
      iget dev inum s = Ok ip (upd_inode ip (\<lambda>x. x\<lparr>i_dev := dev, i_inum := inum, i_ref := 1, i_valid := False\<rparr>) s)"
    "List.find (\<lambda>ip. refers (icache s ip) dev inum) [0..<NINODE] = None \<Longrightarrow> List.find (\<lambda>ip. i_ref (icache s ip) = 0) [0..<NINODE] = None \<Longrightarrow>
      iget dev inum s = Panic ''iget: no inodes''"
  using assms unfolding refers_def by (simp_all add: iget_def upd_inode_def)

lemma icache_okD:
  assumes "icache_ok s" "ip < NINODE"
  shows "0 \<le> i_ref (icache s ip)" "jp < NINODE \<Longrightarrow> refers (icache s ip) dev inum \<Longrightarrow> refers (icache s jp) dev inum \<Longrightarrow> ip = jp"
  using assms unfolding icache_ok_def by blast+

lemma icache_ok_upd:
  assumes "icache_ok s" "0 \<le> i_ref y" "\<And>jp dev inum. jp < NINODE \<Longrightarrow> jp \<noteq> ip \<Longrightarrow> refers y dev inum \<Longrightarrow> \<not> refers (icache s jp) dev inum"
    "icache s' = (icache s)(ip := y)"
  shows "icache_ok s'"
  unfolding icache_ok_def
proof (intro conjI allI impI)
  fix jp
  assume "jp < NINODE"
  then show "0 \<le> i_ref (icache s' jp)" using icache_okD(1)[OF assms(1)] assms(2,4) by (cases "jp = ip") simp_all
next
  fix jp kp dev inum
  assume r: "jp < NINODE" "kp < NINODE" "refers (icache s' jp) dev inum" "refers (icache s' kp) dev inum"
  show "jp = kp"
    using icache_okD(2)[OF assms(1) r(1,2)] assms(3)[OF r(1)] assms(3)[OF r(2)] r(3,4) assms(4) by (cases "jp = ip"; cases "kp = ip") auto
qed

lemma iget_ok:
  assumes "icache_ok s" "LIcache \<notin> klocks s"
  shows "(\<exists>ip s'. iget dev inum s = Ok ip s' \<and> ip < NINODE \<and> refers (icache s' ip) dev inum \<and> icache_ok s' \<and> s' = s\<lparr>icache := icache s'\<rparr>
      \<and> (\<forall>jp. jp \<noteq> ip \<longrightarrow> icache s' jp = icache s jp)
      \<and> (if refers (icache s ip) dev inum then icache s' ip = i_ref_update (\<lambda>r. r + 1) (icache s ip)
         else i_ref (icache s ip) = 0 \<and> i_ref (icache s' ip) = 1 \<and> \<not> i_valid (icache s' ip)))
    \<or> iget dev inum s = Panic ''iget: no inodes'' \<and> (\<forall>ip<NINODE. 0 < i_ref (icache s ip) \<and> \<not> refers (icache s ip) dev inum)"
proof (cases "List.find (\<lambda>ip. refers (icache s ip) dev inum) [0..<NINODE]")
  case (Some ip)
  then have i: "ip < NINODE" "refers (icache s ip) dev inum" by (simp_all add: find_upt_Some)
  let ?s = "upd_inode ip (i_ref_update (\<lambda>r. r + 1)) s"
  have "icache_ok ?s" by (rule icache_ok_upd[OF assms(1), of "i_ref_update (\<lambda>r. r + 1) (icache s ip)" ip])
    (use icache_okD[OF assms(1) i(1)] i(2) in \<open>auto simp: refers_def\<close>)
  then show ?thesis using i by (intro disjI1 exI[of _ ip] exI[of _ ?s]) (simp add: iget_cases(1)[OF assms(2) Some] refers_def upd_inode_def)
next
  case None
  then have n: "\<not> refers (icache s jp) dev inum" if "jp < NINODE" for jp using that by (simp add: find_upt_None)
  show ?thesis
  proof (cases "List.find (\<lambda>ip. i_ref (icache s ip) = 0) [0..<NINODE]")
    case f: (Some ip)
    then have i: "ip < NINODE" "i_ref (icache s ip) = 0" by (simp_all add: find_upt_Some)
    let ?f = "\<lambda>x. x\<lparr>i_dev := dev, i_inum := inum, i_ref := 1, i_valid := False\<rparr>"
    have "icache_ok (upd_inode ip ?f s)" by (rule icache_ok_upd[OF assms(1), of "?f (icache s ip)" ip]) (use n in \<open>auto simp: refers_def\<close>)
    then show ?thesis using i n[OF i(1)]
      by (intro disjI1 exI[of _ ip] exI[of _ "upd_inode ip ?f s"]) (simp add: iget_cases(2)[OF assms(2) None f] refers_def upd_inode_def)
  next
    case f: None
    then have "0 < i_ref (icache s ip)" if "ip < NINODE" for ip using that icache_okD(1)[OF assms(1) that] by (simp add: find_upt_None order_less_le)
    then show ?thesis using iget_cases(3)[OF assms(2) None f] n by blast
  qed
qed


lemma sample_fs_icache: "icache_ok sample_fs" "LIcache \<notin> klocks sample_fs" "0 < ip \<Longrightarrow> i_ref (icache sample_fs ip) = 0"
  by (auto simp: icache_ok_def refers_def sample_fs_sel sample_inode_def) (simp_all add: sample_fs_def binit_def sample_fs_boot_def)


subsection \<open>Names\<close>

text \<open>The name in a field of \<^verbatim>\<open>DIRSIZ\<close> bytes: up to the first NUL, or all of it.\<close>

definition namestr :: "bytes \<Rightarrow> u8 list" where
  "namestr b = takeWhile (\<lambda>c. c \<noteq> 0) (map b [0..<DIRSIZ])"

lemma strncmp_fields:
  "strncmp m p q n = 0 \<longleftrightarrow> takeWhile (\<lambda>c. c \<noteq> 0) (map m [p..<p + n]) = takeWhile (\<lambda>c. c \<noteq> 0) (map m [q..<q + n])"
proof (induction n arbitrary: p q)
  case (Suc n)
  have u: "[p..<p + Suc n] = p # [p + 1..<p + 1 + n]" for p by (simp add: upt_conv_Cons)
  have d: "uint a - uint b = 0 \<longleftrightarrow> a = b" for a b :: u8 by (simp only: right_minus_eq word_uint_eq_iff)
  show ?case
  proof (cases "m p \<noteq> 0 \<and> m p = m q")
    case True
    then show ?thesis using Suc[of "p + 1" "q + 1"] by (simp only: u strncmp.simps list.map takeWhile.simps if_True) simp
  next
    case False
    then show ?thesis by (simp only: u strncmp.simps list.map takeWhile.simps if_False d) auto
  qed
qed simp

lemma namecmp_iff: "namecmp s t = 0 \<longleftrightarrow> namestr s = namestr t"
proof -
  let ?m = "\<lambda>i. if i < DIRSIZ then s i else t (i - DIRSIZ)"
  have "map ?m [0..<0 + DIRSIZ] = map s [0..<DIRSIZ]" "map ?m [DIRSIZ..<DIRSIZ + DIRSIZ] = map t [0..<DIRSIZ]"
    by (auto intro: nth_equalityI)
  then show ?thesis unfolding namecmp_def strncmp_fields namestr_def by (simp only:)
qed

subsection \<open>Directories\<close>

text \<open>A directory as a list of entries of 16 bytes; the first one in use that has the name.\<close>

definition dent :: "u8 list \<Rightarrow> nat \<Rightarrow> u8 list" where
  "dent xs k = take DESIZE (drop (k * DESIZE) xs)"

definition named :: "u8 list \<Rightarrow> bytes \<Rightarrow> nat \<Rightarrow> bool" where
  "named xs name k \<longleftrightarrow> de_inum (dent xs k) \<noteq> 0 \<and> namestr name = namestr (de_name (dent xs k))"

definition dirfind :: "u8 list \<Rightarrow> bytes \<Rightarrow> nat option" where
  "dirfind xs name = List.find (named xs name) [0..<length xs div DESIZE]"

text \<open>Directories as the operations find them.\<close>

definition dir_ok :: "'a kfs_scheme \<Rightarrow> nat \<Rightarrow> bool" where
  "dir_ok s dp \<longleftrightarrow> file_ok s dp \<and> dense s dp \<and> i_type (icache s dp) = T_DIR \<and> DESIZE dvd unat (i_size (icache s dp))"

lemma reads_dir: "reads s s' \<Longrightarrow> dir_ok s' dp = dir_ok s dp" "reads s s' \<Longrightarrow> contents s' dp = contents s dp"
  by (simp_all add: dir_ok_def dense_def contents_def reads_same)

lemma unat_of_nat_u32: "n < 4294967296 \<Longrightarrow> unat (of_nat n :: u32) = n"
  by (simp add: unat_of_nat)

lemma dirent_read:
  assumes "rd s pid {}" "dir_ok s dp" "Suc k * DESIZE \<le> unat (i_size (icache s dp))"
  shows "\<exists>s'. readi dv dp (of_nat (k * DESIZE)) (of_nat DESIZE) s = Ok (int DESIZE, dent (contents s dp) k) s' \<and> rd s' pid {} \<and> reads s s'"
proof -
  have d: "file_ok s dp" "dense s dp" "i_type (icache s dp) \<noteq> T_DEV" using assms(2) by (auto simp: dir_ok_def T_DIR_def T_DEV_def)
  have z: "unat (i_size (icache s dp)) \<le> 71680" using dense_size[OF d(2)] by (simp add: MAXFILE_def NDIRECT_def NINDIRECT_def BSIZE_def)
  have le: "k * DESIZE + DESIZE \<le> 71680" using assms(3) z by simp
  then have o: "unat (of_nat (k * DESIZE) :: u32) = k * DESIZE" "unat (of_nat DESIZE :: u32) = DESIZE" by (intro unat_of_nat_u32, simp)+
  have "of_nat (k * DESIZE) \<le> i_size (icache s dp)" unfolding word_le_nat_alt o(1) using assms(3) by simp
  then obtain s' where s': "readi dv dp (of_nat (k * DESIZE)) (of_nat DESIZE) s
      = Ok (int (length (dent (contents s dp) k)), dent (contents s dp) k) s'" "rd s' pid {}" "reads s s'"
    using readi_ok[OF assms(1) d, of "of_nat (k * DESIZE)" "of_nat DESIZE" dv] le unfolding dent_def o by auto
  have "length (dent (contents s dp) k) = DESIZE" using assms(3) by (simp add: dent_def contents_def)
  then show ?thesis using s' by auto
qed

lemma dirlookup_loop_ok:
  assumes "rd s pid {}" "dir_ok s dp" "length (contents s dp) = n * DESIZE" "k + f = n"
  shows "\<exists>s'. reads s s' \<and> rd s' pid {} \<and> dirlookup_loop f dv dp name (of_nat (k * DESIZE)) s =
    (case List.find (named (contents s dp) name) [k..<n] of None \<Rightarrow> Ok None s'
     | Some j \<Rightarrow> kbind (iget 1 (unat (de_inum (dent (contents s dp) j)))) (\<lambda>ip. kret (Some (ip, of_nat (j * DESIZE)))) s')"
  using assms
proof (induction f arbitrary: s k)
  case 0
  then show ?case by (intro exI[of _ s]) (simp add: kret_def reads_def)
next
  case (Suc f)
  let ?xs = "contents s dp"
  have sz: "unat (i_size (icache s dp)) = n * DESIZE" using Suc.prems(3) by (simp add: contents_def)
  have le: "Suc k * DESIZE \<le> n * DESIZE" using Suc.prems(4) by (intro mult_le_mono1) simp
  obtain s1 where s1: "readi dv dp (of_nat (k * DESIZE)) (of_nat DESIZE) s = Ok (int DESIZE, dent ?xs k) s1" "rd s1 pid {}" "reads s s1"
    using dirent_read[OF Suc.prems(1,2)] sz le by metis
  have z: "n * DESIZE \<le> 71680" using dense_size[of s dp] Suc.prems(2) sz by (simp add: dir_ok_def MAXFILE_def NDIRECT_def NINDIRECT_def BSIZE_def)
  have "(of_nat (k * DESIZE) :: u32) < i_size (icache s dp)"
  proof -
    have "k * DESIZE < n * DESIZE" using le by (simp add: DESIZE_def)
    moreover have "unat (of_nat (k * DESIZE) :: u32) = k * DESIZE" using calculation z by (intro unat_of_nat_u32) linarith
    ultimately show ?thesis unfolding word_less_nat_alt sz by (simp only:)
  qed
  moreover have "i_dev (icache s dp) = 1" using Suc.prems(2) by (simp add: dir_ok_def file_ok_def)
  moreover have "of_nat (k * DESIZE) + of_nat DESIZE = (of_nat (Suc k * DESIZE) :: u32)" by simp
  ultimately have step: "dirlookup_loop (Suc f) dv dp name (of_nat (k * DESIZE)) s =
      (if named ?xs name k then kbind (iget 1 (unat (de_inum (dent ?xs k)))) (\<lambda>ip. kret (Some (ip, of_nat (k * DESIZE)))) s1
       else dirlookup_loop f dv dp name (of_nat (Suc k * DESIZE)) s1)"
    using s1(1) by (simp add: named_def namecmp_iff add.commute)
  have ks: "[k..<n] = k # [Suc k..<n]" using Suc.prems(4) by (simp add: upt_conv_Cons)
  show ?case
  proof (cases "named ?xs name k")
    case True
    then show ?thesis using s1(2,3) step ks by (intro exI[of _ s1]) simp
  next
    case False
    have d1: "dir_ok s1 dp" "length (contents s1 dp) = n * DESIZE" "Suc k + f = n" using Suc.prems reads_dir[OF s1(3)] by simp_all
    obtain s' where "reads s1 s'" "rd s' pid {}" "dirlookup_loop f dv dp name (of_nat (Suc k * DESIZE)) s1 =
        (case List.find (named ?xs name) [Suc k..<n] of None \<Rightarrow> Ok None s'
         | Some j \<Rightarrow> kbind (iget 1 (unat (de_inum (dent ?xs j)))) (\<lambda>ip. kret (Some (ip, of_nat (j * DESIZE)))) s')"
      using Suc.IH[OF s1(2) d1] unfolding reads_dir(2)[OF s1(3)] by blast
    then show ?thesis using False step ks reads_trans[OF s1(3)] by (intro exI[of _ s']) (simp del: of_nat_mult of_nat_Suc)
  qed
qed

text \<open>C15. In a well-formed directory, read as a list of entries, \<^verbatim>\<open>dirlookup\<close> returns the first entry in use whose name equals the given one up
  to a NUL or \<^verbatim>\<open>DIRSIZ\<close> bytes: its offset, and the only entry of the inode cache that refers to its inode number. Without such an entry
  it returns none. In both cases no block changes, and no other inode of the cache.\<close>

theorem dirlookup_finds_first:
  assumes "rd s pid {}" "dir_ok s dp" "icache_ok s" "ip0 < NINODE" "i_ref (icache s ip0) = 0"
  shows "case dirfind (contents s dp) name of
      None \<Rightarrow> \<exists>s'. dirlookup dv dp name s = Ok None s' \<and> view s' = view s \<and> icache s' = icache s
    | Some k \<Rightarrow> \<exists>ip s'. dirlookup dv dp name s = Ok (Some (ip, of_nat (k * DESIZE))) s'
        \<and> refers (icache s' ip) 1 (unat (de_inum (dent (contents s dp) k))) \<and> ip < NINODE \<and> icache_ok s' \<and> view s' = view s
        \<and> (\<forall>jp. jp \<noteq> ip \<longrightarrow> icache s' jp = icache s jp)"
proof -
  define n where "n = length (contents s dp) div DESIZE"
  have D: "0 < DESIZE" by (simp add: DESIZE_def)
  have n: "length (contents s dp) = n * DESIZE" "unat (i_size (icache s dp)) = n * DESIZE"
    using assms(2) by (simp_all add: n_def dir_ok_def contents_def)
  have f: "(n * DESIZE + DESIZE - 1) div DESIZE = n" by (rule div_nat_eqI) (use D in \<open>simp_all add: mult.commute\<close>)
  obtain s1 where s1: "reads s s1" "rd s1 pid {}" "dirlookup_loop n dv dp name (of_nat (0 * DESIZE)) s =
      (case List.find (named (contents s dp) name) [0..<n] of None \<Rightarrow> Ok None s1
       | Some j \<Rightarrow> kbind (iget 1 (unat (de_inum (dent (contents s dp) j)))) (\<lambda>ip. kret (Some (ip, of_nat (j * DESIZE)))) s1)"
    using dirlookup_loop_ok[OF assms(1,2) n(1), of 0 n] by auto
  note R = reads_same[OF s1(1)]
  have l: "dirlookup dv dp name s = (case dirfind (contents s dp) name of None \<Rightarrow> Ok None s1
       | Some j \<Rightarrow> kbind (iget 1 (unat (de_inum (dent (contents s dp) j)))) (\<lambda>ip. kret (Some (ip, of_nat (j * DESIZE)))) s1)"
    using s1(3) assms(2) f by (simp add: dirlookup_def dir_ok_def n(2) dirfind_def n_def[symmetric])
  show ?thesis
  proof (cases "dirfind (contents s dp) name")
    case None
    then show ?thesis using l R by simp
  next
    case (Some k)
    let ?i = "unat (de_inum (dent (contents s dp) k))"
    have "icache_ok s1" "LIcache \<notin> klocks s1" using assms(3) R(1) s1(2) by (simp_all add: icache_ok_def rd_def bst_def)
    moreover have "\<not> 0 < i_ref (icache s1 ip0)" using assms(5) R(1) by simp
    ultimately obtain ip s' where s': "iget 1 ?i s1 = Ok ip s'" "refers (icache s' ip) 1 ?i" "ip < NINODE" "icache_ok s'"
      "\<forall>jp. jp \<noteq> ip \<longrightarrow> icache s' jp = icache s1 jp" "s' = s1\<lparr>icache := icache s'\<rparr>" using iget_ok[of s1 1 ?i] assms(4) by blast
    have "bufs s' = bufs s1" by (subst s'(6)) simp
    moreover have "memdisk s' = memdisk s1" by (subst s'(6)) simp
    ultimately have "view s' = view s1" by simp
    then show ?thesis using Some l R s'(1-5) by auto
  qed
qed

subsection \<open>Paths\<close>

text \<open>The elements of a path: what is left of it when it is split at slashes, without the empty parts.\<close>

function elems :: "u8 list \<Rightarrow> u8 list list" where
  "elems p = (case dropWhile (\<lambda>c. c = SLASH) p of [] \<Rightarrow> []
     | c # q \<Rightarrow> (c # takeWhile (\<lambda>c. c \<noteq> SLASH) q) # elems (dropWhile (\<lambda>c. c \<noteq> SLASH) q))"
  by auto
termination
proof (relation "measure length", simp)
  fix p c q
  assume "dropWhile (\<lambda>c. c = SLASH) p = c # q"
  then have "Suc (length q) \<le> length p" using length_dropWhile_le[of "\<lambda>c. c = SLASH" p] by simp
  then show "(dropWhile (\<lambda>c. c \<noteq> SLASH) q, p) \<in> measure length" using length_dropWhile_le[of "\<lambda>c. c \<noteq> SLASH" q] by simp
qed

declare elems.simps [simp del]

lemma elems_drop [simp]: "elems (dropWhile (\<lambda>c. c = SLASH) p) = elems p"
  by (subst (1 2) elems.simps) simp

lemma elems_first:
  assumes "dropWhile (\<lambda>c. c = SLASH) p = q" "q \<noteq> []"
  shows "elems p = takeWhile (\<lambda>c. c \<noteq> SLASH) q # elems (dropWhile (\<lambda>c. c \<noteq> SLASH) q)"
proof -
  obtain c r where q: "q = c # r" using assms(2) by (cases q) auto
  then have "c \<noteq> SLASH" using hd_dropWhile[of "\<lambda>c. c = SLASH" p] assms by simp
  then show ?thesis using assms q by (subst elems.simps) simp
qed

lemma namestr_bcopy:
  assumes "0 \<notin> set e"
  shows "namestr (if DIRSIZ \<le> length e then bcopy (list_bytes e) 0 m 0 DIRSIZ else (bcopy (list_bytes e) 0 m 0 (length e))(length e := 0)) = take DIRSIZ e"
proof (cases "DIRSIZ \<le> length e")
  case True
  then have "map (bcopy (list_bytes e) 0 m 0 DIRSIZ) [0..<DIRSIZ] = take DIRSIZ e" by (intro nth_equalityI) (simp_all add: bcopy_def list_bytes_def)
  then show ?thesis using True assms by (auto simp: namestr_def takeWhile_eq_all_conv dest: in_set_takeD)
next
  case False
  define b where "b = (bcopy (list_bytes e) 0 m 0 (length e))(length e := 0)"
  have "[0..<DIRSIZ] = [0..<length e] @ length e # [Suc (length e)..<DIRSIZ]"
    using False upt_add_eq_append[of 0 "length e" "DIRSIZ - length e"] by (simp add: upt_conv_Cons)
  moreover have "map b [0..<length e] = e" "b (length e) = 0" by (auto intro!: nth_equalityI simp: b_def bcopy_def list_bytes_def)
  ultimately have "takeWhile (\<lambda>c. c \<noteq> 0) (map b [0..<DIRSIZ]) = e" using assms by (auto simp: takeWhile_append)
  then show ?thesis using False by (simp add: namestr_def b_def)
qed

text \<open>C16. \<^verbatim>\<open>skipelem\<close> takes the first element off a path, as its comment describes: it returns null exactly when the path has no element left;
  otherwise the name is the first element, cut to \<^verbatim>\<open>DIRSIZ\<close> bytes, and the rest is a shorter path with the remaining elements and no
  leading slash. So the loop of \<^verbatim>\<open>namex\<close> visits the elements in order and ends.\<close>

theorem skipelem_elems:
  assumes "0 \<notin> set path"
  shows "case skipelem path name of None \<Rightarrow> elems path = []
    | Some (rest, name') \<Rightarrow> \<exists>e. elems path = e # elems rest \<and> e \<noteq> [] \<and> SLASH \<notin> set e \<and> namestr name' = take DIRSIZ e
        \<and> length rest < length path \<and> (rest \<noteq> [] \<longrightarrow> hd rest \<noteq> SLASH)"
proof (cases "dropWhile (\<lambda>c. c = SLASH) path = []")
  case True
  have "skipelem path name = None" unfolding skipelem_def Let_def True by simp
  moreover have "elems path = []" by (subst elems.simps) (simp only: True list.case)
  ultimately show ?thesis by simp
next
  case False
  define q where "q = dropWhile (\<lambda>c. c = SLASH) path"
  define e where "e = takeWhile (\<lambda>c. c \<noteq> SLASH) q"
  define r where "r = dropWhile (\<lambda>c. c \<noteq> SLASH) q"
  have q: "q \<noteq> []" "hd q \<noteq> SLASH" using False hd_dropWhile[of "\<lambda>c. c = SLASH" path] by (simp_all add: q_def)
  have "c \<in> set path" if "c \<in> set e" for c
    using that set_takeWhileD[of c "\<lambda>c. c \<noteq> SLASH" q] set_dropWhileD[of c "\<lambda>c. c = SLASH" path] by (simp add: e_def q_def)
  then have "0 \<notin> set e" using assms by blast
  note N = namestr_bcopy[OF this, of name]
  have e: "e \<noteq> []" "SLASH \<notin> set e" using q set_takeWhileD[of SLASH "\<lambda>c. c \<noteq> SLASH" q] by (auto simp: e_def takeWhile_eq_Nil_iff)
  have "length q = length e + length r" unfolding e_def r_def by (simp flip: length_append)
  then have "length (dropWhile (\<lambda>c. c = SLASH) r) < length path"
    using e(1) length_dropWhile_le[of "\<lambda>c. c = SLASH" r] length_dropWhile_le[of "\<lambda>c. c = SLASH" path] unfolding q_def[symmetric] by (cases e) auto
  moreover have "elems path = e # elems (dropWhile (\<lambda>c. c = SLASH) r)" using elems_first[OF q_def[symmetric] q(1)] by (simp add: e_def r_def)
  moreover have "dropWhile (\<lambda>c. c = SLASH) r \<noteq> [] \<longrightarrow> hd (dropWhile (\<lambda>c. c = SLASH) r) \<noteq> SLASH" using hd_dropWhile by blast
  ultimately show ?thesis using False e N unfolding skipelem_def Let_def q_def[symmetric] e_def[symmetric] r_def[symmetric] by (simp add: q_def)
qed

subsection \<open>A lookup on the small file system\<close>

text \<open>The file of two blocks as a directory of two entries.\<close>

definition sample_fs_dir :: kfs where
  "sample_fs_dir = upd_inode 0 (\<lambda>x. x\<lparr>i_type := T_DIR, i_size := 32\<rparr>) sample_fs_file2"

lemma sample_fs_dir_ok: "dir_ok sample_fs_dir 0" "rd sample_fs_dir 0 {}" "icache_ok sample_fs_dir" "contents sample_fs_dir 0 = map of_nat [0..<32]"
proof -
  note S = sample_fs_file2_ok
  have i: "icache sample_fs_dir 0 = (icache sample_fs_file2 0)\<lparr>i_type := T_DIR, i_size := 32\<rparr>" by (simp add: sample_fs_dir_def)
  have m: "fmap sample_fs_dir 0 = fmap sample_fs_file2 0" by (simp add: i fun_eq_iff amap_def iaddr_def sample_fs_dir_def)
  have "file_ok sample_fs_dir 0" using S(1) unfolding file_ok_def m by (simp add: i iaddr_def) (simp add: sample_fs_dir_def)
  moreover have "dense sample_fs_dir 0" unfolding dense_def m S(4) by (simp add: i BSIZE_def)
  ultimately show "dir_ok sample_fs_dir 0" by (simp add: dir_ok_def i DESIZE_def DIRSIZ_def)
  show "rd sample_fs_dir 0 {}" using S(3) by (simp add: sample_fs_dir_def)
  show "icache_ok sample_fs_dir"
    by (auto simp: icache_ok_def refers_def sample_fs_dir_def sample_fs_file2_def sample_fs_sel sample_inode_def split: if_splits)
  have "view sample_fs_dir 50 = of_nat" using sample_fs_tr(2) by (simp add: sample_fs_dir_def sample_fs_file2_def sample_fs_disk_def)
  then have "fbyte sample_fs_dir 0 c = of_nat c" if "c < 32" for c using that unfolding fbyte_def m S(4) by (simp add: BSIZE_def)
  then show "contents sample_fs_dir 0 = map of_nat [0..<32]" by (simp add: contents_def i)
qed

lemma sample_fs_dir_find: "dirfind (map of_nat [0..<32]) (\<lambda>i. of_nat (i + 18)) = Some 1" "de_inum (dent (map of_nat [0..<32]) 1) = 4368"
  by code_simp+

theorem dirlookup_finds_first_witness:
  "\<exists>ip s'. dirlookup no_devsw 0 (\<lambda>i. of_nat (i + 18)) sample_fs_dir = Ok (Some (ip, 16)) s' \<and> refers (icache s' ip) 1 4368"
proof -
  have "1 < NINODE" "i_ref (icache sample_fs_dir 1) = 0"
    by (simp_all add: NINODE_def sample_fs_dir_def sample_fs_file2_def sample_fs_sel)
  from dirlookup_finds_first[OF sample_fs_dir_ok(2,1,3) this, where name = "\<lambda>i. of_nat (i + 18)" and dv = no_devsw]
  show ?thesis unfolding sample_fs_dir_ok(4) sample_fs_dir_find(1) by (auto simp: sample_fs_dir_find(2)[simplified] DESIZE_def DIRSIZ_def)
qed

text \<open>The second example of the comment of \<^verbatim>\<open>skipelem\<close>: \<^verbatim>\<open>///a//bb\<close>.\<close>

theorem skipelem_elems_witness:
  "\<exists>rest name'. skipelem [47, 47, 47, 97, 47, 47, 98, 98] (\<lambda>_. 0) = Some (rest, name') \<and> rest = [98, 98] \<and> namestr name' = [97]
    \<and> elems [47, 47, 47, 97, 47, 47, 98, 98] = [97] # elems rest"
proof -
  have "skipelem [47, 47, 47, 97, 47, 47, 98, 98] (\<lambda>_. 0) = Some ([98, 98], (bcopy (list_bytes [97]) 0 (\<lambda>_. 0) 0 1)(1 := 0))"
    by (simp add: skipelem_def SLASH_def DIRSIZ_def)
  moreover have "elems [47, 47, 47, 97, 47, 47, 98, 98] = [97] # elems [98, 98]"
    using elems_first[of "[47, 47, 47, 97, 47, 47, 98, 98]" "[97, 47, 47, 98, 98]"] elems_drop[of "[47, 47, 98, 98]"] by (simp add: SLASH_def)
  ultimately show ?thesis using skipelem_elems[of "[47, 47, 47, 97, 47, 47, 98, 98]" "\<lambda>_. 0"] by (auto simp: DIRSIZ_def)
qed

end
