(* ===== verification/Kernel_State.thy ===== *)
theory Kernel_State
  imports Fs
begin

text \<open>
  The rest of the kernel's state, on top of the file system's: the console of \<^verbatim>\<open>src/xv6/console.c\<close> and \<^verbatim>\<open>src/xv6/uart.c\<close>,
  the open files of \<^verbatim>\<open>src/xv6/file.c\<close>, the pipes of \<^verbatim>\<open>src/xv6/pipe.c\<close>, the clock of \<^verbatim>\<open>src/xv6/trap.c\<close> and the tracing
  switch of \<^verbatim>\<open>src/xv6/sysproc.c\<close>. With it, the access of the kernel to user memory through the page table that is loaded.

  A pipe is kept apart from the bytes of its page and is named by the page's address.
\<close>

subsection \<open>State\<close>

datatype fdtype = FD_NONE | FD_PIPE | FD_INODE

record kfile =
  f_type :: fdtype
  f_ref :: int
  f_readable :: bool
  f_writable :: bool
  f_pipe :: u32
  f_ip :: nat
  f_off :: u32

record pipe =
  pi_data :: "nat \<Rightarrow> u8"
  pi_nread :: u32
  pi_nwrite :: u32
  pi_readopen :: bool
  pi_writeopen :: bool

record kernel = kfs +
  cons_locking :: bool
  crt :: "nat \<Rightarrow> u16"
  crt_pos :: nat
  uart :: bool
  uart_out :: "nat list"
  input_buf :: "nat \<Rightarrow> u8"
  input_r :: u32
  input_w :: u32
  input_e :: u32
  ftable :: "nat \<Rightarrow> kfile"
  pipes :: "nat \<Rightarrow> pipe"
  ticks :: u32
  trace :: u32

subsection \<open>User memory\<close>

text \<open>A load or store of a byte at a virtual address by the kernel goes through the loaded page table; it faults, and
  the kernel panics, when the page is not present or, for a store, not writable.\<close>

definition uentry :: "'a kvm_scheme \<Rightarrow> u32 \<Rightarrow> u32" where
  "uentry s va = pte_of s (P2V (cr3 s)) va"

definition uload :: "u32 \<Rightarrow> (u8, 'a kvm_scheme) kop" where
  "uload va = (\<lambda>s. if present (uentry s va) then Ok (pmem s (pframe (PTE_ADDR (uentry s va))) (unat va mod 4096)) s
     else Panic ''trap'')"

definition ustore :: "u32 \<Rightarrow> u8 \<Rightarrow> (unit, 'a kvm_scheme) kop" where
  "ustore va v = (\<lambda>s. if present (uentry s va) \<and> uentry s va AND PTE_W \<noteq> 0
     then let g = pframe (PTE_ADDR (uentry s va)) in Ok () (s\<lparr>pmem := (pmem s)(g := (pmem s g)(unat va mod 4096 := v))\<rparr>)
     else Panic ''trap'')"

primrec ustores :: "u32 \<Rightarrow> u8 list \<Rightarrow> (unit, 'a kvm_scheme) kop" where
  "ustores va [] = kret ()"
| "ustores va (b # bs) = kthen (ustore va b) (ustores (va + 1) bs)"

definition uload32 :: "u32 \<Rightarrow> (u32, 'a kvm_scheme) kop" where
  "uload32 va =
     kbind (uload va) (\<lambda>b0. kbind (uload (va + 1)) (\<lambda>b1. kbind (uload (va + 2)) (\<lambda>b2. kbind (uload (va + 3)) (\<lambda>b3.
     kret (rd32 (list_bytes [b0, b1, b2, b3]) 0)))))"

text \<open>The source of a copy from user memory, as the routine that copies sees it. The pages of a process below
  its size are mapped, so no byte that is copied faults; bytes elsewhere read as 0.\<close>

definition ubytes :: "'a kvm_scheme \<Rightarrow> u32 \<Rightarrow> bytes" where
  "ubytes s va = (\<lambda>i. case uload (va + of_nat i) s of Ok b _ \<Rightarrow> b | _ \<Rightarrow> 0)"

subsection \<open>Ring buffers\<close>

text \<open>A buffer of \<open>m\<close> bytes with free-running 32-bit indices: \<open>r\<close> of the next byte to read and \<open>w\<close> of the next byte to write.
  The indices wrap around at \<open>2 ^ 32\<close>, of which \<open>m\<close> is a divisor.\<close>

definition ring_contents :: "nat \<Rightarrow> bytes \<Rightarrow> u32 \<Rightarrow> u32 \<Rightarrow> u8 list" where
  "ring_contents m f r w = map (\<lambda>k. f (unat (r + of_nat k) mod m)) [0..<unat (w - r)]"

locale ring =
  fixes m :: nat
  assumes m: "m dvd 2 ^ 32" "0 < m" "m < 2 ^ 32"
begin

lemma index: "unat (r + of_nat k :: u32) mod m = (unat r + k) mod m"
proof -
  have "unat (r + of_nat k :: u32) = (unat r + k) mod 2 ^ 32" by (simp add: unat_word_ariths(1) unat_of_nat mod_add_right_eq)
  then show ?thesis using m(1) by (simp add: mod_mod_cancel)
qed

lemma next_free: "k < unat (w - r :: u32) \<Longrightarrow> unat (w - r) < m \<Longrightarrow> unat (r + of_nat k) mod m \<noteq> unat w mod m"
proof
  assume k: "k < unat (w - r)" "unat (w - r) < m" and "unat (r + of_nat k) mod m = unat w mod m"
  moreover have "unat w mod m = (unat r + unat (w - r)) mod m" using index[of r "unat (w - r)"] by simp
  ultimately have "(unat r + k) mod m = (unat r + unat (w - r)) mod m" by (simp add: index)
  then have "m dvd (unat r + unat (w - r)) - (unat r + k)" using mod_eq_dvd_iff_nat[of "unat r + k" "unat r + unat (w - r)" m] k(1) by simp
  then have "m dvd unat (w - r) - k" by simp
  then show False using k dvd_imp_le[of m "unat (w - r) - k"] by simp
qed

lemma length_contents [simp]: "length (ring_contents m f r w) = unat (w - r)"
  by (simp add: ring_contents_def)

lemma contents_empty [simp]: "ring_contents m f r r = []"
  by (simp add: ring_contents_def)

lemma contents_Nil: "ring_contents m f r w = [] \<longleftrightarrow> r = w"
  by (auto simp: ring_contents_def unat_eq_0)

lemma step: "unat (w - r :: u32) < m \<Longrightarrow> unat (w + 1 - r) = Suc (unat (w - r))"
proof -
  assume a: "unat (w - r) < m"
  have "w + 1 - r = 1 + (w - r)" by simp
  then show ?thesis using a m(3) by (simp only:) (simp add: unat_word_ariths(1))
qed

lemma push:
  assumes "unat (w - r) < m"
  shows "ring_contents m (f(unat w mod m := x)) r (w + 1) = ring_contents m f r w @ [x]"
proof -
  have "r + of_nat (unat (w - r)) = w" by simp
  moreover have "map (\<lambda>k. (f(unat w mod m := x)) (unat (r + of_nat k) mod m)) [0..<unat (w - r)] = ring_contents m f r w"
    unfolding ring_contents_def using next_free[OF _ assms] by (intro map_cong) auto
  ultimately show ?thesis by (simp add: ring_contents_def step[OF assms])
qed

lemma pop: "r \<noteq> w \<Longrightarrow> ring_contents m f r w = f (unat r mod m) # ring_contents m f (r + 1) w"
proof -
  assume "r \<noteq> w"
  then have "w - r \<noteq> 0" by simp
  then obtain d where d: "unat (w - r) = Suc d" by (cases "unat (w - r)") (auto simp: unat_eq_0)
  have "w - (r + 1) = (w - r) - 1" by simp
  then have "unat (w - (r + 1)) = d" using d \<open>w - r \<noteq> 0\<close> by (metis unat_minus_one diff_Suc_1)
  moreover have "[0..<Suc d] = 0 # map Suc [0..<d]" by (simp add: map_Suc_upt upt_conv_Cons)
  ultimately show ?thesis by (simp add: ring_contents_def d o_def add.commute add.left_commute)
qed

lemma keep: "unat (w - r) \<le> unat (e - r) \<Longrightarrow> unat (e - r) < m \<Longrightarrow> ring_contents m (f(unat e mod m := x)) r w = ring_contents m f r w"
  unfolding ring_contents_def using next_free[of _ e r] by (intro map_cong) auto

end

subsection \<open>A sample state\<close>

definition inode_zero :: inode where
  "inode_zero = \<lparr>i_dev = 0, i_inum = 0, i_ref = 0, i_lock = \<lparr>sl_locked = False, sl_name = [], sl_pid = 0\<rparr>, i_valid = False,
     i_type = 0, i_major = 0, i_minor = 0, i_nlink = 0, i_size = 0, i_addrs = (\<lambda>_. 0)\<rparr>"

definition file_zero :: kfile where
  "file_zero = \<lparr>f_type = FD_NONE, f_ref = 0, f_readable = False, f_writable = False, f_pipe = 0, f_ip = 0, f_off = 0\<rparr>"

definition pipe_zero :: pipe where
  "pipe_zero = \<lparr>pi_data = (\<lambda>_. 0), pi_nread = 0, pi_nwrite = 0, pi_readopen = False, pi_writeopen = False\<rparr>"

text \<open>Process 0 runs; all tables are empty.\<close>

definition sample_kernel :: kernel where
  "sample_kernel = \<lparr>klocks = {}, procs = (\<lambda>_. proc_zero)(0 := proc_zero\<lparr>p_state := RUNNING, p_pid := 1\<rparr>), curproc = Some 0,
     nextpid = 2, initproc = Some 0, pmem = (\<lambda>_ _. 0), freelist = 0, use_lock = True, kend = 0x80200000, kdata = 0x80108000,
     kpgdir = 0, cr3 = 0, tss_esp0 = 0, bufs = (\<lambda>_. buf_zero), memdisk = (\<lambda>_ _. 0), disksize = 100, dwrites = [],
     log_start = 2, log_size = 30, log_outstanding = 0, log_committing = False, log_dev = 1, lh_n = 0, lh_block = (\<lambda>_. 0),
     icache = (\<lambda>_. inode_zero), sb = \<lparr>sb_size = 100, sb_nblocks = 60, sb_ninodes = 16, sb_nlog = 30, sb_logstart = 2, sb_inodestart = 32, sb_bmapstart = 34\<rparr>,
     cons_locking = True, crt = (\<lambda>_. 0), crt_pos = 0, uart = True, uart_out = [], input_buf = (\<lambda>_. 0), input_r = 0, input_w = 0,
     input_e = 0, ftable = (\<lambda>_. file_zero), pipes = (\<lambda>_. pipe_zero), ticks = 0, trace = 0\<rparr>"

end
