(* ===== verification/Console.thy ===== *)
theory Console
  imports Kernel_State
begin

text \<open>
  The console: \<^verbatim>\<open>src/xv6/console.c\<close>, the keyboard of \<^verbatim>\<open>src/xv6/kbd.c\<close> and \<^verbatim>\<open>src/xv6/kbd.h\<close>, and the output and input
  routines of \<^verbatim>\<open>src/xv6/uart.c\<close>.

  The screen is the array \<^verbatim>\<open>crt\<close> of 16-bit cells; the cursor register of the display controller is a field.
  The bytes sent to the serial port are collected in \<open>uart_out\<close>. What the input ports deliver is an
  argument: the keyboard's status and data, and for \<^verbatim>\<open>consoleintr\<close> the values of the successive calls of
  \<^verbatim>\<open>getc\<close> before the first negative one. A system that has panicked does not go on, so the flag
  \<^verbatim>\<open>panicked\<close> is left out, and so is the debugging listing \<^verbatim>\<open>procdump\<close>.
\<close>

definition BACKSPACE :: nat where "BACKSPACE = 0x100"
definition INPUT_BUF :: nat where "INPUT_BUF = 128"
definition CONSOLE :: nat where "CONSOLE = 1"

subsection \<open>Output\<close>

definition uartputc :: "nat \<Rightarrow> (unit, 'a kernel_scheme) kop" where
  "uartputc c = kmod (\<lambda>s. if \<not> uart s then s else s\<lparr>uart_out := uart_out s @ [c mod 256]\<rparr>)"

text \<open>The scrolling of the first 24 lines of 80 columns, and where the cursor is then.\<close>

definition cga_scroll :: "(nat \<Rightarrow> u16) \<Rightarrow> nat \<Rightarrow> (nat \<Rightarrow> u16) \<times> nat" where
  "cga_scroll m pos =
     (if 24 \<le> pos div 80 then
        let m = (\<lambda>i. if i < 23 * 80 then m (i + 80) else m i); pos = pos - 80
        in ((\<lambda>i. if pos \<le> i \<and> i < 24 * 80 then 0 else m i), pos)
      else (m, pos))"

definition cgaputc :: "nat \<Rightarrow> (unit, 'a kernel_scheme) kop" where
  "cgaputc c =
     kbind (kget crt_pos) (\<lambda>pos0.
     kbind (if c = 10 then kret (pos0 + (80 - pos0 mod 80))
            else if c = BACKSPACE then kret (if 0 < pos0 then pos0 - 1 else pos0)
            else kthen (kmod (\<lambda>s. s\<lparr>crt := (crt s)(pos0 := (of_nat c AND 0xff) OR 0x0700)\<rparr>)) (kret (pos0 + 1))) (\<lambda>pos.
     if 25 * 80 < pos then kpanic ''pos under/overflow'' else
     kmod (\<lambda>s. let mp = cga_scroll (crt s) pos in
       s\<lparr>crt_pos := snd mp, crt := (fst mp)(snd mp := 32 OR 0x0700)\<rparr>)))"

definition consputc :: "nat \<Rightarrow> (unit, 'a kernel_scheme) kop" where
  "consputc c =
     kthen (if c = BACKSPACE then kthen (uartputc 8) (kthen (uartputc 32) (uartputc 8)) else uartputc c)
       (cgaputc c)"

text \<open>The digits of \<open>x\<close>, least significant first: the \<^verbatim>\<open>do\<close> loop of \<^verbatim>\<open>printint\<close>.\<close>

function digits_rev :: "nat \<Rightarrow> nat \<Rightarrow> string" where
  "digits_rev base x =
     (''0123456789abcdef'' ! (x mod base)) # (if base \<le> 1 \<or> x div base = 0 then [] else digits_rev base (x div base))"
  by auto
termination by (relation "measure snd") (auto simp: not_le intro!: div_less_dividend intro: gr0I)

declare digits_rev.simps [simp del]

definition printint :: "u32 \<Rightarrow> nat \<Rightarrow> bool \<Rightarrow> string" where
  "printint xx base sign =
     (let neg = (sign \<and> sint xx < 0); x = (if neg then - xx else xx); buf = digits_rev base (unat x)
      in rev (if neg then buf @ ''-'' else buf))"

text \<open>The characters that \<^verbatim>\<open>cprintf\<close> prints. \<open>args k\<close> is the word of the \<open>k\<close>-th argument after the format and \<open>str a\<close> the
  string at address \<open>a\<close>.\<close>

fun cprintf_chars :: "(u32 \<Rightarrow> string) \<Rightarrow> (nat \<Rightarrow> u32) \<Rightarrow> nat \<Rightarrow> string \<Rightarrow> string" where
  "cprintf_chars str args k [] = []"
| "cprintf_chars str args k [c] = (if c \<noteq> CHR ''%'' then [c] else [])"
| "cprintf_chars str args k (c # d # fmt) =
     (if c \<noteq> CHR ''%'' then c # cprintf_chars str args k (d # fmt)
      else if d = CHR ''d'' then printint (args k) 10 True @ cprintf_chars str args (k + 1) fmt
      else if d = CHR ''x'' \<or> d = CHR ''p'' then printint (args k) 16 False @ cprintf_chars str args (k + 1) fmt
      else if d = CHR ''s'' then
        (if args k = 0 then ''(null)'' else str (args k)) @ cprintf_chars str args (k + 1) fmt
      else if d = CHR ''%'' then CHR ''%'' # cprintf_chars str args k fmt
      else CHR ''%'' # d # cprintf_chars str args k fmt)"

definition cprintf :: "(u32 \<Rightarrow> string) \<Rightarrow> string option \<Rightarrow> (nat \<Rightarrow> u32) \<Rightarrow> (unit, 'a kernel_scheme) kop" where
  "cprintf str fo args =
     kbind (kget cons_locking) (\<lambda>locking.
     kthen (if locking then acquire LCons else kret ()) (
     case fo of
       None \<Rightarrow> kpanic ''null fmt''
     | Some fmt \<Rightarrow>
         kthen (kfor (cprintf_chars str args 0 fmt) (\<lambda>c. consputc (of_char c)))
           (if locking then release LCons else kret ())))"

subsection \<open>Input\<close>

text \<open>Control-x: the code of the letter minus that of \<^verbatim>\<open>@\<close>.\<close>

definition ctrl :: "char \<Rightarrow> nat" where
  "ctrl c = of_char c - 64"

definition input_at :: "'a kernel_scheme \<Rightarrow> u32 \<Rightarrow> u8" where
  "input_at s i = input_buf s (unat i mod INPUT_BUF)"

text \<open>Kill line: the loop ends at the last newline or where the committed input ends. At most \<open>INPUT_BUF\<close>
  characters are uncommitted.\<close>

primrec kill_line :: "nat \<Rightarrow> (unit, 'a kernel_scheme) kop" where
  "kill_line 0 = kret ()"
| "kill_line (Suc f) =
     kbind (kget (\<lambda>s. input_e s \<noteq> input_w s \<and> input_at s (input_e s - 1) \<noteq> 10)) (\<lambda>b.
     if b then
       kthen (kmod (\<lambda>s. s\<lparr>input_e := input_e s - 1\<rparr>)) (
       kthen (consputc BACKSPACE) (kill_line f))
     else kret ())"

definition consoleintr_char :: "nat \<Rightarrow> (unit, 'a kernel_scheme) kop" where
  "consoleintr_char c =
     (if c = ctrl (CHR ''P'') then kret ()
      else if c = ctrl (CHR ''U'') then kill_line INPUT_BUF
      else if c = ctrl (CHR ''H'') \<or> c = 0x7f then
        kbind (kget (\<lambda>s. input_e s \<noteq> input_w s)) (\<lambda>b.
        if b then kthen (kmod (\<lambda>s. s\<lparr>input_e := input_e s - 1\<rparr>)) (consputc BACKSPACE) else kret ())
      else
        kbind (kget (\<lambda>s. unat (input_e s - input_r s) < INPUT_BUF)) (\<lambda>room.
        if c \<noteq> 0 \<and> room then
          let c = (if c = 13 then 10 else c) in
          kthen (kmod (\<lambda>s. s\<lparr>input_buf := (input_buf s)(unat (input_e s) mod INPUT_BUF := of_nat c), input_e := input_e s + 1\<rparr>)) (
          kthen (consputc c) (
          kbind (kget (\<lambda>s. input_e s = input_r s + of_nat INPUT_BUF)) (\<lambda>full.
          if c = 10 \<or> c = ctrl (CHR ''D'') \<or> full then
            kthen (kmod (\<lambda>s. s\<lparr>input_w := input_e s\<rparr>)) (wakeup ChInput)
          else kret ())))
        else kret ()))"

definition consoleintr :: "nat list \<Rightarrow> (unit, 'a kernel_scheme) kop" where
  "consoleintr cs = kthen (acquire LCons) (kthen (kfor cs consoleintr_char) (release LCons))"

text \<open>The loop of \<^verbatim>\<open>consoleread\<close>, with \<open>n\<close> bytes still wanted of \<open>target\<close> and the bytes stored so far; a
  reader that slept comes back here.\<close>

primrec consoleread_loop :: "nat \<Rightarrow> nat \<Rightarrow> nat \<Rightarrow> u8 list \<Rightarrow> (int \<times> u8 list, 'a kernel_scheme) kop" where
  "consoleread_loop 0 ip target got =
     kthen (release LCons) (kthen (ilock (Some ip)) (kret (int target, got)))"
| "consoleread_loop (Suc n) ip target got =
     kbind (kget (\<lambda>s. input_r s = input_w s)) (\<lambda>empty.
     if empty then
       kbind (kget (\<lambda>s. map_option (\<lambda>p. p_killed (procs s p)) (curproc s))) (\<lambda>k. case k of
         None \<Rightarrow> kpanic ''trap''
       | Some True \<Rightarrow> kthen (release LCons) (kthen (ilock (Some ip)) (kret (-1, got)))
       | Some False \<Rightarrow> kthen (sleep ChInput (Some LCons)) (kret (-1, got)))
     else
       kbind (kget (\<lambda>s. input_at s (input_r s))) (\<lambda>c.
       kthen (kmod (\<lambda>s. s\<lparr>input_r := input_r s + 1\<rparr>)) (
       if c = of_nat (ctrl (CHR ''D'')) then
         kthen (if Suc n < target then kmod (\<lambda>s. s\<lparr>input_r := input_r s - 1\<rparr>) else kret ()) (
         kthen (release LCons) (kthen (ilock (Some ip)) (kret (int (target - Suc n), got))))
       else if c = 10 then
         kthen (release LCons) (kthen (ilock (Some ip)) (kret (int (target - n), got @ [c])))
       else consoleread_loop n ip target (got @ [c]))))"

definition consoleread :: "nat \<Rightarrow> int \<Rightarrow> (int \<times> u8 list, 'a kernel_scheme) kop" where
  "consoleread ip n =
     kthen (iunlock (Some ip)) (
     kthen (acquire LCons) (
     if n \<le> 0 then kthen (release LCons) (kthen (ilock (Some ip)) (kret (0, [])))
     else consoleread_loop (nat n) ip (nat n) []))"

definition consolewrite :: "nat \<Rightarrow> bytes \<Rightarrow> int \<Rightarrow> (int, 'a kernel_scheme) kop" where
  "consolewrite ip buf n =
     kthen (iunlock (Some ip)) (
     kthen (acquire LCons) (
     kthen (kfor [0..<nat n] (\<lambda>i. consputc (unat (buf i)))) (
     kthen (release LCons) (
     kthen (ilock (Some ip)) (kret n)))))"

text \<open>The device table after \<^verbatim>\<open>consoleinit\<close>; no other driver is registered.\<close>

definition devsw :: "nat \<Rightarrow> 'a kernel_scheme devsw" where
  "devsw major = (if major = CONSOLE then \<lparr>dev_read = Some consoleread, dev_write = Some consolewrite\<rparr>
     else \<lparr>dev_read = None, dev_write = None\<rparr>)"

definition consoleinit :: "'a kernel_scheme \<Rightarrow> 'a kernel_scheme" where
  "consoleinit s = s\<lparr>cons_locking := True\<rparr>"

subsection \<open>The screen\<close>

lemma cga_scroll_pos: "pos \<le> 24 * 80 \<Longrightarrow> snd (cga_scroll m pos) < 24 * 80"
  by (auto simp: cga_scroll_def Let_def)

lemma cga_scroll_keep: "pos \<le> 24 * 80 \<Longrightarrow> 24 * 80 \<le> i \<Longrightarrow> fst (cga_scroll m pos) i = m i"
  by (auto simp: cga_scroll_def Let_def)

lemma newline_pos: "pos < 24 * 80 \<Longrightarrow> pos + (80 - pos mod 80) \<le> (24 * 80 :: nat)"
proof -
  assume h: "pos < 24 * 80"
  obtain a b where p: "pos = 80 * a + b" "b < 80" using that[of "pos div 80" "pos mod 80"] by simp
  then have "pos mod 80 = b" "a < 24" using h by simp_all
  then show ?thesis using p by simp
qed

text \<open>What one character does to the screen: it never writes outside the 24 lines.\<close>

lemma cgaputc_ok:
  assumes "crt_pos s < 24 * 80"
  obtains s' where "cgaputc c s = Ok () s'" "crt_pos s' < 24 * 80" "\<And>i. 24 * 80 \<le> i \<Longrightarrow> crt s' i = crt s i"
    "s' = s\<lparr>crt := crt s', crt_pos := crt_pos s'\<rparr>"
proof -
  define m where "m = (if c = 10 \<or> c = BACKSPACE then crt s else (crt s)(crt_pos s := (of_nat c AND 0xff) OR 0x0700))"
  define q where "q = (if c = 10 then crt_pos s + (80 - crt_pos s mod 80) else if c = BACKSPACE
    then (if 0 < crt_pos s then crt_pos s - 1 else crt_pos s) else crt_pos s + 1)"
  have q: "q \<le> 24 * 80" using newline_pos[OF assms] assms by (auto simp: q_def)
  let ?t = "s\<lparr>crt_pos := snd (cga_scroll m q), crt := (fst (cga_scroll m q))(snd (cga_scroll m q) := 32 OR 0x0700)\<rparr>"
  have "q \<le> 25 * 80" using q by simp
  moreover have "(if c = 10 then kret (crt_pos s + (80 - crt_pos s mod 80))
      else if c = BACKSPACE then kret (if 0 < crt_pos s then crt_pos s - 1 else crt_pos s)
      else kthen (kmod (\<lambda>s'. s'\<lparr>crt := (crt s')(crt_pos s := (of_nat c AND 0xff) OR 0x0700)\<rparr>)) (kret (crt_pos s + 1))) s = Ok q (s\<lparr>crt := m\<rparr>)"
    unfolding q_def m_def by (cases "c = 10"; cases "c = BACKSPACE") simp_all
  ultimately have "cgaputc c s = Ok () ?t" unfolding cgaputc_def by (simp only: kbind_Ok kget_apply) (simp add: Let_def)
  moreover have "crt ?t i = crt s i" if "24 * 80 \<le> i" for i
    using cga_scroll_keep[OF q that, of m] cga_scroll_pos[OF q, of m] that assms by (auto simp: m_def)
  ultimately show ?thesis using cga_scroll_pos[OF q, of m] by (intro that[of ?t]) simp_all
qed

definition on_screen :: "'a kernel_scheme \<Rightarrow> 'a kernel_scheme \<Rightarrow> bool" where
  "on_screen s s' \<longleftrightarrow> crt_pos s' < 24 * 80 \<and> (\<forall>i. 24 * 80 \<le> i \<longrightarrow> crt s' i = crt s i)
     \<and> s' = s\<lparr>crt := crt s', crt_pos := crt_pos s', uart_out := uart_out s'\<rparr>"

lemma on_screen_trans: "on_screen s t \<Longrightarrow> on_screen t u \<Longrightarrow> on_screen s u"
proof -
  assume h: "on_screen s t" "on_screen t u"
  have "t\<lparr>crt := d, crt_pos := e, uart_out := f\<rparr> = s\<lparr>crt := d, crt_pos := e, uart_out := f\<rparr>"
    if "t = s\<lparr>crt := a, crt_pos := b, uart_out := c\<rparr>" for a b c d e f by (simp add: that)
  then show ?thesis using h unfolding on_screen_def by metis
qed

text \<open>Routines that only put characters on the screen and the serial line.\<close>

definition screen_op :: "(unit, 'a kernel_scheme) kop \<Rightarrow> bool" where
  "screen_op m \<longleftrightarrow> (\<forall>s. crt_pos s < 24 * 80 \<longrightarrow> (\<exists>s'. m s = Ok () s' \<and> on_screen s s'))"

lemma screen_op_ret: "screen_op (kret ())"
  by (simp add: screen_op_def on_screen_def)

lemma screen_op_then: "screen_op m \<Longrightarrow> screen_op n \<Longrightarrow> screen_op (kthen m n)"
proof (unfold screen_op_def, intro allI impI)
  fix s :: "'a kernel_scheme"
  assume m: "\<forall>s. crt_pos s < 24 * 80 \<longrightarrow> (\<exists>s'. m s = Ok () s' \<and> on_screen s s')"
    and n: "\<forall>s. crt_pos s < 24 * 80 \<longrightarrow> (\<exists>s'. n s = Ok () s' \<and> on_screen s s')" and s: "crt_pos s < 24 * 80"
  obtain t where t: "m s = Ok () t" "on_screen s t" using m s by blast
  then obtain u where "n t = Ok () u" "on_screen t u" using n on_screen_def by blast
  with t show "\<exists>s'. kthen m n s = Ok () s' \<and> on_screen s s'" using on_screen_trans by (intro exI[of _ u]) auto
qed

lemma screen_op_for: "(\<And>c. screen_op (f c)) \<Longrightarrow> screen_op (kfor cs f)"
  by (induction cs) (simp_all add: screen_op_ret screen_op_then)

lemma screen_op_uart: "screen_op (uartputc c)"
  by (auto simp: screen_op_def on_screen_def uartputc_def)

lemma screen_op_cga: "screen_op (cgaputc c)"
proof (unfold screen_op_def, intro allI impI)
  fix s :: "'a kernel_scheme"
  assume "crt_pos s < 24 * 80"
  then show "\<exists>s'. cgaputc c s = Ok () s' \<and> on_screen s s'"
  proof (rule cgaputc_ok[of s c])
    fix v assume v: "cgaputc c s = Ok () v" "crt_pos v < 24 * 80" "\<And>i. 24 * 80 \<le> i \<Longrightarrow> crt v i = crt s i" "v = s\<lparr>crt := crt v, crt_pos := crt_pos v\<rparr>"
    have "uart_out (s\<lparr>crt := a, crt_pos := b\<rparr>) = uart_out s" "s\<lparr>crt := a, crt_pos := b, uart_out := uart_out s\<rparr> = s\<lparr>crt := a, crt_pos := b\<rparr>" for a b by simp_all
    then have "v = s\<lparr>crt := crt v, crt_pos := crt_pos v, uart_out := uart_out v\<rparr>" using v(4) by metis
    then show ?thesis using v(1-3) unfolding on_screen_def by blast
  qed
qed

lemma screen_op_consputc: "screen_op (consputc c)"
  by (simp add: consputc_def screen_op_then screen_op_uart screen_op_cga)

subsection \<open>The input ring\<close>

interpretation ci: ring INPUT_BUF
  by unfold_locales (simp_all add: INPUT_BUF_def)

text \<open>The indices are in the order \<^verbatim>\<open>r\<close>, \<^verbatim>\<open>w\<close>, \<^verbatim>\<open>e\<close>, at most \<open>INPUT_BUF\<close> apart. The bytes between \<^verbatim>\<open>r\<close> and \<^verbatim>\<open>w\<close> are
  committed: a reader may take them.\<close>

definition input_ok :: "'a kernel_scheme \<Rightarrow> bool" where
  "input_ok s \<longleftrightarrow> unat (input_w s - input_r s) \<le> unat (input_e s - input_r s) \<and> unat (input_e s - input_r s) \<le> INPUT_BUF"

definition committed :: "'a kernel_scheme \<Rightarrow> u8 list" where
  "committed s = ring_contents INPUT_BUF (input_buf s) (input_r s) (input_w s)"

definition edited :: "'a kernel_scheme \<Rightarrow> u8 list" where
  "edited s = ring_contents INPUT_BUF (input_buf s) (input_r s) (input_e s)"

text \<open>What the interrupt handler may do: the reader's index stays, committed input is only extended.\<close>

definition typed :: "'a kernel_scheme \<Rightarrow> 'a kernel_scheme \<Rightarrow> bool" where
  "typed s s' \<longleftrightarrow> input_ok s' \<and> crt_pos s' < 24 * 80 \<and> input_r s' = input_r s \<and> (\<exists>xs. committed s' = committed s @ xs)
     \<and> klocks s' = klocks s"

lemma typed_refl: "input_ok s \<Longrightarrow> crt_pos s < 24 * 80 \<Longrightarrow> typed s s"
  by (simp add: typed_def)

lemma typed_trans: "typed s t \<Longrightarrow> typed t u \<Longrightarrow> typed s u"
  by (auto simp: typed_def)

lemma on_screen_input:
  assumes "on_screen s s'"
  shows "input_r s' = input_r s" "input_w s' = input_w s" "input_e s' = input_e s" "input_buf s' = input_buf s" "klocks s' = klocks s"
    "procs s' = procs s" "crt_pos s' < 24 * 80"
proof -
  have "s' = s\<lparr>crt := crt s', crt_pos := crt_pos s', uart_out := uart_out s'\<rparr>" "crt_pos s' < 24 * 80" using assms unfolding on_screen_def by blast+
  moreover have "input_r (s\<lparr>crt := a, crt_pos := b, uart_out := c\<rparr>) = input_r s" "input_w (s\<lparr>crt := a, crt_pos := b, uart_out := c\<rparr>) = input_w s"
    "input_e (s\<lparr>crt := a, crt_pos := b, uart_out := c\<rparr>) = input_e s" "input_buf (s\<lparr>crt := a, crt_pos := b, uart_out := c\<rparr>) = input_buf s"
    "klocks (s\<lparr>crt := a, crt_pos := b, uart_out := c\<rparr>) = klocks s" "procs (s\<lparr>crt := a, crt_pos := b, uart_out := c\<rparr>) = procs s" for a b c by simp_all
  ultimately show "input_r s' = input_r s" "input_w s' = input_w s" "input_e s' = input_e s" "input_buf s' = input_buf s" "klocks s' = klocks s"
    "procs s' = procs s" "crt_pos s' < 24 * 80" by metis+
qed

lemma consputc_typed:
  assumes "crt_pos s < 24 * 80"
  obtains s' where "consputc c s = Ok () s'" "on_screen s s'"
  using screen_op_consputc[of c] assms unfolding screen_op_def by blast

lemma erase:
  assumes "input_ok s" "crt_pos s < 24 * 80" "input_e s \<noteq> input_w s"
  obtains s' where "kthen (kmod (\<lambda>s. s\<lparr>input_e := input_e s - 1\<rparr>)) (consputc BACKSPACE) s = Ok () s'" "typed s s'"
    "input_e s' = input_e s - 1" "input_w s' = input_w s" "input_buf s' = input_buf s"
    "unat (input_e s' - input_w s') = unat (input_e s - input_w s) - 1"
proof -
  let ?t = "s\<lparr>input_e := input_e s - 1\<rparr>"
  have "input_e s - input_r s \<noteq> 0"
  proof
    assume z: "input_e s - input_r s = 0"
    then have "input_w s - input_r s = 0" using assms(1) by (simp add: input_ok_def unat_eq_0)
    then show False using z assms(3) by simp
  qed
  then have u: "unat (input_e s - 1 - input_r s) = unat (input_e s - input_r s) - 1"
    using unat_minus_one[of "input_e s - input_r s"] by (simp add: algebra_simps)
  have "unat (input_w s - input_r s) \<noteq> unat (input_e s - input_r s)" using assms(3) by (metis diff_add_cancel unsigned_word_eqI)
  then have ok: "input_ok ?t" using assms(1) u by (simp add: input_ok_def) linarith
  have "input_e s - input_w s \<noteq> 0" using assms(3) by simp
  then have w: "unat (input_e s - 1 - input_w s) = unat (input_e s - input_w s) - 1"
    using unat_minus_one[of "input_e s - input_w s"] by (simp add: algebra_simps)
  obtain s' where s': "consputc BACKSPACE ?t = Ok () s'" "on_screen ?t s'" using consputc_typed[of ?t BACKSPACE] assms(2) by auto
  note o = on_screen_input[OF s'(2)]
  show ?thesis
  proof (rule that)
    show "typed s s'" using o ok by (simp add: typed_def input_ok_def committed_def)
  qed (use s' o w in simp_all)
qed

lemma kill_line_typed:
  assumes "input_ok s" "crt_pos s < 24 * 80" "unat (input_e s - input_w s) \<le> f"
  shows "\<exists>s'. kill_line f s = Ok () s' \<and> typed s s' \<and> (input_e s' = input_w s' \<or> input_at s' (input_e s' - 1) = 10)"
  using assms
proof (induction f arbitrary: s)
  case 0
  then show ?case using typed_refl[OF 0(1,2)] by (auto simp: unat_eq_0)
next
  case (Suc f)
  show ?case
  proof (cases "input_e s \<noteq> input_w s \<and> input_at s (input_e s - 1) \<noteq> 10")
    case True
    then have ne: "input_e s \<noteq> input_w s" by simp
    obtain s1 where 1: "kthen (kmod (\<lambda>s. s\<lparr>input_e := input_e s - 1\<rparr>)) (consputc BACKSPACE) s = Ok () s1" "typed s s1"
      "input_e s1 = input_e s - 1" "input_w s1 = input_w s" "input_buf s1 = input_buf s"
      "unat (input_e s1 - input_w s1) = unat (input_e s - input_w s) - 1" by (rule erase[OF Suc.prems(1,2) ne])
    have "unat (input_e s1 - input_w s1) \<le> f" using 1(6) Suc.prems(3) by simp
    then obtain s2 where 2: "kill_line f s1 = Ok () s2" "typed s1 s2" "input_e s2 = input_w s2 \<or> input_at s2 (input_e s2 - 1) = 10"
      using Suc.IH[of s1] 1(2) by (auto simp: typed_def)
    have "kthen (kmod (\<lambda>s. s\<lparr>input_e := input_e s - 1\<rparr>)) (kthen (consputc BACKSPACE) (kill_line f)) s = Ok () s2"
      using 1(1) 2(1) by (auto elim!: kthen_OkE)
    then show ?thesis using True 2(2,3) typed_trans[OF 1(2)] by (intro exI[of _ s2]) simp
  next
    case False
    then show ?thesis using typed_refl[OF Suc.prems(1,2)] by (intro exI[of _ s]) auto
  qed
qed

lemma input_gap: "input_ok s \<Longrightarrow> unat (input_e s - input_w s) \<le> INPUT_BUF"
proof -
  assume h: "input_ok s"
  have "input_e s - input_w s = (input_e s - input_r s) - (input_w s - input_r s)" by simp
  then have "unat (input_e s - input_w s) = unat (input_e s - input_r s) - unat (input_w s - input_r s)"
    using h unat_sub[of "input_w s - input_r s" "input_e s - input_r s"] by (simp add: input_ok_def word_le_nat_alt)
  then show ?thesis using h unfolding input_ok_def by linarith
qed

lemma edited_committed: "input_ok s \<Longrightarrow> \<exists>xs. edited s = committed s @ xs"
proof -
  assume "input_ok s"
  then have "unat (input_w s - input_r s) \<le> unat (input_e s - input_r s)" by (simp add: input_ok_def)
  then have "[0..<unat (input_e s - input_r s)] = [0..<unat (input_w s - input_r s)] @ [unat (input_w s - input_r s)..<unat (input_e s - input_r s)]"
    using upt_add_eq_append[of 0 "unat (input_w s - input_r s)" "unat (input_e s - input_r s) - unat (input_w s - input_r s)"] by simp
  then show ?thesis unfolding edited_def committed_def ring_contents_def by auto
qed

text \<open>A character that is stored: it is appended to the edited input, and a newline, end-of-file or a full buffer commits it.\<close>

lemma enter:
  assumes "input_ok s" "crt_pos s < 24 * 80" "LPtable \<notin> klocks s" "unat (input_e s - input_r s) < INPUT_BUF"
    "c \<noteq> 0" "c \<noteq> ctrl (CHR ''P'')" "c \<noteq> ctrl (CHR ''U'')" "c \<noteq> ctrl (CHR ''H'')" "c \<noteq> 0x7f"
  defines "d \<equiv> if c = 13 then 10 else c"
  obtains s' where "consoleintr_char c s = Ok () s'" "typed s s'" "edited s' = edited s @ [of_nat d]"
    "committed s' = (if d = 10 \<or> d = ctrl (CHR ''D'') \<or> input_e s + 1 = input_r s + of_nat INPUT_BUF then edited s' else committed s)"
proof -
  define t where "t = s\<lparr>input_buf := (input_buf s)(unat (input_e s) mod INPUT_BUF := of_nat d), input_e := input_e s + 1\<rparr>"
  have ed: "edited t = edited s @ [of_nat d]" using ci.push[OF assms(4)] by (simp add: edited_def t_def)
  have co: "committed t = committed s" using assms(1,4) ci.keep by (simp add: committed_def t_def input_ok_def)
  have st: "unat (input_e s + 1 - input_r s) = Suc (unat (input_e s - input_r s))" by (rule ci.step[OF assms(4)])
  have okt: "input_ok t" using assms(1,4) st by (simp add: input_ok_def t_def)
  have ct: "crt_pos t < 24 * 80" using assms(2) by (simp add: t_def)
  obtain u where u: "consputc d t = Ok () u" "on_screen t u" by (rule consputc_typed[OF ct])
  note o = on_screen_input[OF u(2)]
  have lk: "LPtable \<notin> klocks u" using o(5) assms(3) by (simp add: t_def)
  have ic: "input_ok u" "edited u = edited t" "committed u = committed t" "input_r u = input_r s" "input_e u = input_e s + 1"
    using okt o by (simp_all add: input_ok_def edited_def committed_def t_def)
  show ?thesis
  proof (cases "d = 10 \<or> d = ctrl (CHR ''D'') \<or> input_e s + 1 = input_r s + of_nat INPUT_BUF")
    case True
    define v where "v = u\<lparr>input_w := input_e u, procs := woken ChInput (procs u)\<rparr>"
    have "edited v = edited u" "committed v = edited u" by (simp_all add: v_def edited_def committed_def)
    moreover have "\<exists>xs. edited u = committed s @ xs" using edited_committed[OF assms(1)] ed ic(2) by auto
    ultimately have "typed s v" using ic o(5,7) by (simp add: typed_def v_def input_ok_def t_def)
    moreover have "consoleintr_char c s = Ok () v"
      using True assms(4-9) u(1) ic(4,5) lk by (simp add: consoleintr_char_def d_def[symmetric] t_def[symmetric] v_def Let_def)
    ultimately show ?thesis using True \<open>edited v = edited u\<close> \<open>committed v = edited u\<close> ed ic(2) by (intro that[of v]) simp_all
  next
    case False
    have "typed s u" using ic co o(5,7) by (simp add: typed_def t_def)
    moreover have "consoleintr_char c s = Ok () u"
      using False assms(4-9) u(1) ic(4,5) by (simp add: consoleintr_char_def d_def[symmetric] t_def[symmetric] Let_def)
    ultimately show ?thesis using False ed co ic(2,3) by (intro that[of u]) simp_all
  qed
qed

lemma consoleintr_char_typed:
  assumes "input_ok s" "crt_pos s < 24 * 80" "LPtable \<notin> klocks s"
  shows "\<exists>s'. consoleintr_char c s = Ok () s' \<and> typed s s'"
proof -
  note refl = typed_refl[OF assms(1,2)]
  consider "c = ctrl (CHR ''P'')" | "c = ctrl (CHR ''U'')" | "c = ctrl (CHR ''H'') \<or> c = 0x7f" "input_e s \<noteq> input_w s"
    | "c = ctrl (CHR ''H'') \<or> c = 0x7f" "input_e s = input_w s"
    | "c \<noteq> ctrl (CHR ''P'')" "c \<noteq> ctrl (CHR ''U'')" "c \<noteq> ctrl (CHR ''H'')" "c \<noteq> 0x7f" "c \<noteq> 0" "unat (input_e s - input_r s) < INPUT_BUF"
    | "c \<noteq> ctrl (CHR ''P'')" "c \<noteq> ctrl (CHR ''U'')" "c \<noteq> ctrl (CHR ''H'')" "c \<noteq> 0x7f" "\<not> (c \<noteq> 0 \<and> unat (input_e s - input_r s) < INPUT_BUF)"
    by blast
  then show ?thesis
  proof cases
    case 2
    then show ?thesis using kill_line_typed[OF assms(1,2) input_gap[OF assms(1)]] by (auto simp: consoleintr_char_def ctrl_def)
  next
    case 3
    obtain s' where "kthen (kmod (\<lambda>s. s\<lparr>input_e := input_e s - 1\<rparr>)) (consputc BACKSPACE) s = Ok () s'" "typed s s'"
      by (rule erase[OF assms(1,2) 3(2)])
    then show ?thesis using 3 by (intro exI[of _ s']) (auto simp: consoleintr_char_def ctrl_def)
  next
    case 4
    then show ?thesis using refl by (intro exI[of _ s]) (auto simp: consoleintr_char_def ctrl_def)
  next
    case 5
    obtain s' where "consoleintr_char c s = Ok () s'" "typed s s'" by (rule enter[OF assms 5(6,5,1-4)])
    then show ?thesis by blast
  next
    case 6
    then show ?thesis using refl by (intro exI[of _ s]) (auto simp: consoleintr_char_def)
  qed (use refl in \<open>simp add: consoleintr_char_def\<close>)
qed

lemma consoleintr_chars_typed:
  assumes "input_ok s" "crt_pos s < 24 * 80" "LPtable \<notin> klocks s"
  shows "\<exists>s'. kfor cs consoleintr_char s = Ok () s' \<and> typed s s'"
  using assms
proof (induction cs arbitrary: s)
  case Nil
  then show ?case using typed_refl by auto
next
  case (Cons c cs)
  obtain s1 where 1: "consoleintr_char c s = Ok () s1" "typed s s1" using consoleintr_char_typed[OF Cons.prems] by blast
  then obtain s2 where "kfor cs consoleintr_char s1 = Ok () s2" "typed s1 s2" using Cons.IH[of s1] Cons.prems(3) by (auto simp: typed_def)
  with 1 show ?case using typed_trans[OF 1(2)] by auto
qed

text \<open>Characters of a line: neither a control character that edits nor one that ends the line.\<close>

definition plain :: "nat \<Rightarrow> bool" where
  "plain c \<longleftrightarrow> c \<notin> {0, 10, 13, 0x7f} \<and> c \<notin> ctrl ` {CHR ''P'', CHR ''U'', CHR ''H'', CHR ''D''}"

lemma type_line:
  assumes "input_ok s" "crt_pos s < 24 * 80" "LPtable \<notin> klocks s" "\<forall>c\<in>set cs. plain c"
    "unat (input_e s - input_r s) + length cs < INPUT_BUF"
  shows "\<exists>s'. kfor cs consoleintr_char s = Ok () s' \<and> typed s s' \<and> edited s' = edited s @ map of_nat cs \<and> committed s' = committed s"
  using assms
proof (induction cs arbitrary: s)
  case Nil
  then show ?case using typed_refl by auto
next
  case (Cons c cs)
  have c: "c \<noteq> 0" "c \<noteq> ctrl (CHR ''P'')" "c \<noteq> ctrl (CHR ''U'')" "c \<noteq> ctrl (CHR ''H'')" "c \<noteq> 0x7f" "c \<noteq> 13" "c \<noteq> 10" "c \<noteq> ctrl (CHR ''D'')"
    using Cons.prems(4) by (auto simp: plain_def)
  have room: "unat (input_e s - input_r s) < INPUT_BUF" using Cons.prems(5) by simp
  obtain s1 where 1: "consoleintr_char c s = Ok () s1" "typed s s1" "edited s1 = edited s @ [of_nat (if c = 13 then 10 else c)]"
    "committed s1 = (if (if c = 13 then 10 else c) = 10 \<or> (if c = 13 then 10 else c) = ctrl (CHR ''D'') \<or> input_e s + 1 = input_r s + of_nat INPUT_BUF
       then edited s1 else committed s)" by (rule enter[OF Cons.prems(1-3) room c(1-5)])
  have "input_e s + 1 \<noteq> input_r s + of_nat INPUT_BUF"
  proof
    assume "input_e s + 1 = input_r s + of_nat INPUT_BUF"
    then have "input_e s + 1 - input_r s = of_nat INPUT_BUF" by simp
    then have "Suc (unat (input_e s - input_r s)) = INPUT_BUF" using ci.step[OF room] by (simp add: INPUT_BUF_def)
    then show False using Cons.prems(5) by simp
  qed
  then have k: "committed s1 = committed s" "edited s1 = edited s @ [of_nat c]" using 1(3,4) c(6-8) by simp_all
  have "length (edited s1) = Suc (length (edited s))" by (simp add: k(2))
  then have "unat (input_e s1 - input_r s1) + length cs < INPUT_BUF" using Cons.prems(5) by (simp add: edited_def)
  then obtain s2 where "kfor cs consoleintr_char s1 = Ok () s2" "typed s1 s2" "edited s2 = edited s1 @ map of_nat cs" "committed s2 = committed s1"
    using Cons.IH[of s1] Cons.prems(3,4) 1(2) by (auto simp: typed_def)
  with 1 k show ?case using typed_trans[OF 1(2)] by auto
qed

subsection \<open>Properties\<close>

text \<open>C21. The display. Whatever characters, newlines and backspaces are put on the console, the cursor stays within
  the 24 lines of 80 columns: no character is stored outside them and \<^verbatim>\<open>cgaputc\<close> never panics.\<close>

theorem console_stays_on_screen:
  assumes "crt_pos s < 24 * 80"
  shows "\<exists>s'. kfor cs consputc s = Ok () s' \<and> crt_pos s' < 24 * 80 \<and> (\<forall>i. 24 * 80 \<le> i \<longrightarrow> crt s' i = crt s i)"
  using screen_op_for[of consputc cs] screen_op_consputc assms unfolding screen_op_def on_screen_def by blast

text \<open>C8. Console input. The interrupt handler keeps the ring of input characters consistent whatever keys arrive, and only
  ever extends the committed part that readers take: editing keys cannot reach it. A line of plain characters that fits the buffer, followed
  by the return key, is committed as typed, after what was being edited, with a newline.\<close>

theorem consoleintr_commits_lines:
  assumes "input_ok s" "crt_pos s < 24 * 80" "klocks s = {}"
  shows "(\<exists>s'. consoleintr cs s = Ok () s' \<and> input_ok s' \<and> input_r s' = input_r s \<and> (\<exists>xs. committed s' = committed s @ xs))
    \<and> ((\<forall>c\<in>set line. plain c) \<and> unat (input_e s - input_r s) + length line < INPUT_BUF \<longrightarrow>
        (\<exists>s'. consoleintr (line @ [13]) s = Ok () s' \<and> committed s' = edited s @ map of_nat line @ [10]))"
proof (intro conjI impI)
  let ?s = "s\<lparr>klocks := {LCons}\<rparr>"
  have acq: "acquire LCons s = Ok () ?s" using assms(3) by simp
  have p: "input_ok ?s" "crt_pos ?s < 24 * 80" "LPtable \<notin> klocks ?s" "committed ?s = committed s" "edited ?s = edited s"
    using assms by (simp_all add: input_ok_def committed_def edited_def)
  have rel: "release LCons u = Ok () (u\<lparr>klocks := {}\<rparr>)" if "klocks u = {LCons}" for u :: "'a kernel_scheme" using that by simp
  obtain s1 where 1: "kfor cs consoleintr_char ?s = Ok () s1" "typed ?s s1" using consoleintr_chars_typed[OF p(1-3)] by blast
  have t1: "klocks s1 = {LCons}" "input_ok s1" "input_r s1 = input_r s" using 1(2) by (simp_all add: typed_def)
  obtain xs where xs: "committed s1 = committed s @ xs" using 1(2) p(4) unfolding typed_def by metis
  have "consoleintr cs s = Ok () (s1\<lparr>klocks := {}\<rparr>)" unfolding consoleintr_def using acq 1(1) rel[OF t1(1)] by simp
  moreover have "input_ok (s1\<lparr>klocks := {}\<rparr>)" "input_r (s1\<lparr>klocks := {}\<rparr>) = input_r s" "committed (s1\<lparr>klocks := {}\<rparr>) = committed s @ xs"
    using t1(2,3) xs by (simp_all add: input_ok_def committed_def)
  ultimately show "\<exists>s'. consoleintr cs s = Ok () s' \<and> input_ok s' \<and> input_r s' = input_r s \<and> (\<exists>xs. committed s' = committed s @ xs)"
    by blast
  assume l: "(\<forall>c\<in>set line. plain c) \<and> unat (input_e s - input_r s) + length line < INPUT_BUF"
  obtain s2 where 2: "kfor line consoleintr_char ?s = Ok () s2" "typed ?s s2" "edited s2 = edited s @ map of_nat line" "committed s2 = committed ?s"
    using type_line[OF p(1-3), of line] l p(5) by auto
  have "length (edited s2) = length (edited s) + length line" by (simp add: 2(3))
  then have room: "unat (input_e s2 - input_r s2) < INPUT_BUF" using l by (simp add: edited_def)
  have q: "input_ok s2" "crt_pos s2 < 24 * 80" "LPtable \<notin> klocks s2" using 2(2) by (auto simp: typed_def)
  have n: "(13 :: nat) \<noteq> 0" "13 \<noteq> ctrl (CHR ''P'')" "13 \<noteq> ctrl (CHR ''U'')" "13 \<noteq> ctrl (CHR ''H'')" "(13 :: nat) \<noteq> 0x7f" by (simp_all add: ctrl_def)
  obtain s3 where 3: "consoleintr_char 13 s2 = Ok () s3" "typed s2 s3" "edited s3 = edited s2 @ [of_nat (if (13 :: nat) = 13 then 10 else 13)]"
    "committed s3 = (if (if (13 :: nat) = 13 then 10 else 13) = (10 :: nat) \<or> (if (13 :: nat) = 13 then 10 else 13) = ctrl (CHR ''D'')
       \<or> input_e s2 + 1 = input_r s2 + of_nat INPUT_BUF then edited s3 else committed s2)" by (rule enter[OF q room n])
  have k3: "klocks s3 = {LCons}" using 2(2) 3(2) by (simp add: typed_def)
  have "consoleintr (line @ [13]) s = Ok () (s3\<lparr>klocks := {}\<rparr>)" unfolding consoleintr_def kfor_append using acq 2(1) 3(1) rel[OF k3] by simp
  moreover have "committed (s3\<lparr>klocks := {}\<rparr>) = edited s @ map of_nat line @ [10]" using 2(3) 3(3,4) by (simp add: committed_def)
  ultimately show "\<exists>s'. consoleintr (line @ [13]) s = Ok () s' \<and> committed s' = edited s @ map of_nat line @ [10]" by blast
qed

text \<open>Reading a number back.\<close>

definition digval :: "char \<Rightarrow> nat" where
  "digval c = length (takeWhile (\<lambda>d. d \<noteq> c) ''0123456789abcdef'')"

definition numval :: "nat \<Rightarrow> string \<Rightarrow> nat" where
  "numval base cs = foldl (\<lambda>n c. n * base + digval c) 0 cs"

lemma digval_nth: "k < 16 \<Longrightarrow> digval (''0123456789abcdef'' ! k) = k"
proof -
  assume "k < 16"
  then have "k \<in> set [0..<16]" by simp
  moreover have "\<forall>k\<in>set [0..<16]. digval (''0123456789abcdef'' ! k) = k" by code_simp
  ultimately show ?thesis by blast
qed

lemma numval_digits:
  assumes "1 < base" "base \<le> 16"
  shows "numval base (rev (digits_rev base x)) = x"
proof (induction x rule: less_induct)
  case (less x)
  have m: "digval (''0123456789abcdef'' ! (x mod base)) = x mod base"
    using assms mod_less_divisor[of base x] by (intro digval_nth) linarith
  show ?case
  proof (cases "x div base = 0")
    case True
    then have "x mod base = x" using assms(1) by (simp add: div_eq_0_iff)
    then show ?thesis using True m assms(1) by (simp add: digits_rev.simps[of base x] numval_def)
  next
    case False
    then have "x div base < x" using assms(1) by (auto intro!: div_less_dividend intro: gr0I)
    then have "numval base (rev (digits_rev base (x div base))) = x div base" by (rule less)
    then show ?thesis using False m assms(1) by (simp add: digits_rev.simps[of base x] numval_def)
  qed
qed

lemma length_digits:
  assumes "1 < base" "x < base ^ k" "0 < k"
  shows "length (digits_rev base x) \<le> k"
  using assms(2,3)
proof (induction k arbitrary: x)
  case (Suc k)
  show ?case
  proof (cases "x div base = 0")
    case True
    then show ?thesis by (simp add: digits_rev.simps[of base x])
  next
    case False
    then have "x div base < base ^ k" "0 < k" using Suc.prems assms(1) by (auto simp: less_mult_imp_div_less mult.commute intro: gr0I)
    then show ?thesis using Suc.IH[of "x div base"] by (simp add: digits_rev.simps[of base x])
  qed
qed simp

lemma neg_int_val: "sint (x :: u32) < 0 \<Longrightarrow> int (unat (- x)) = - sint x"
proof -
  assume h: "sint x < 0"
  then have s: "sint x = uint x - 2 ^ 32" using sint_u32[of x] by simp
  have "0 < uint x" using h uint_ge_0[of x] by (cases "x = 0") (auto simp: less_le)
  moreover have "uint x < 2 ^ 32" using uint_bounded[of x] by simp
  ultimately have "uint (- x) = 2 ^ 32 - uint x" by (auto simp: uint_word_ariths(4) zmod_zminus1_eq_if)
  then show ?thesis using s by simp
qed

text \<open>C36. Printing numbers. The digits that \<^verbatim>\<open>printint\<close> prints read back as the number, in both bases of the console's \<^verbatim>\<open>cprintf\<close>,
  with the sign for a signed number (the smallest one included), and they fit its buffer of 16 characters.\<close>

theorem printint_reads_back:
  assumes "base = 10 \<or> base = 16"
  shows "numval base (printint xx base False) = unat xx
    \<and> (if sint xx < 0 then \<exists>ds. printint xx base True = CHR ''-'' # ds \<and> - int (numval base ds) = sint xx
       else int (numval base (printint xx base True)) = sint xx)
    \<and> length (printint xx base sign) \<le> 16"
proof (intro conjI)
  have b: "1 < base" "base \<le> 16" "10 \<le> base" using assms by auto
  show "numval base (printint xx base False) = unat xx" using numval_digits[OF b(1,2)] by (simp add: printint_def)
  have "(2 ^ 32 :: nat) \<le> 10 ^ 15" by simp
  also have "\<dots> \<le> base ^ 15" using b(3) by (rule power_mono) simp
  finally have len: "length (digits_rev base (unat (y :: u32))) \<le> 15" for y
    using length_digits[OF b(1), of "unat y" 15] unat_u32[of y] by simp
  show "length (printint xx base sign) \<le> 16" using len[of xx] len[of "- xx"] by (simp add: printint_def Let_def)
  have p: "int (unat (- xx)) = - sint xx" if "sint xx < 0" using that by (rule neg_int_val)
  have q: "int (unat xx) = sint xx" if "\<not> sint xx < 0" using that using sint_u32[of xx] by simp
  show "if sint xx < 0 then \<exists>ds. printint xx base True = CHR ''-'' # ds \<and> - int (numval base ds) = sint xx
       else int (numval base (printint xx base True)) = sint xx"
    using p q by (simp add: printint_def Let_def numval_digits[OF b(1,2)])
qed

theorem console_stays_on_screen_witness:
  "\<exists>s'. kfor [65, 10, BACKSPACE] consputc (sample_kernel\<lparr>crt_pos := 1919\<rparr>) = Ok () s' \<and> crt_pos s' < 24 * 80"
  using console_stays_on_screen[of "sample_kernel\<lparr>crt_pos := 1919\<rparr>" "[65, 10, BACKSPACE]"] by (auto simp: sample_kernel_def)

theorem consoleintr_commits_lines_witness:
  "\<exists>s'. consoleintr ([104, 105] @ [13]) sample_kernel = Ok () s' \<and> committed s' = [104, 105, 10]"
proof -
  have "input_ok sample_kernel" "crt_pos sample_kernel < 24 * 80" "klocks sample_kernel = {}" "edited sample_kernel = []"
    "\<forall>c\<in>set [104, 105]. plain c" "unat (input_e sample_kernel - input_r sample_kernel) + length [104 :: nat, 105] < INPUT_BUF"
    by (simp_all add: input_ok_def sample_kernel_def edited_def ring_contents_def plain_def ctrl_def INPUT_BUF_def)
  then show ?thesis using consoleintr_commits_lines[of sample_kernel "[]" "[104, 105]"] by simp
qed

theorem printint_reads_back_witness:
  "numval 10 (printint 4711 10 False) = 4711 \<and> printint 0xFFFFFFFF 10 True = ''-1'' \<and> printint 255 16 False = ''ff''"
proof -
  have "printint 0xFFFFFFFF 10 True = ''-1''" "printint 255 16 False = ''ff''" by (simp_all add: printint_def Let_def digits_rev.simps)
  then show ?thesis using printint_reads_back[of 10 4711 False] by simp
qed

end
