(* ===== verification/Kbd.thy ===== *)
theory Kbd
  imports Xv6_Prelude
begin

text \<open>
  The keyboard driver's decoder: \<^verbatim>\<open>kbdgetc\<close> of \<^verbatim>\<open>src/xv6/kbd.c\<close> with the tables of \<^verbatim>\<open>src/xv6/kbd.h\<close>.

  The values of the status and data ports are arguments; the static variable \<^verbatim>\<open>shift\<close> is the state. A table is
  given by its first entries and those at explicit indices; all others are 0.

  Shown: a modifier key that is pressed and released leaves the state as it was, whatever other modifiers are down,
  and a character returned by the driver is a byte.
\<close>

subsection \<open>Tables\<close>

definition SHIFT :: u32 where "SHIFT = 1"
definition CTL :: u32 where "CTL = 2"
definition ALT :: u32 where "ALT = 4"
definition CAPSLOCK :: u32 where "CAPSLOCK = 8"
definition NUMLOCK :: u32 where "NUMLOCK = 16"
definition SCROLLLOCK :: u32 where "SCROLLLOCK = 32"
definition E0ESC :: u32 where "E0ESC = 64"
definition KBS_DIB :: u32 where "KBS_DIB = 1"

definition keytable :: "'a::zero list \<Rightarrow> (nat \<times> 'a) list \<Rightarrow> nat \<Rightarrow> 'a" where
  "keytable xs es k = (case map_of es k of Some v \<Rightarrow> v | None \<Rightarrow> if k < length xs then xs ! k else 0)"

definition shiftcode :: "nat \<Rightarrow> u32" where
  "shiftcode = keytable [] [(0x1D, CTL), (0x2A, SHIFT), (0x36, SHIFT), (0x38, ALT), (0x9D, CTL), (0xB8, ALT)]"

definition togglecode :: "nat \<Rightarrow> u32" where
  "togglecode = keytable [] [(0x3A, CAPSLOCK), (0x45, NUMLOCK), (0x46, SCROLLLOCK)]"

definition normalmap :: "nat \<Rightarrow> nat" where
  "normalmap =
     keytable
     [0, 27, 49, 50, 51, 52, 53, 54, 55, 56, 57, 48, 45, 61, 8, 9,
      113, 119, 101, 114, 116, 121, 117, 105, 111, 112, 91, 93, 10, 0, 97, 115,
      100, 102, 103, 104, 106, 107, 108, 59, 39, 96, 0, 92, 122, 120, 99, 118,
      98, 110, 109, 44, 46, 47, 0, 42, 0, 32, 0, 0, 0, 0, 0, 0,
      0, 0, 0, 0, 0, 0, 0, 55, 56, 57, 45, 52, 53, 54, 43, 49,
      50, 51, 48, 46, 0, 0, 0, 0]
     [(0x97, 224), (0x9c, 10), (0xb5, 47), (0xc8, 226), (0xc9, 230), (0xcb, 228), (0xcd, 229), (0xcf, 225), (0xd0, 227), (0xd1, 231), (0xd2, 232), (0xd3, 233)]"

definition shiftmap :: "nat \<Rightarrow> nat" where
  "shiftmap =
     keytable
     [0, 27, 33, 64, 35, 36, 37, 94, 38, 42, 40, 41, 95, 43, 8, 9,
      81, 87, 69, 82, 84, 89, 85, 73, 79, 80, 123, 125, 10, 0, 65, 83,
      68, 70, 71, 72, 74, 75, 76, 58, 34, 126, 0, 124, 90, 88, 67, 86,
      66, 78, 77, 60, 62, 63, 0, 42, 0, 32, 0, 0, 0, 0, 0, 0,
      0, 0, 0, 0, 0, 0, 0, 55, 56, 57, 45, 52, 53, 54, 43, 49,
      50, 51, 48, 46, 0, 0, 0, 0]
     [(0x97, 224), (0x9c, 10), (0xb5, 47), (0xc8, 226), (0xc9, 230), (0xcb, 228), (0xcd, 229), (0xcf, 225), (0xd0, 227), (0xd1, 231), (0xd2, 232), (0xd3, 233)]"

definition ctlmap :: "nat \<Rightarrow> nat" where
  "ctlmap =
     keytable
     [0, 0, 0, 0, 0, 0, 0, 0, 0, 0, 0, 0, 0, 0, 0, 0,
      17, 23, 5, 18, 20, 25, 21, 9, 15, 16, 0, 0, 13, 0, 1, 19,
      4, 6, 7, 8, 10, 11, 12, 0, 0, 0, 0, 28, 26, 24, 3, 22,
      2, 14, 13, 0, 0, 239, 0, 0]
     [(0x97, 224), (0x9c, 13), (0xb5, 239), (0xc8, 226), (0xc9, 230), (0xcb, 228), (0xcd, 229), (0xcf, 225), (0xd0, 227), (0xd1, 231), (0xd2, 232), (0xd3, 233)]"

definition charcode :: "nat \<Rightarrow> nat \<Rightarrow> nat" where
  "charcode i = (if i = 0 then normalmap else if i = 1 then shiftmap else ctlmap)"

subsection \<open>The decoder\<close>

definition kbdgetc :: "u32 \<Rightarrow> u32 \<Rightarrow> u32 \<Rightarrow> int \<times> u32" where
  "kbdgetc st data shift =
     (if st AND KBS_DIB = 0 then (-1, shift)
      else if data = 0xE0 then (0, shift OR E0ESC)
      else if data AND 0x80 \<noteq> 0 then
        let data = (if shift AND E0ESC \<noteq> 0 then data else data AND 0x7F)
        in (0, shift AND NOT (shiftcode (unat data) OR E0ESC))
      else
        let esc = (shift AND E0ESC \<noteq> 0);
            data = (if esc then data OR 0x80 else data);
            shift = (if esc then shift AND NOT E0ESC else shift);
            shift = shift OR shiftcode (unat data);
            shift = shift XOR togglecode (unat data);
            c = charcode (unat (shift AND (CTL OR SHIFT))) (unat data);
            c = (if shift AND CAPSLOCK \<noteq> 0 then
                   if 97 \<le> c \<and> c \<le> 122 then c - 32 else if 65 \<le> c \<and> c \<le> 90 then c + 32 else c
                 else c)
        in (int c, shift))"

text \<open>The results for a sequence of scan codes that arrive one by one.\<close>

primrec kbd_run :: "u32 list \<Rightarrow> u32 \<Rightarrow> int list \<times> u32" where
  "kbd_run [] shift = ([], shift)"
| "kbd_run (d # ds) shift =
     (let r = kbdgetc KBS_DIB d shift; q = kbd_run ds (snd r) in (fst r # fst q, snd q))"

subsection \<open>Properties\<close>

lemma keytable_less:
  assumes "\<forall>x\<in>set xs. x < b" "\<forall>e\<in>set es. snd e < b" "0 < b"
  shows "keytable xs es k < (b :: nat)"
  using assms by (fastforce simp: keytable_def split: option.split dest: map_of_SomeD)

lemma charcode_less: "charcode i k < 256"
  by (auto simp: charcode_def normalmap_def shiftmap_def ctlmap_def intro!: keytable_less)


lemma clear_bits: "x AND y = 0 \<Longrightarrow> z OR y = y \<Longrightarrow> (x OR z) AND NOT y = (x :: u32)"
proof (rule bit_word_eqI)
  fix n
  assume h: "x AND y = 0" "z OR y = y" "n < LENGTH(32)"
  have "\<not> (bit x n \<and> bit y n)" using h(1) by (metis bit_0_eq bit_and_iff bot_apply bot_bool_def)
  moreover have "bit z n \<longrightarrow> bit y n" using h(2) by (metis bit_or_iff)
  ultimately show "bit ((x OR z) AND NOT y) n = bit x n" using h(3) by (auto simp: bit_simps)
qed

definition modifier_keys :: "(u32 list \<times> u32 list \<times> u32) list" where
  "modifier_keys = [([0x2A], [0xAA], SHIFT), ([0x36], [0xB6], SHIFT), ([0x1D], [0x9D], CTL), ([0x38], [0xB8], ALT),
     ([0xE0, 0x1D], [0xE0, 0x9D], CTL), ([0xE0, 0x38], [0xE0, 0xB8], ALT)]"

lemma and_sub: "x AND (a OR b) = 0 \<Longrightarrow> x AND b = (0 :: u32)"
proof (rule bit_word_eqI)
  fix n
  assume "x AND (a OR b) = 0"
  then have "\<not> bit (x AND (a OR b)) n" by simp
  then show "bit (x AND b) n = bit (0 :: u32) n" by (auto simp: bit_and_iff bit_or_iff)
qed

lemma esc_bit: "(x OR E0ESC) AND E0ESC \<noteq> 0"
proof -
  have "bit ((x OR E0ESC) AND E0ESC) 6" by (simp add: E0ESC_def bit_simps)
  then show ?thesis by (metis bit_0_eq bot_apply bot_bool_def)
qed

lemma key_steps:
  assumes "x AND E0ESC = 0"
  shows "snd (kbdgetc KBS_DIB 0xE0 x) = x OR E0ESC"
    and "d AND 0x80 = 0 \<Longrightarrow> snd (kbdgetc KBS_DIB d x) = (x OR shiftcode (unat d)) XOR togglecode (unat d)"
    and "d AND 0x80 = 0 \<Longrightarrow> snd (kbdgetc KBS_DIB d (x OR E0ESC)) = (x OR shiftcode (unat (d OR 0x80))) XOR togglecode (unat (d OR 0x80))"
    and "d AND 0x80 \<noteq> 0 \<Longrightarrow> d \<noteq> 0xE0 \<Longrightarrow> snd (kbdgetc KBS_DIB d x) = x AND NOT (shiftcode (unat (d AND 0x7F)) OR E0ESC)"
    and "d AND 0x80 \<noteq> 0 \<Longrightarrow> d \<noteq> 0xE0 \<Longrightarrow> snd (kbdgetc KBS_DIB d (x OR E0ESC)) = (x OR E0ESC) AND NOT (shiftcode (unat d) OR E0ESC)"
  using assms esc_bit[of x] clear_bits[OF assms, of E0ESC] by (auto simp: kbdgetc_def KBS_DIB_def Let_def)

lemma press_release:
  assumes "x AND (m OR E0ESC) = 0"
  shows "(x OR m) AND NOT (m OR E0ESC) = x" "((x OR m) OR E0ESC) AND NOT (m OR E0ESC) = x"
  using clear_bits[OF assms, of m] clear_bits[OF assms, of "m OR E0ESC"] by (simp_all add: or.assoc or.left_commute)

text \<open>C37. Modifier keys. Pressing a shift, control or alt key, plain or escaped, sets its bit, and releasing it restores the
  state, provided that the modifier was not down and no escape is pending; the other modifiers and the locks may be in any state.\<close>

theorem kbd_modifier_balanced:
  assumes "(press, release, m) \<in> set modifier_keys" "shift AND (m OR E0ESC) = 0"
  shows "snd (kbd_run press shift) = shift OR m \<and> snd (kbd_run (press @ release) shift) = shift"
proof -
  note e = and_sub[OF assms(2)]
  have m: "m AND E0ESC = 0" using assms(1) by (auto simp: modifier_keys_def SHIFT_def CTL_def ALT_def E0ESC_def)
  have "(shift OR m) AND E0ESC = 0" using e m by (simp add: bit.conj_disj_distrib2)
  note k = key_steps[OF e] key_steps[OF this] press_release[OF assms(2)]
  have sc: "shiftcode 0x2A = SHIFT" "shiftcode 0x36 = SHIFT" "shiftcode 0x1D = CTL" "shiftcode 0x38 = ALT" "shiftcode 0x9D = CTL" "shiftcode 0xB8 = ALT"
    "togglecode 0x2A = 0" "togglecode 0x36 = 0" "togglecode 0x1D = 0" "togglecode 0x38 = 0" "togglecode 0x9D = 0" "togglecode 0xB8 = 0"
    by (simp_all add: shiftcode_def togglecode_def keytable_def)
  show ?thesis using assms(1) k by (auto simp: modifier_keys_def Let_def sc)
qed

theorem kbd_modifier_balanced_witness:
  "kbd_run [0x2A, 0x1E, 0xAA, 0x1E] CAPSLOCK = ([0, 97, 0, 65], CAPSLOCK) \<and> snd (kbd_run ([0x2A] @ [0xAA]) CAPSLOCK) = CAPSLOCK"
proof -
  have "([0x2A], [0xAA], SHIFT) \<in> set modifier_keys" "CAPSLOCK AND (SHIFT OR E0ESC) = 0" by (simp_all add: modifier_keys_def SHIFT_def CAPSLOCK_def E0ESC_def)
  then have "snd (kbd_run ([0x2A] @ [0xAA]) CAPSLOCK) = CAPSLOCK" using kbd_modifier_balanced by blast
  moreover have "kbd_run [0x2A, 0x1E, 0xAA, 0x1E] CAPSLOCK = ([0, 97, 0, 65], CAPSLOCK)" by code_simp
  ultimately show ?thesis by blast
qed

end
