(* ===== verification/File.thy ===== *)
theory File
  imports Console
begin

text \<open>
  Open files and pipes: \<^verbatim>\<open>src/xv6/file.c\<close>, \<^verbatim>\<open>src/xv6/file.h\<close> and \<^verbatim>\<open>src/xv6/pipe.c\<close>.

  File \<open>f\<close> of \<^verbatim>\<open>ftable.file\<close> is index \<open>f\<close>. A read returns the bytes that its caller stores at the user's address; a
  write is given the user's bytes. A loop that may sleep is a function of its own, to which the sleeper comes back.

  Shown: a pipe is a bounded first-in first-out queue, across the wrap-around of its indices; what is written is
  read, in order and once; reference counts of files are balanced.
\<close>

definition PIPESIZE :: nat where "PIPESIZE = 512"

definition upd_file :: "nat \<Rightarrow> (kfile \<Rightarrow> kfile) \<Rightarrow> 'a kernel_scheme \<Rightarrow> 'a kernel_scheme" where
  "upd_file f g s = s\<lparr>ftable := (ftable s)(f := g (ftable s f))\<rparr>"

definition upd_pipe :: "u32 \<Rightarrow> (pipe \<Rightarrow> pipe) \<Rightarrow> 'a kernel_scheme \<Rightarrow> 'a kernel_scheme" where
  "upd_pipe p g s = s\<lparr>pipes := (pipes s)(unat p := g (pipes s (unat p)))\<rparr>"

abbreviation pipe_of :: "u32 \<Rightarrow> (pipe, 'a kernel_scheme) kop" where
  "pipe_of p \<equiv> kget (\<lambda>s. pipes s (unat p))"

definition mykilled :: "(bool, 'a ksched_scheme) kop" where
  "mykilled = (\<lambda>s. case curproc s of None \<Rightarrow> Panic ''trap'' | Some p \<Rightarrow> Ok (p_killed (procs s p)) s)"

subsection \<open>Pipes\<close>

definition pipeclose :: "u32 \<Rightarrow> bool \<Rightarrow> (unit, 'a kernel_scheme) kop" where
  "pipeclose p writable =
     kthen (acquire (LPipe (unat p))) (
     kthen (if writable then
              kthen (kmod (upd_pipe p (pi_writeopen_update (\<lambda>_. False)))) (wakeup (ChPipeRead (unat p)))
            else
              kthen (kmod (upd_pipe p (pi_readopen_update (\<lambda>_. False)))) (wakeup (ChPipeWrite (unat p)))) (
     kbind (pipe_of p) (\<lambda>x.
     if \<not> pi_readopen x \<and> \<not> pi_writeopen x then kthen (release (LPipe (unat p))) (kfree p)
     else release (LPipe (unat p)))))"

text \<open>The bytes from \<open>addr i\<close> on, \<open>k\<close> of them.\<close>

primrec pipewrite_loop :: "nat \<Rightarrow> u32 \<Rightarrow> bytes \<Rightarrow> nat \<Rightarrow> int \<Rightarrow> (int, 'a kernel_scheme) kop" where
  "pipewrite_loop 0 p addr i n =
     kthen (wakeup (ChPipeRead (unat p))) (kthen (release (LPipe (unat p))) (kret n))"
| "pipewrite_loop (Suc k) p addr i n =
     kbind (pipe_of p) (\<lambda>x.
     if pi_nwrite x = pi_nread x + of_nat PIPESIZE then
       kbind (if \<not> pi_readopen x then kret True else mykilled) (\<lambda>stop.
       if stop then kthen (release (LPipe (unat p))) (kret (-1))
       else kthen (wakeup (ChPipeRead (unat p))) (
            kthen (sleep (ChPipeWrite (unat p)) (Some (LPipe (unat p)))) (kret (-1))))
     else
       kthen (kmod (upd_pipe p (\<lambda>x. x\<lparr>pi_data := (pi_data x)(unat (pi_nwrite x) mod PIPESIZE := addr i),
                                      pi_nwrite := pi_nwrite x + 1\<rparr>)))
         (pipewrite_loop k p addr (i + 1) n))"

definition pipewrite :: "u32 \<Rightarrow> bytes \<Rightarrow> int \<Rightarrow> (int, 'a kernel_scheme) kop" where
  "pipewrite p addr n = kthen (acquire (LPipe (unat p))) (pipewrite_loop (nat n) p addr 0 n)"

primrec piperead_copy :: "nat \<Rightarrow> u32 \<Rightarrow> u8 list \<Rightarrow> (int \<times> u8 list, 'a kernel_scheme) kop" where
  "piperead_copy 0 p got =
     kthen (wakeup (ChPipeWrite (unat p))) (kthen (release (LPipe (unat p))) (kret (int (length got), got)))"
| "piperead_copy (Suc k) p got =
     kbind (pipe_of p) (\<lambda>x.
     if pi_nread x = pi_nwrite x then
       kthen (wakeup (ChPipeWrite (unat p))) (kthen (release (LPipe (unat p))) (kret (int (length got), got)))
     else
       kthen (kmod (upd_pipe p (\<lambda>x. x\<lparr>pi_nread := pi_nread x + 1\<rparr>)))
         (piperead_copy k p (got @ [pi_data x (unat (pi_nread x) mod PIPESIZE)])))"

definition piperead_loop :: "u32 \<Rightarrow> int \<Rightarrow> (int \<times> u8 list, 'a kernel_scheme) kop" where
  "piperead_loop p n =
     kbind (pipe_of p) (\<lambda>x.
     if pi_nread x = pi_nwrite x \<and> pi_writeopen x then
       kbind mykilled (\<lambda>k.
       if k then kthen (release (LPipe (unat p))) (kret (-1, []))
       else kthen (sleep (ChPipeRead (unat p)) (Some (LPipe (unat p)))) (kret (-1, [])))
     else piperead_copy (nat n) p [])"

definition piperead :: "u32 \<Rightarrow> int \<Rightarrow> (int \<times> u8 list, 'a kernel_scheme) kop" where
  "piperead p n = kthen (acquire (LPipe (unat p))) (piperead_loop p n)"

subsection \<open>Files\<close>

definition filealloc :: "(nat option, 'a kernel_scheme) kop" where
  "filealloc =
     kthen (acquire LFtable) (
     kbind (kget ftable) (\<lambda>F.
     case List.find (\<lambda>f. f_ref (F f) = 0) [0..<NFILE] of
       Some f \<Rightarrow>
         kthen (kmod (upd_file f (f_ref_update (\<lambda>_. 1)))) (
         kthen (release LFtable) (kret (Some f)))
     | None \<Rightarrow> kthen (release LFtable) (kret None)))"

definition filedup :: "nat \<Rightarrow> (nat, 'a kernel_scheme) kop" where
  "filedup f =
     kthen (acquire LFtable) (
     kbind (kget (\<lambda>s. f_ref (ftable s f))) (\<lambda>r.
     if r < 1 then kpanic ''filedup'' else
     kthen (kmod (upd_file f (f_ref_update (\<lambda>r. r + 1)))) (
     kthen (release LFtable) (kret f))))"

definition fileclose :: "nat \<Rightarrow> (unit, 'a kernel_scheme) kop" where
  "fileclose f =
     kthen (acquire LFtable) (
     kbind (kget (\<lambda>s. f_ref (ftable s f))) (\<lambda>r.
     if r < 1 then kpanic ''fileclose'' else
     kthen (kmod (upd_file f (f_ref_update (\<lambda>r. r - 1)))) (
     if 0 < r - 1 then release LFtable else
     kbind (kget (\<lambda>s. ftable s f)) (\<lambda>ff.
     kthen (kmod (upd_file f (\<lambda>x. x\<lparr>f_ref := 0, f_type := FD_NONE\<rparr>))) (
     kthen (release LFtable) (
     if f_type ff = FD_PIPE then pipeclose (f_pipe ff) (f_writable ff)
     else if f_type ff = FD_INODE then
       kthen begin_op (kthen (iput (f_ip ff)) end_op)
     else kret ()))))))"

text \<open>\<open>None\<close> is the null pointer of a file that could not be allocated; the page of the pipe is not allocated then.\<close>

definition pipealloc :: "((nat \<times> nat) option, 'a kernel_scheme) kop" where
  "pipealloc =
     kbind filealloc (\<lambda>f0. case f0 of
       None \<Rightarrow> kret None
     | Some f0 \<Rightarrow>
         kbind filealloc (\<lambda>f1. case f1 of
           None \<Rightarrow> kthen (fileclose f0) (kret None)
         | Some f1 \<Rightarrow>
             kbind kalloc (\<lambda>p.
             if p = 0 then kthen (fileclose f0) (kthen (fileclose f1) (kret None)) else
             kthen (kmod (upd_pipe p (\<lambda>x. x\<lparr>pi_readopen := True, pi_writeopen := True, pi_nwrite := 0, pi_nread := 0\<rparr>))) (
             kthen (kmod (upd_file f0 (\<lambda>x. x\<lparr>f_type := FD_PIPE, f_readable := True, f_writable := False, f_pipe := p\<rparr>))) (
             kthen (kmod (upd_file f1 (\<lambda>x. x\<lparr>f_type := FD_PIPE, f_readable := False, f_writable := True, f_pipe := p\<rparr>)))
               (kret (Some (f0, f1))))))))"

definition filestat :: "nat \<Rightarrow> (int \<times> stat option, 'a kernel_scheme) kop" where
  "filestat f =
     kbind (kget (\<lambda>s. ftable s f)) (\<lambda>x.
     if f_type x = FD_INODE then
       kthen (ilock (Some (f_ip x))) (
       kbind (stati (f_ip x)) (\<lambda>st.
       kthen (iunlock (Some (f_ip x))) (kret (0, Some st))))
     else kret (-1, None))"

definition fileread :: "nat \<Rightarrow> u32 \<Rightarrow> int \<Rightarrow> (int, 'a kernel_scheme) kop" where
  "fileread f addr n =
     kbind (kget (\<lambda>s. ftable s f)) (\<lambda>x.
     if \<not> f_readable x then kret (-1)
     else if f_type x = FD_PIPE then
       kbind (piperead (f_pipe x) n) (\<lambda>(r, bs). kthen (ustores addr bs) (kret r))
     else if f_type x = FD_INODE then
       kthen (ilock (Some (f_ip x))) (
       kbind (readi devsw (f_ip x) (f_off x) (of_int n)) (\<lambda>(r, bs).
       kthen (ustores addr bs) (
       kthen (if 0 < r then kmod (upd_file f (f_off_update (\<lambda>off. off + of_int r))) else kret ()) (
       kthen (iunlock (Some (f_ip x))) (kret r)))))
     else kpanic ''fileread'')"

text \<open>The loop of \<^verbatim>\<open>filewrite\<close>, which writes at most \<open>max\<close> bytes in a transaction. Each round writes at least one byte.\<close>

definition filewrite_max :: int where
  "filewrite_max = int ((MAXOPBLOCKS - 1 - 1 - 2) div 2 * 512)"

primrec filewrite_loop :: "nat \<Rightarrow> nat \<Rightarrow> u32 \<Rightarrow> int \<Rightarrow> int \<Rightarrow> (int, 'a kernel_scheme) kop" where
  "filewrite_loop 0 f addr i n = kret (if i = n then n else -1)"
| "filewrite_loop (Suc k) f addr i n =
     (if \<not> i < n then kret (if i = n then n else -1) else
      let n1 = min (n - i) filewrite_max in
      kthen begin_op (
      kbind (kget (\<lambda>s. ftable s f)) (\<lambda>x.
      kthen (ilock (Some (f_ip x))) (
      kbind (kget (\<lambda>s. (ubytes s (addr + of_int i), f_off (ftable s f)))) (\<lambda>(src, off).
      kbind (writei devsw (f_ip x) src off (of_int n1)) (\<lambda>r.
      kthen (if 0 < r then kmod (upd_file f (f_off_update (\<lambda>off. off + of_int r))) else kret ()) (
      kthen (iunlock (Some (f_ip x))) (
      kthen end_op (
      if r < 0 then kret (if i = n then n else -1)
      else if r \<noteq> n1 then kpanic ''short filewrite''
      else filewrite_loop k f addr (i + r) n)))))))))"

definition filewrite :: "nat \<Rightarrow> u32 \<Rightarrow> int \<Rightarrow> (int, 'a kernel_scheme) kop" where
  "filewrite f addr n =
     kbind (kget (\<lambda>s. ftable s f)) (\<lambda>x.
     if \<not> f_writable x then kret (-1)
     else if f_type x = FD_PIPE then
       kbind (kget (\<lambda>s. ubytes s addr)) (\<lambda>src. pipewrite (f_pipe x) src n)
     else if f_type x = FD_INODE then filewrite_loop (nat n) f addr 0 n
     else kpanic ''filewrite'')"

subsection \<open>Pipes are bounded queues\<close>

interpretation pq: ring PIPESIZE
  by unfold_locales (simp_all add: PIPESIZE_def)

definition pqueue :: "pipe \<Rightarrow> u8 list" where
  "pqueue x = ring_contents PIPESIZE (pi_data x) (pi_nread x) (pi_nwrite x)"

text \<open>The same pipe with other contents.\<close>

definition pipe_with :: "pipe \<Rightarrow> u8 list \<Rightarrow> pipe \<Rightarrow> bool" where
  "pipe_with x q y \<longleftrightarrow> pqueue y = q \<and> pi_readopen y = pi_readopen x \<and> pi_writeopen y = pi_writeopen x"

lemma pqueue_full: "pi_nwrite x = pi_nread x + of_nat PIPESIZE \<longleftrightarrow> length (pqueue x) = PIPESIZE"
proof
  assume "length (pqueue x) = PIPESIZE"
  then have "unat (pi_nwrite x - pi_nread x) = PIPESIZE" by (simp add: pqueue_def)
  moreover have "of_nat (unat (pi_nwrite x - pi_nread x)) = pi_nwrite x - pi_nread x" by simp
  ultimately have "pi_nwrite x - pi_nread x = of_nat PIPESIZE" by metis
  then show "pi_nwrite x = pi_nread x + of_nat PIPESIZE" by (simp add: algebra_simps)
qed (simp add: pqueue_def, simp add: PIPESIZE_def)

lemma pqueue_put:
  assumes "length (pqueue x) < PIPESIZE"
  shows "pipe_with x (pqueue x @ [b]) (x\<lparr>pi_data := (pi_data x)(unat (pi_nwrite x) mod PIPESIZE := b), pi_nwrite := pi_nwrite x + 1\<rparr>)"
  using assms pq.push[of "pi_nwrite x" "pi_nread x"] by (simp add: pipe_with_def pqueue_def)

lemma pqueue_get:
  assumes "pi_nread x \<noteq> pi_nwrite x"
  shows "pqueue x = pi_data x (unat (pi_nread x) mod PIPESIZE) # pqueue (x\<lparr>pi_nread := pi_nread x + 1\<rparr>)"
  using pq.pop[OF assms] by (simp add: pqueue_def)

lemma pqueue_empty: "pi_nread x = pi_nwrite x \<longleftrightarrow> pqueue x = []"
  unfolding pqueue_def pq.contents_Nil ..

lemma mykilled_apply [simp]: "curproc s = Some c \<Longrightarrow> mykilled s = Ok (p_killed (procs s c)) s"
  by (simp add: mykilled_def)

lemma pipewrite_loop_ok:
  assumes "klocks s = {LPipe (unat p)}" "curproc s = Some c" "length (pqueue (pipes s (unat p))) \<le> PIPESIZE"
  shows "\<exists>y. pipe_with (pipes s (unat p)) (take PIPESIZE (pqueue (pipes s (unat p)) @ map addr [i..<i + k])) y
    \<and> pipewrite_loop k p addr i n s =
      (let s1 = s\<lparr>pipes := (pipes s)(unat p := y)\<rparr>; s2 = s1\<lparr>procs := woken (ChPipeRead (unat p)) (procs s)\<rparr> in
       if length (pqueue (pipes s (unat p))) + k \<le> PIPESIZE then Ok n (s2\<lparr>klocks := {}\<rparr>)
       else if \<not> pi_readopen (pipes s (unat p)) \<or> p_killed (procs s c) then Ok (-1) (s1\<lparr>klocks := {}\<rparr>)
       else Blocked (asleep (ChPipeWrite (unat p)) c s2))"
  using assms
proof (induction k arbitrary: s i)
  case 0
  then show ?case
    by (intro exI[of _ "pipes s (unat p)"]) (auto simp: pipe_with_def Let_def)
next
  case (Suc k)
  let ?x = "pipes s (unat p)"
  show ?case
  proof (cases "length (pqueue ?x) = PIPESIZE")
    case True
    have "pipewrite_loop (Suc k) p addr i n s = (if \<not> pi_readopen ?x \<or> p_killed (procs s c) then Ok (-1) (s\<lparr>klocks := {}\<rparr>)
      else Blocked (asleep (ChPipeWrite (unat p)) c (s\<lparr>procs := woken (ChPipeRead (unat p)) (procs s)\<rparr>)))"
      using True Suc.prems by (auto simp: pqueue_full kthen_apply kbind_apply)
    then show ?thesis using True by (intro exI[of _ ?x]) (simp add: pipe_with_def Let_def)
  next
    case False
    then have lt: "length (pqueue ?x) < PIPESIZE" using Suc.prems(3) by simp
    define y where "y = ?x\<lparr>pi_data := (pi_data ?x)(unat (pi_nwrite ?x) mod PIPESIZE := addr i), pi_nwrite := pi_nwrite ?x + 1\<rparr>"
    define t where "t = s\<lparr>pipes := (pipes s)(unat p := y)\<rparr>"
    have y: "pipe_with ?x (pqueue ?x @ [addr i]) y" using pqueue_put[OF lt] by (simp add: y_def)
    have pt: "pipes t (unat p) = y" "klocks t = klocks s" "curproc t = curproc s" "procs t = procs s" by (simp_all add: t_def)
    have st: "pipewrite_loop (Suc k) p addr i n s = pipewrite_loop k p addr (i + 1) n t"
      using False by (simp add: pqueue_full upd_pipe_def t_def y_def)
    have l: "length (pqueue (pipes t (unat p))) \<le> PIPESIZE" using y lt by (simp add: pt pipe_with_def)
    have eq: "pqueue y @ map addr [i + 1..<i + 1 + k] = pqueue ?x @ map addr [i..<i + Suc k]"
      using y by (simp add: pipe_with_def upt_conv_Cons[of i "Suc (i + k)"] del: upt_Suc)
    have ln: "length (pqueue y) = Suc (length (pqueue ?x))" using y by (simp add: pipe_with_def)
    have ro: "pi_readopen y = pi_readopen ?x" "pi_writeopen y = pi_writeopen ?x" using y by (simp_all add: pipe_with_def)
    have t2: "t\<lparr>pipes := (pipes t)(unat p := z)\<rparr> = s\<lparr>pipes := (pipes s)(unat p := z)\<rparr>" for z by (simp add: t_def)
    obtain z where "pipe_with y (take PIPESIZE (pqueue y @ map addr [i + 1..<i + 1 + k])) z"
      "pipewrite_loop k p addr (i + 1) n t =
      (let s1 = s\<lparr>pipes := (pipes s)(unat p := z)\<rparr>; s2 = s1\<lparr>procs := woken (ChPipeRead (unat p)) (procs s)\<rparr> in
       if length (pqueue y) + k \<le> PIPESIZE then Ok n (s2\<lparr>klocks := {}\<rparr>)
       else if \<not> pi_readopen y \<or> p_killed (procs s c) then Ok (-1) (s1\<lparr>klocks := {}\<rparr>)
       else Blocked (asleep (ChPipeWrite (unat p)) c s2))"
      using Suc.IH[of t "i + 1"] Suc.prems(1,2) l unfolding pt t2 by auto
    then show ?thesis unfolding st eq ln Let_def using ro by (intro exI[of _ z]) (simp add: pipe_with_def fun_upd_def)
  qed
qed

lemma piperead_copy_ok:
  assumes "klocks s = {LPipe (unat p)}" "LPtable \<notin> klocks s"
  shows "\<exists>y. pipe_with (pipes s (unat p)) (drop k (pqueue (pipes s (unat p)))) y
    \<and> piperead_copy k p got s = Ok (int (length got + min k (length (pqueue (pipes s (unat p))))), got @ take k (pqueue (pipes s (unat p))))
        (s\<lparr>pipes := (pipes s)(unat p := y), procs := woken (ChPipeWrite (unat p)) (procs s), klocks := {}\<rparr>)"
  using assms
proof (induction k arbitrary: s got)
  case 0
  then show ?case by (intro exI[of _ "pipes s (unat p)"]) (simp add: pipe_with_def)
next
  case (Suc k)
  let ?x = "pipes s (unat p)"
  show ?case
  proof (cases "pi_nread ?x = pi_nwrite ?x")
    case True
    then have "pqueue ?x = []" by (simp add: pqueue_empty)
    then show ?thesis using Suc.prems True by (intro exI[of _ ?x]) (simp add: pipe_with_def)
  next
    case False
    define t where "t = s\<lparr>pipes := (pipes s)(unat p := ?x\<lparr>pi_nread := pi_nread ?x + 1\<rparr>)\<rparr>"
    define b where "b = pi_data ?x (unat (pi_nread ?x) mod PIPESIZE)"
    define q where "q = pqueue (pipes t (unat p))"
    have pq: "pqueue ?x = b # q" using pqueue_get[OF False] by (simp add: t_def b_def q_def)
    have t: "klocks t = {LPipe (unat p)}" "LPtable \<notin> klocks t" "procs t = procs s" using Suc.prems by (simp_all add: t_def)
    have pw: "pipe_with (pipes t (unat p)) r z \<longleftrightarrow> pipe_with ?x r z" for r z by (simp add: pipe_with_def t_def)
    have u: "t\<lparr>pipes := (pipes t)(unat p := z), procs := ps, klocks := {}\<rparr> = s\<lparr>pipes := (pipes s)(unat p := z), procs := ps, klocks := {}\<rparr>" for z ps
      by (simp add: t_def)
    obtain z where z: "pipe_with ?x (drop k q) z"
      "piperead_copy k p (got @ [b]) t = Ok (int (length (got @ [b]) + min k (length q)), (got @ [b]) @ take k q)
        (s\<lparr>pipes := (pipes s)(unat p := z), procs := woken (ChPipeWrite (unat p)) (procs s), klocks := {}\<rparr>)"
      using Suc.IH[OF t(1,2), of "got @ [b]"] unfolding pw u t(3) q_def[symmetric] by blast
    have "piperead_copy (Suc k) p got s = piperead_copy k p (got @ [b]) t" using False by (simp add: upd_pipe_def t_def b_def)
    then show ?thesis using z unfolding pq by (intro exI[of _ z]) (simp add: fun_upd_def del: piperead_copy.simps)
  qed
qed

text \<open>C5. Pipes. A pipe behaves as a first-in first-out queue of at most \<open>PIPESIZE\<close> bytes, whatever values its indices have
  wrapped around to. Writing appends the bytes in order as far as there is room; it returns their number when all of
  them fit, and otherwise sleeps with the pipe full, or returns -1 when no reader is left or the writer was
  killed. Reading takes the oldest bytes, at most as many as asked for; it waits only when the pipe is empty and may still be
  written.\<close>

theorem pipe_fifo:
  fixes s :: "'a kernel_scheme" and p :: u32 and addr :: bytes
  assumes "klocks s = {}" "curproc s = Some c" "length (pqueue (pipes s (unat p))) \<le> PIPESIZE"
  defines "x \<equiv> pipes s (unat p)"
  shows "(\<exists>y. pipe_with x (take PIPESIZE (pqueue x @ map addr [0..<n])) y
      \<and> pipewrite p addr (int n) s =
        (let s1 = s\<lparr>pipes := (pipes s)(unat p := y)\<rparr>; s2 = s1\<lparr>procs := woken (ChPipeRead (unat p)) (procs s)\<rparr> in
         if length (pqueue x) + n \<le> PIPESIZE then Ok (int n) s2
         else if \<not> pi_readopen x \<or> p_killed (procs s c) then Ok (-1) s1
         else Blocked (asleep (ChPipeWrite (unat p)) c s2)))
    \<and> (\<exists>y. pipe_with x (drop n (pqueue x)) y
      \<and> piperead p (int n) s =
        (if pqueue x = [] \<and> pi_writeopen x
         then if p_killed (procs s c) then Ok (-1, []) s else Blocked (asleep (ChPipeRead (unat p)) c s)
         else Ok (int (min n (length (pqueue x))), take n (pqueue x))
           (s\<lparr>pipes := (pipes s)(unat p := y), procs := woken (ChPipeWrite (unat p)) (procs s)\<rparr>)))"
proof (intro conjI, goal_cases)
  let ?s = "s\<lparr>klocks := {LPipe (unat p)}\<rparr>"
  have acq: "acquire (LPipe (unat p)) s = Ok () ?s" using assms(1) by simp
  have k: "klocks ?s = {LPipe (unat p)}" "curproc ?s = Some c" "pipes ?s (unat p) = x" "procs ?s = procs s" "length (pqueue (pipes ?s (unat p))) \<le> PIPESIZE"
    using assms by simp_all
  have z: "t\<lparr>klocks := {}\<rparr> = s\<lparr>pipes := P, procs := Q\<rparr>" if "t = ?s\<lparr>pipes := P, procs := Q\<rparr>" for t P Q using assms(1) that by simp
  case 1
  obtain y where y: "pipe_with x (take PIPESIZE (pqueue x @ map addr [0..<0 + n])) y" "pipewrite_loop n p addr 0 (int n) ?s =
      (let s1 = ?s\<lparr>pipes := (pipes ?s)(unat p := y)\<rparr>; s2 = s1\<lparr>procs := woken (ChPipeRead (unat p)) (procs ?s)\<rparr> in
       if length (pqueue x) + n \<le> PIPESIZE then Ok (int n) (s2\<lparr>klocks := {}\<rparr>)
       else if \<not> pi_readopen x \<or> p_killed (procs ?s c) then Ok (-1) (s1\<lparr>klocks := {}\<rparr>)
       else Blocked (asleep (ChPipeWrite (unat p)) c s2))"
    using pipewrite_loop_ok[OF k(1,2,5), of addr 0 n "int n"] unfolding k(3) by blast
  show ?case using y acq assms(1) by (intro exI[of _ y]) (simp add: pipewrite_def Let_def asleep_def)
next
  let ?s = "s\<lparr>klocks := {LPipe (unat p)}\<rparr>"
  have acq: "acquire (LPipe (unat p)) s = Ok () ?s" using assms(1) by simp
  have k: "klocks ?s = {LPipe (unat p)}" "LPtable \<notin> klocks ?s" "curproc ?s = Some c" "pipes ?s (unat p) = x" "procs ?s = procs s" "pipes ?s = pipes s"
    using assms by simp_all
  case 2
  obtain y where y: "pipe_with x (drop n (pqueue x)) y" "piperead_copy n p [] ?s = Ok (int (0 + min n (length (pqueue x))), [] @ take n (pqueue x))
        (?s\<lparr>pipes := (pipes s)(unat p := y), procs := woken (ChPipeWrite (unat p)) (procs s), klocks := {}\<rparr>)"
    using piperead_copy_ok[OF k(1,2), of n "[]", unfolded k(4), unfolded k(5,6)] by auto
  show ?case
  proof (cases "pqueue x = [] \<and> pi_writeopen x")
    case True
    then have "piperead p (int n) s = (if p_killed (procs s c) then Ok (-1, []) s else Blocked (asleep (ChPipeRead (unat p)) c s))"
      using acq k assms(1) by (simp add: piperead_def piperead_loop_def pqueue_empty x_def asleep_def kthen_apply)
    then show ?thesis using True y(1) by auto
  next
    case False
    then have "piperead p (int n) s = piperead_copy n p [] ?s" using acq by (auto simp: piperead_def piperead_loop_def pqueue_empty x_def)
    then show ?thesis using False y assms(1) by (intro exI[of _ y]) auto
  qed
qed

text \<open>A pipe whose indices are about to wrap around, with one byte in it.\<close>

definition sample_pipe :: kernel where
  "sample_pipe = sample_kernel\<lparr>pipes := (\<lambda>_. \<lparr>pi_data = (\<lambda>_. 7), pi_nread = 0xFFFFFFFE, pi_nwrite = 0xFFFFFFFF,
     pi_readopen = True, pi_writeopen = True\<rparr>)\<rparr>"

lemma sample_pipe_queue: "pqueue (pipes sample_pipe p) = [7]" "klocks sample_pipe = {}" "curproc sample_pipe = Some 0"
  by (simp_all add: sample_pipe_def pqueue_def ring_contents_def sample_kernel_def)

theorem pipe_fifo_witness:
  "\<exists>y s'. pipewrite 0x80400000 (\<lambda>i. of_nat i) (int 3) sample_pipe = Ok 3 s' \<and> pipes s' (unat (0x80400000 :: u32)) = y \<and> pqueue y = [7, 0, 1, 2]"
proof -
  obtain y where "pipe_with (pipes sample_pipe (unat (0x80400000 :: u32))) (take PIPESIZE ([7] @ map of_nat [0..<3])) y"
    "pipewrite 0x80400000 of_nat (int 3) sample_pipe =
        (let s1 = sample_pipe\<lparr>pipes := (pipes sample_pipe)(unat (0x80400000 :: u32) := y)\<rparr>; s2 = s1\<lparr>procs := woken (ChPipeRead (unat (0x80400000 :: u32))) (procs sample_pipe)\<rparr> in
         if length [7 :: u8] + 3 \<le> PIPESIZE then Ok (int 3) s2
         else if \<not> pi_readopen (pipes sample_pipe (unat (0x80400000 :: u32))) \<or> p_killed (procs sample_pipe 0) then Ok (-1) s1
         else Blocked (asleep (ChPipeWrite (unat (0x80400000 :: u32))) 0 s2))"
    using pipe_fifo[OF sample_pipe_queue(2,3), of "0x80400000" of_nat 3] unfolding sample_pipe_queue(1) by (auto simp: PIPESIZE_def)
  then show ?thesis by (intro exI[of _ y]) (auto simp: pipe_with_def PIPESIZE_def Let_def numeral_3_eq_3)
qed

end
