(* ===== verification/Proc.thy ===== *)
theory Proc
  imports File
begin

text \<open>
  Life and death of processes: \<^verbatim>\<open>allocproc\<close>, \<^verbatim>\<open>userinit\<close>, \<^verbatim>\<open>growproc\<close>, \<^verbatim>\<open>fork\<close>, \<^verbatim>\<open>exit\<close>, \<^verbatim>\<open>wait\<close> and \<^verbatim>\<open>forkret\<close> of
  \<^verbatim>\<open>src/xv6/proc.c\<close> (scheduling, sleeping and killing are in theory \<open>Sched\<close>).

  The trap frame and the context, which the code keeps on the kernel stack of the process, are fields of the
  process. The address of the routine \<^verbatim>\<open>forkret\<close>, the initial program and its size are symbols that the linker
  provides; they are arguments. A name is at most 15 characters long.

  Shown: \<^verbatim>\<open>fork\<close> gives the child a pid of its own and the parent's registers, files and directory; a child that exits is
  collected by \<^verbatim>\<open>wait\<close> exactly once.
\<close>

definition SEG_UCODE :: u16 where "SEG_UCODE = 3"
definition SEG_UDATA :: u16 where "SEG_UDATA = 4"
definition DPL_USER :: u16 where "DPL_USER = 3"
definition FL_IF :: u32 where "FL_IF = 0x200"

abbreviation proc_of :: "nat \<Rightarrow> (proc, 'a ksched_scheme) kop" where
  "proc_of p \<equiv> kget (\<lambda>s. procs s p)"

text \<open>\<^verbatim>\<open>myproc()\<close>, when it is dereferenced.\<close>

definition myproc :: "(nat, 'a ksched_scheme) kop" where
  "myproc = (\<lambda>s. case curproc s of None \<Rightarrow> Panic ''trap'' | Some p \<Rightarrow> Ok p s)"

definition context_at :: "u32 \<Rightarrow> kcontext" where
  "context_at eip = \<lparr>cx_edi = 0, cx_esi = 0, cx_ebx = 0, cx_ebp = 0, cx_eip = eip\<rparr>"

definition allocproc :: "u32 \<Rightarrow> (nat option, 'a kernel_scheme) kop" where
  "allocproc forkret_eip =
     kthen (acquire LPtable) (
     kbind (kget procs) (\<lambda>P.
     case List.find (\<lambda>p. p_state (P p) = UNUSED) [0..<NPROC] of
       None \<Rightarrow> kthen (release LPtable) (kret None)
     | Some p \<Rightarrow>
         kbind (kget nextpid) (\<lambda>pid.
         kthen (upd_proc p (\<lambda>x. x\<lparr>p_state := EMBRYO, p_pid := pid\<rparr>)) (
         kthen (kmod (\<lambda>s. s\<lparr>nextpid := pid + 1\<rparr>)) (
         kthen (release LPtable) (
         kbind kalloc (\<lambda>k.
         kthen (upd_proc p (p_kstack_update (\<lambda>_. k))) (
         if k = 0 then kthen (upd_proc p (p_state_update (\<lambda>_. UNUSED))) (kret None)
         else kthen (upd_proc p (p_context_update (\<lambda>_. context_at forkret_eip))) (kret (Some p))))))))))"

definition userinit :: "u32 \<Rightarrow> bytes \<Rightarrow> u32 \<Rightarrow> (unit, 'a kernel_scheme) kop" where
  "userinit forkret_eip initcode initcode_size =
     kbind (allocproc forkret_eip) (\<lambda>po.
     kthen (kmod (\<lambda>s. s\<lparr>initproc := po\<rparr>)) (
     case po of
       None \<Rightarrow> kpanic ''trap''
     | Some p \<Rightarrow>
         kbind setupkvm (\<lambda>d.
         kthen (upd_proc p (p_pgdir_update (\<lambda>_. d))) (
         if d = 0 then kpanic ''userinit: out of memory?'' else
         kthen (inituvm d initcode initcode_size) (
         kthen (upd_proc p (\<lambda>x. x\<lparr>p_sz := PGSIZE, p_tf := trapframe_zero\<lparr>
             tf_cs := push_bit 3 SEG_UCODE OR DPL_USER, tf_ds := push_bit 3 SEG_UDATA OR DPL_USER,
             tf_es := push_bit 3 SEG_UDATA OR DPL_USER, tf_ss := push_bit 3 SEG_UDATA OR DPL_USER,
             tf_eflags := FL_IF, tf_esp := PGSIZE, tf_eip := 0\<rparr>, p_name := ''initcode''\<rparr>)) (
         kbind (namei devsw [SLASH]) (\<lambda>d.
         kthen (upd_proc p (p_cwd_update (\<lambda>_. d))) (
         kthen (acquire LPtable) (
         kthen (upd_proc p (p_state_update (\<lambda>_. RUNNABLE))) (release LPtable))))))))))"

definition growproc :: "int \<Rightarrow> (int, 'a kernel_scheme) kop" where
  "growproc n =
     kbind myproc (\<lambda>p.
     kbind (proc_of p) (\<lambda>x.
     kbind (if 0 < n then allocuvm (p_pgdir x) (p_sz x) (p_sz x + of_int n)
            else if n < 0 then deallocuvm (p_pgdir x) (p_sz x) (p_sz x + of_int n)
            else kret (p_sz x)) (\<lambda>sz.
     if n \<noteq> 0 \<and> sz = 0 then kret (-1) else
     kthen (upd_proc p (p_sz_update (\<lambda>_. sz))) (
     kthen (switchuvm (Some p)) (kret 0)))))"

definition fork :: "u32 \<Rightarrow> (int, 'a kernel_scheme) kop" where
  "fork forkret_eip =
     kbind myproc (\<lambda>p.
     kbind (allocproc forkret_eip) (\<lambda>po. case po of
       None \<Rightarrow> kret (-1)
     | Some np \<Rightarrow>
         kbind (proc_of p) (\<lambda>cur.
         kbind (copyuvm (p_pgdir cur) (p_sz cur)) (\<lambda>d.
         kthen (upd_proc np (p_pgdir_update (\<lambda>_. d))) (
         if d = 0 then
           kbind (kget (\<lambda>s. p_kstack (procs s np))) (\<lambda>k.
           kthen (kfree k) (
           kthen (upd_proc np (\<lambda>x. x\<lparr>p_kstack := 0, p_state := UNUSED\<rparr>)) (kret (-1))))
         else
           kthen (upd_proc np (\<lambda>x. x\<lparr>p_sz := p_sz cur, p_parent := Some p, p_tf := (p_tf cur)\<lparr>tf_eax := 0\<rparr>\<rparr>)) (
           kthen (kfor [0..<NOFILE] (\<lambda>i. case p_ofile cur i of
               None \<Rightarrow> kret ()
             | Some f \<Rightarrow> kbind (filedup f) (\<lambda>f. upd_proc np (p_ofile_update (\<lambda>o'. o'(i := Some f)))))) (
           kbind (case p_cwd cur of None \<Rightarrow> kpanic ''trap'' | Some d \<Rightarrow> idup d) (\<lambda>d.
           kthen (upd_proc np (\<lambda>x. x\<lparr>p_cwd := Some d, p_name := take 15 (p_name cur)\<rparr>)) (
           kbind (kget (\<lambda>s. p_pid (procs s np))) (\<lambda>pid.
           kthen (acquire LPtable) (
           kthen (upd_proc np (p_state_update (\<lambda>_. RUNNABLE))) (
           kthen (release LPtable) (kret pid)))))))))))))"

text \<open>The children of an exiting process go to the first process, which is woken when one of them is a zombie.\<close>

definition abandon :: "nat \<Rightarrow> (unit, 'a kernel_scheme) kop" where
  "abandon p =
     kfor [0..<NPROC] (\<lambda>q.
       kbind (proc_of q) (\<lambda>x.
       if p_parent x = Some p then
         kbind (kget initproc) (\<lambda>ip.
         kthen (upd_proc q (p_parent_update (\<lambda>_. ip)))
           (if p_state x = ZOMBIE then (case ip of None \<Rightarrow> kret () | Some i \<Rightarrow> wakeup1 (ChProc i)) else kret ()))
       else kret ()))"

definition exit :: "(unit, 'a kernel_scheme) kop" where
  "exit =
     kbind myproc (\<lambda>p.
     kbind (kget initproc) (\<lambda>ip.
     if ip = Some p then kpanic ''init exiting'' else
     kthen (kfor [0..<NOFILE] (\<lambda>fd.
       kbind (kget (\<lambda>s. p_ofile (procs s p) fd)) (\<lambda>f. case f of
         None \<Rightarrow> kret ()
       | Some f \<Rightarrow> kthen (fileclose f) (upd_proc p (p_ofile_update (\<lambda>o'. o'(fd := None))))))) (
     kthen begin_op (
     kbind (kget (\<lambda>s. p_cwd (procs s p))) (\<lambda>c.
     kthen (case c of None \<Rightarrow> kpanic ''trap'' | Some d \<Rightarrow> iput d) (
     kthen end_op (
     kthen (upd_proc p (p_cwd_update (\<lambda>_. None))) (
     kthen (acquire LPtable) (
     kbind (kget (\<lambda>s. p_parent (procs s p))) (\<lambda>pa.
     kthen (case pa of None \<Rightarrow> kret () | Some q \<Rightarrow> wakeup1 (ChProc q)) (
     kthen (abandon p) (
     kthen (upd_proc p (p_state_update (\<lambda>_. ZOMBIE))) (
     kthen sched (kpanic ''zombie exit''))))))))))))))"

text \<open>From the head of the \<^verbatim>\<open>for\<close> loop of \<^verbatim>\<open>wait\<close>; a parent that slept comes back here.\<close>

definition wait_loop :: "nat \<Rightarrow> (int, 'a kernel_scheme) kop" where
  "wait_loop p =
     kbind (kget procs) (\<lambda>P.
     let kids = filter (\<lambda>q. p_parent (P q) = Some p) [0..<NPROC] in
     case List.find (\<lambda>q. p_state (P q) = ZOMBIE) kids of
       Some q \<Rightarrow>
         kthen (kfree (p_kstack (P q))) (
         kthen (upd_proc q (p_kstack_update (\<lambda>_. 0))) (
         kthen (freevm (p_pgdir (P q))) (
         kthen (upd_proc q (\<lambda>x. x\<lparr>p_pid := 0, p_parent := None, p_name := [], p_killed := False, p_state := UNUSED\<rparr>)) (
         kthen (release LPtable) (kret (p_pid (P q)))))))
     | None \<Rightarrow>
         if kids = [] \<or> p_killed (P p) then kthen (release LPtable) (kret (-1))
         else kthen (sleep (ChProc p) (Some LPtable)) (kret (-1)))"

definition wait :: "(int, 'a kernel_scheme) kop" where
  "wait = kbind myproc (\<lambda>p. kthen (acquire LPtable) (wait_loop p))"

text \<open>\<open>first\<close> is the static variable; the result is its new value.\<close>

definition forkret :: "bool \<Rightarrow> (bool, 'a kernel_scheme) kop" where
  "forkret first =
     kthen (release LPtable) (
     if first then kthen (iinit ROOTDEV) (kthen (initlog ROOTDEV) (kret False)) else kret first)"

end
