(* ===== verification/Exec.thy ===== *)
theory Exec
  imports Proc
begin

text \<open>
  Loading a program: \<^verbatim>\<open>exec\<close> of \<^verbatim>\<open>src/xv6/exec.c\<close> with the file headers of \<^verbatim>\<open>src/xv6/elf.h\<close>, and \<^verbatim>\<open>loaduvm\<close> of
  \<^verbatim>\<open>src/xv6/vm.c\<close>.

  The headers are read in the bytes that \<^verbatim>\<open>readi\<close> returns. The arguments are the strings that the system call has
  fetched. \<open>None\<close> is a jump to the label \<^verbatim>\<open>bad\<close>.
\<close>

subsection \<open>Headers\<close>

definition ELF_MAGIC :: u32 where "ELF_MAGIC = 0x464C457F"
definition ELF_PROG_LOAD :: u32 where "ELF_PROG_LOAD = 1"

record elfhdr =
  e_magic :: u32
  e_entry :: u32
  e_phoff :: u32
  e_phnum :: u16

text \<open>\<^verbatim>\<open>sizeof(struct elfhdr)\<close> and \<^verbatim>\<open>sizeof(struct proghdr)\<close>.\<close>

definition ELFHDR_SIZE :: nat where "ELFHDR_SIZE = 52"
definition PROGHDR_SIZE :: nat where "PROGHDR_SIZE = 32"

definition elf_of :: "u8 list \<Rightarrow> elfhdr" where
  "elf_of bs = \<lparr>e_magic = rd32 (list_bytes bs) 0, e_entry = rd32 (list_bytes bs) 24, e_phoff = rd32 (list_bytes bs) 28,
     e_phnum = rd16 (list_bytes bs) 44\<rparr>"

record proghdr =
  ph_type :: u32
  ph_off :: u32
  ph_vaddr :: u32
  ph_filesz :: u32
  ph_memsz :: u32

definition ph_of :: "u8 list \<Rightarrow> proghdr" where
  "ph_of bs = \<lparr>ph_type = rd32 (list_bytes bs) 0, ph_off = rd32 (list_bytes bs) 4, ph_vaddr = rd32 (list_bytes bs) 8,
     ph_filesz = rd32 (list_bytes bs) 16, ph_memsz = rd32 (list_bytes bs) 20\<rparr>"

subsection \<open>Loading\<close>

definition store_page :: "u32 \<Rightarrow> u8 list \<Rightarrow> 'a kmem_scheme \<Rightarrow> 'a kmem_scheme" where
  "store_page pa bs s = s\<lparr>pmem := (pmem s)(pframe pa := bcopy (list_bytes bs) 0 (pmem s (pframe pa)) 0 (length bs))\<rparr>"

primrec loaduvm_loop :: "nat \<Rightarrow> u32 \<Rightarrow> u32 \<Rightarrow> nat \<Rightarrow> u32 \<Rightarrow> u32 \<Rightarrow> u32 \<Rightarrow> (int, 'a kernel_scheme) kop" where
  "loaduvm_loop 0 pgdir addr ip offset i sz = kret 0"
| "loaduvm_loop (Suc k) pgdir addr ip offset i sz =
     (if \<not> i < sz then kret 0 else
      kbind (walkpgdir pgdir (addr + i) False) (\<lambda>r. case r of
        None \<Rightarrow> kpanic ''loaduvm: address should exist''
      | Some l \<Rightarrow>
          kbind (kget (\<lambda>s. PTE_ADDR (rd_pte s l))) (\<lambda>pa.
          let n = (if sz - i < PGSIZE then sz - i else PGSIZE) in
          kbind (readi devsw ip (offset + i) n) (\<lambda>(r, bs).
          kthen (kmod (store_page pa bs)) (
          if r \<noteq> sint n then kret (-1) else loaduvm_loop k pgdir addr ip offset (i + PGSIZE) sz)))))"

definition loaduvm :: "u32 \<Rightarrow> u32 \<Rightarrow> nat \<Rightarrow> u32 \<Rightarrow> u32 \<Rightarrow> (int, 'a kernel_scheme) kop" where
  "loaduvm pgdir addr ip offset sz =
     (if unat addr mod unat PGSIZE \<noteq> 0 then kpanic ''loaduvm: addr must be page aligned''
      else loaduvm_loop ((unat sz + 4095) div 4096) pgdir addr ip offset 0 sz)"

text \<open>The program headers from offset \<open>off\<close> on, with the size reached so far.\<close>

primrec exec_segments :: "nat \<Rightarrow> nat \<Rightarrow> u32 \<Rightarrow> u32 \<Rightarrow> u32 \<Rightarrow> (u32 option, 'a kernel_scheme) kop" where
  "exec_segments 0 ip pgdir off sz = kret (Some sz)"
| "exec_segments (Suc k) ip pgdir off sz =
     kbind (readi devsw ip off (of_nat PROGHDR_SIZE)) (\<lambda>(r, bs).
     let ph = ph_of bs in
     if r \<noteq> int PROGHDR_SIZE then kret None
     else if ph_type ph \<noteq> ELF_PROG_LOAD then exec_segments k ip pgdir (off + of_nat PROGHDR_SIZE) sz
     else if ph_memsz ph < ph_filesz ph then kret None
     else if ph_vaddr ph + ph_memsz ph < ph_vaddr ph then kret None
     else kbind (allocuvm pgdir sz (ph_vaddr ph + ph_memsz ph)) (\<lambda>sz.
       if sz = 0 then kret None
       else if unat (ph_vaddr ph) mod unat PGSIZE \<noteq> 0 then kret None
       else kbind (loaduvm pgdir (ph_vaddr ph) ip (ph_off ph) (ph_filesz ph)) (\<lambda>l.
         if l < 0 then kret None else exec_segments k ip pgdir (off + of_nat PROGHDR_SIZE) sz)))"

text \<open>Pushing the argument strings; the result is the stack pointer and the pointers to the strings.\<close>

primrec exec_args :: "u8 list list \<Rightarrow> u32 \<Rightarrow> u32 \<Rightarrow> u32 list \<Rightarrow> ((u32 \<times> u32 list) option, 'a kernel_scheme) kop" where
  "exec_args [] pgdir sp ptrs = kret (Some (sp, ptrs))"
| "exec_args (a # as) pgdir sp ptrs =
     (if MAXARG \<le> length ptrs then kret None else
      let sp = (sp - of_nat (length a + 1)) AND NOT 3 in
      kbind (copyout pgdir sp (list_bytes (a @ [0])) (of_nat (length a + 1))) (\<lambda>r.
      if r < 0 then kret None else exec_args as pgdir sp (ptrs @ [sp])))"

definition u16_bytes :: "u16 \<Rightarrow> u8 list" where
  "u16_bytes v = [ucast v, ucast (drop_bit 8 v)]"

definition u32_bytes :: "u32 \<Rightarrow> u8 list" where
  "u32_bytes v = [ucast v, ucast (drop_bit 8 v), ucast (drop_bit 16 v), ucast (drop_bit 24 v)]"

text \<open>The words below the strings: return address, \<^verbatim>\<open>argc\<close>, \<^verbatim>\<open>argv\<close>, and the pointers with a null at the end.\<close>

definition exec_ustack :: "u32 \<Rightarrow> u32 list \<Rightarrow> u32 list" where
  "exec_ustack sp ptrs = [0xffffffff, of_nat (length ptrs), sp - of_nat ((length ptrs + 1) * 4)] @ ptrs @ [0]"

definition exec_bad :: "u32 \<Rightarrow> nat option \<Rightarrow> (int, 'a kernel_scheme) kop" where
  "exec_bad pgdir ipo =
     kthen (if pgdir \<noteq> 0 then freevm pgdir else kret ()) (
     kthen (case ipo of None \<Rightarrow> kret () | Some ip \<Rightarrow> kthen (iunlockput ip) end_op) (kret (-1)))"

definition progname :: "u8 list \<Rightarrow> string" where
  "progname path = map (\<lambda>b. char_of (unat b)) (rev (takeWhile (\<lambda>c. c \<noteq> SLASH) (rev path)))"

text \<open>From the allocation of the stack on: the inode has been released.\<close>

definition exec_stack :: "u8 list \<Rightarrow> u8 list list \<Rightarrow> u32 \<Rightarrow> u32 \<Rightarrow> u32 \<Rightarrow> (int, 'a kernel_scheme) kop" where
  "exec_stack path argv entry pgdir sz0 =
     (let sz1 = PGROUNDUP sz0 in
      kbind (allocuvm pgdir sz1 (sz1 + 2 * PGSIZE)) (\<lambda>sz.
      if sz = 0 then exec_bad pgdir None else
      kthen (clearpteu pgdir (sz - 2 * PGSIZE)) (
      kbind (exec_args argv pgdir sz []) (\<lambda>r. case r of
        None \<Rightarrow> exec_bad pgdir None
      | Some (sp0, ptrs) \<Rightarrow>
          let sp = sp0 - of_nat ((3 + length ptrs + 1) * 4) in
          kbind (copyout pgdir sp (list_bytes (concat (map u32_bytes (exec_ustack sp0 ptrs)))) (of_nat ((3 + length ptrs + 1) * 4))) (\<lambda>c.
          if c < 0 then exec_bad pgdir None else
          kbind myproc (\<lambda>p.
          kbind (kget (\<lambda>s. p_pgdir (procs s p))) (\<lambda>oldpgdir.
          kthen (upd_proc p (\<lambda>x. x\<lparr>p_name := take 15 (progname path), p_pgdir := pgdir, p_sz := sz,
                   p_tf := (p_tf x)\<lparr>tf_eip := entry, tf_esp := sp\<rparr>\<rparr>)) (
          kthen (switchuvm (Some p)) (
          kthen (freevm oldpgdir) (kret 0))))))))))"

definition exec :: "u8 list \<Rightarrow> u8 list list \<Rightarrow> (int, 'a kernel_scheme) kop" where
  "exec path argv =
     kthen begin_op (
     kbind (namei devsw path) (\<lambda>ipo. case ipo of
       None \<Rightarrow> kthen end_op (kthen (cprintf (\<lambda>_. []) (Some (''exec: fail'' @ [CHR 0x0A])) (\<lambda>_. 0)) (kret (-1)))
     | Some ip \<Rightarrow>
         kthen (ilock (Some ip)) (
         kbind (readi devsw ip 0 (of_nat ELFHDR_SIZE)) (\<lambda>(r, bs).
         if r \<noteq> int ELFHDR_SIZE then exec_bad 0 (Some ip)
         else if e_magic (elf_of bs) \<noteq> ELF_MAGIC then exec_bad 0 (Some ip)
         else kbind setupkvm (\<lambda>pgdir.
           if pgdir = 0 then exec_bad 0 (Some ip) else
           kbind (exec_segments (unat (e_phnum (elf_of bs))) ip pgdir (e_phoff (elf_of bs)) 0) (\<lambda>so. case so of
             None \<Rightarrow> exec_bad pgdir (Some ip)
           | Some sz \<Rightarrow>
               kthen (iunlockput ip) (
               kthen end_op (exec_stack path argv (e_entry (elf_of bs)) pgdir sz))))))))"

end
