(* ===== verification/Sysfile.thy ===== *)
theory Sysfile
  imports Exec
begin

text \<open>
  Arguments of system calls and the calls on files: the first half of \<^verbatim>\<open>src/xv6/syscall.c\<close>, \<^verbatim>\<open>src/xv6/sysfile.c\<close> and the modes
  of \<^verbatim>\<open>src/xv6/fcntl.h\<close>.

  A routine that returns -1 or stores a value through a pointer returns an option; a user string is the list of its bytes.
  The result of a system call is the integer that the user program receives.
\<close>

subsection \<open>Arguments\<close>

definition fetchint :: "u32 \<Rightarrow> (u32 option, 'a kernel_scheme) kop" where
  "fetchint addr =
     kbind myproc (\<lambda>p.
     kbind (kget (\<lambda>s. p_sz (procs s p))) (\<lambda>sz.
     if sz \<le> addr \<or> sz < addr + 4 then kret None
     else kbind (uload32 addr) (\<lambda>v. kret (Some v))))"

primrec fetchstr_loop :: "nat \<Rightarrow> u32 \<Rightarrow> u8 list \<Rightarrow> (u8 list option, 'a kernel_scheme) kop" where
  "fetchstr_loop 0 s got = kret None"
| "fetchstr_loop (Suc k) s got =
     kbind (uload s) (\<lambda>b. if b = 0 then kret (Some got) else fetchstr_loop k (s + 1) (got @ [b]))"

definition fetchstr :: "u32 \<Rightarrow> (u8 list option, 'a kernel_scheme) kop" where
  "fetchstr addr =
     kbind myproc (\<lambda>p.
     kbind (kget (\<lambda>s. p_sz (procs s p))) (\<lambda>sz.
     if sz \<le> addr then kret None else fetchstr_loop (unat sz - unat addr) addr []))"

definition argint :: "nat \<Rightarrow> (u32 option, 'a kernel_scheme) kop" where
  "argint n = kbind myproc (\<lambda>p. kbind (kget (\<lambda>s. tf_esp (p_tf (procs s p)))) (\<lambda>esp. fetchint (esp + 4 + 4 * of_nat n)))"

definition argptr :: "nat \<Rightarrow> int \<Rightarrow> (u32 option, 'a kernel_scheme) kop" where
  "argptr n len =
     kbind myproc (\<lambda>p.
     kbind (argint n) (\<lambda>io. case io of
       None \<Rightarrow> kret None
     | Some i \<Rightarrow>
         kbind (kget (\<lambda>s. p_sz (procs s p))) (\<lambda>sz.
         if len < 0 \<or> sz \<le> i \<or> sz < i + of_int len then kret None else kret (Some i))))"

definition argstr :: "nat \<Rightarrow> (u8 list option, 'a kernel_scheme) kop" where
  "argstr n = kbind (argint n) (\<lambda>ao. case ao of None \<Rightarrow> kret None | Some addr \<Rightarrow> fetchstr addr)"

definition argfd :: "nat \<Rightarrow> ((nat \<times> nat) option, 'a kernel_scheme) kop" where
  "argfd n =
     kbind (argint n) (\<lambda>fo. case fo of
       None \<Rightarrow> kret None
     | Some w \<Rightarrow>
         if sint w < 0 \<or> int NOFILE \<le> sint w then kret None else
         kbind myproc (\<lambda>p.
         kbind (kget (\<lambda>s. p_ofile (procs s p) (unat w))) (\<lambda>f. case f of
           None \<Rightarrow> kret None
         | Some f \<Rightarrow> kret (Some (unat w, f)))))"

definition fdalloc :: "nat \<Rightarrow> (int, 'a kernel_scheme) kop" where
  "fdalloc f =
     kbind myproc (\<lambda>p.
     kbind (kget (\<lambda>s. p_ofile (procs s p))) (\<lambda>o'.
     case List.find (\<lambda>fd. o' fd = None) [0..<NOFILE] of
       None \<Rightarrow> kret (-1)
     | Some fd \<Rightarrow> kthen (upd_proc p (p_ofile_update (\<lambda>o'. o'(fd := Some f)))) (kret (int fd))))"

subsection \<open>Descriptors\<close>

definition sys_dup :: "(int, 'a kernel_scheme) kop" where
  "sys_dup =
     kbind (argfd 0) (\<lambda>a. case a of
       None \<Rightarrow> kret (-1)
     | Some (_, f) \<Rightarrow>
         kbind (fdalloc f) (\<lambda>fd.
         if fd < 0 then kret (-1) else kthen (filedup f) (kret fd)))"

text \<open>The checks that \<^verbatim>\<open>sys_read\<close> and \<^verbatim>\<open>sys_write\<close> share.\<close>

definition rw_args :: "((nat \<times> u32 \<times> int) option, 'a kernel_scheme) kop" where
  "rw_args =
     kbind (argfd 0) (\<lambda>a. case a of None \<Rightarrow> kret None | Some (_, f) \<Rightarrow>
     kbind (argint 2) (\<lambda>no. case no of None \<Rightarrow> kret None | Some n \<Rightarrow>
     kbind (argptr 1 (sint n)) (\<lambda>po. case po of None \<Rightarrow> kret None | Some p \<Rightarrow> kret (Some (f, p, sint n)))))"

definition sys_read :: "(int, 'a kernel_scheme) kop" where
  "sys_read = kbind rw_args (\<lambda>a. case a of None \<Rightarrow> kret (-1) | Some (f, p, n) \<Rightarrow> fileread f p n)"

definition sys_write :: "(int, 'a kernel_scheme) kop" where
  "sys_write = kbind rw_args (\<lambda>a. case a of None \<Rightarrow> kret (-1) | Some (f, p, n) \<Rightarrow> filewrite f p n)"

definition sys_close :: "(int, 'a kernel_scheme) kop" where
  "sys_close =
     kbind (argfd 0) (\<lambda>a. case a of
       None \<Rightarrow> kret (-1)
     | Some (fd, f) \<Rightarrow>
         kbind myproc (\<lambda>p.
         kthen (upd_proc p (p_ofile_update (\<lambda>o'. o'(fd := None)))) (
         kthen (fileclose f) (kret 0))))"

text \<open>The fields of \<^verbatim>\<open>struct stat\<close> (20 bytes) at their offsets in the user's memory.\<close>

definition store_stat :: "u32 \<Rightarrow> stat \<Rightarrow> (unit, 'a kernel_scheme) kop" where
  "store_stat a st =
     kthen (ustores (a + 4) (u32_bytes (of_nat (st_dev st)))) (
     kthen (ustores (a + 8) (u32_bytes (of_nat (st_ino st)))) (
     kthen (ustores a (u16_bytes (st_type st))) (
     kthen (ustores (a + 12) (u16_bytes (st_nlink st))) (
     ustores (a + 16) (u32_bytes (st_size st))))))"

definition sys_fstat :: "(int, 'a kernel_scheme) kop" where
  "sys_fstat =
     kbind (argfd 0) (\<lambda>a. case a of None \<Rightarrow> kret (-1) | Some (_, f) \<Rightarrow>
     kbind (argptr 1 20) (\<lambda>po. case po of None \<Rightarrow> kret (-1) | Some p \<Rightarrow>
     kbind (filestat f) (\<lambda>(r, st). case st of
       None \<Rightarrow> kret r
     | Some st \<Rightarrow> kthen (store_stat p st) (kret r))))"

subsection \<open>Names\<close>

definition link_bad :: "nat \<Rightarrow> (int, 'a kernel_scheme) kop" where
  "link_bad ip =
     kthen (ilock (Some ip)) (
     kthen (kmod (upd_inode ip (i_nlink_update (\<lambda>n. n - 1)))) (
     kthen (iupdate ip) (
     kthen (iunlockput ip) (
     kthen end_op (kret (-1))))))"

definition sys_link :: "(int, 'a kernel_scheme) kop" where
  "sys_link =
     kbind (argstr 0) (\<lambda>oo. case oo of None \<Rightarrow> kret (-1) | Some old \<Rightarrow>
     kbind (argstr 1) (\<lambda>no. case no of None \<Rightarrow> kret (-1) | Some new \<Rightarrow>
     kthen begin_op (
     kbind (namei devsw old) (\<lambda>ipo. case ipo of
       None \<Rightarrow> kthen end_op (kret (-1))
     | Some ip \<Rightarrow>
         kthen (ilock (Some ip)) (
         kbind (inode_of ip) (\<lambda>x.
         if i_type x = T_DIR then kthen (iunlockput ip) (kthen end_op (kret (-1))) else
         kthen (kmod (upd_inode ip (i_nlink_update (\<lambda>n. n + 1)))) (
         kthen (iupdate ip) (
         kthen (iunlock (Some ip)) (
         kbind (nameiparent devsw new (\<lambda>_. 0)) (\<lambda>(dpo, name). case dpo of
           None \<Rightarrow> link_bad ip
         | Some dp \<Rightarrow>
             kthen (ilock (Some dp)) (
             kbind (inode_of dp) (\<lambda>d.
             kbind (inode_of ip) (\<lambda>x.
             kbind (if i_dev d \<noteq> i_dev x then kret (-1) else dirlink devsw dp name (i_inum x)) (\<lambda>r.
             if r < 0 then kthen (iunlockput dp) (link_bad ip) else
             kthen (iunlockput dp) (
             kthen (iput ip) (
             kthen end_op (kret 0)))))))))))))))))"

text \<open>Entries from offset \<open>off\<close> on; \<open>k\<close> bounds their number.\<close>

primrec isdirempty_loop :: "nat \<Rightarrow> nat \<Rightarrow> u32 \<Rightarrow> (bool, 'a kernel_scheme) kop" where
  "isdirempty_loop 0 dp off = kret True"
| "isdirempty_loop (Suc k) dp off =
     kbind (inode_of dp) (\<lambda>x.
     if \<not> off < i_size x then kret True else
     kbind (readi devsw dp off (of_nat DESIZE)) (\<lambda>(r, de).
     if r \<noteq> int DESIZE then kpanic ''isdirempty: readi''
     else if de_inum de \<noteq> 0 then kret False
     else isdirempty_loop k dp (off + of_nat DESIZE)))"

definition isdirempty :: "nat \<Rightarrow> (bool, 'a kernel_scheme) kop" where
  "isdirempty dp =
     kbind (inode_of dp) (\<lambda>x. isdirempty_loop ((unat (i_size x) + DESIZE - 1) div DESIZE) dp (2 * of_nat DESIZE))"

definition unlink_bad :: "nat \<Rightarrow> (int, 'a kernel_scheme) kop" where
  "unlink_bad dp = kthen (iunlockput dp) (kthen end_op (kret (-1)))"

text \<open>The names of a directory itself and of its parent.\<close>

definition dot :: bytes where "dot = list_bytes [46]"
definition dotdot :: bytes where "dotdot = list_bytes [46, 46]"

definition sys_unlink :: "(int, 'a kernel_scheme) kop" where
  "sys_unlink =
     kbind (argstr 0) (\<lambda>po. case po of None \<Rightarrow> kret (-1) | Some path \<Rightarrow>
     kthen begin_op (
     kbind (nameiparent devsw path (\<lambda>_. 0)) (\<lambda>(dpo, name). case dpo of
       None \<Rightarrow> kthen end_op (kret (-1))
     | Some dp \<Rightarrow>
         kthen (ilock (Some dp)) (
         if namecmp name dot = 0 \<or> namecmp name dotdot = 0 then unlink_bad dp else
         kbind (dirlookup devsw dp name) (\<lambda>r. case r of
           None \<Rightarrow> unlink_bad dp
         | Some (ip, off) \<Rightarrow>
             kthen (ilock (Some ip)) (
             kbind (inode_of ip) (\<lambda>x.
             if sint (i_nlink x) < 1 then kpanic ''unlink: nlink < 1'' else
             kbind (if i_type x = T_DIR then isdirempty ip else kret True) (\<lambda>empty.
             if \<not> empty then kthen (iunlockput ip) (unlink_bad dp) else
             kbind (writei devsw dp (\<lambda>_. 0) off (of_nat DESIZE)) (\<lambda>w.
             if w \<noteq> int DESIZE then kpanic ''unlink: writei'' else
             kthen (if i_type x = T_DIR
                    then kthen (kmod (upd_inode dp (i_nlink_update (\<lambda>n. n - 1)))) (iupdate dp) else kret ()) (
             kthen (iunlockput dp) (
             kthen (kmod (upd_inode ip (i_nlink_update (\<lambda>n. n - 1)))) (
             kthen (iupdate ip) (
             kthen (iunlockput ip) (
             kthen end_op (kret 0)))))))))))))))"

text \<open>The inode that is returned is locked.\<close>

definition create :: "u8 list \<Rightarrow> u16 \<Rightarrow> u16 \<Rightarrow> u16 \<Rightarrow> (nat option, 'a kernel_scheme) kop" where
  "create path type major minor =
     kbind (nameiparent devsw path (\<lambda>_. 0)) (\<lambda>(dpo, name). case dpo of
       None \<Rightarrow> kret None
     | Some dp \<Rightarrow>
         kthen (ilock (Some dp)) (
         kbind (dirlookup devsw dp name) (\<lambda>r. case r of
           Some (ip, _) \<Rightarrow>
             kthen (iunlockput dp) (
             kthen (ilock (Some ip)) (
             kbind (inode_of ip) (\<lambda>x.
             if type = T_FILE \<and> i_type x = T_FILE then kret (Some ip)
             else kthen (iunlockput ip) (kret None))))
         | None \<Rightarrow>
             kbind (kget (\<lambda>s. i_dev (icache s dp))) (\<lambda>dev.
             kbind (ialloc dev type) (\<lambda>ip.
             kthen (ilock (Some ip)) (
             kthen (kmod (upd_inode ip (\<lambda>x. x\<lparr>i_major := major, i_minor := minor, i_nlink := 1\<rparr>))) (
             kthen (iupdate ip) (
             kthen (if type = T_DIR then
                      kthen (kmod (upd_inode dp (i_nlink_update (\<lambda>n. n + 1)))) (
                      kthen (iupdate dp) (
                      kbind (kget (\<lambda>s. (i_inum (icache s ip), i_inum (icache s dp)))) (\<lambda>(inum, dinum).
                      kbind (dirlink devsw ip dot inum) (\<lambda>a.
                      if a < 0 then kpanic ''create dots'' else
                      kbind (dirlink devsw ip dotdot dinum) (\<lambda>b.
                      if b < 0 then kpanic ''create dots'' else kret ())))))
                    else kret ()) (
             kbind (kget (\<lambda>s. i_inum (icache s ip))) (\<lambda>inum.
             kbind (dirlink devsw dp name inum) (\<lambda>l.
             if l < 0 then kpanic ''create: dirlink'' else
             kthen (iunlockput dp) (kret (Some ip)))))))))))))"

definition O_RDONLY :: u32 where "O_RDONLY = 0x000"
definition O_WRONLY :: u32 where "O_WRONLY = 0x001"
definition O_RDWR :: u32 where "O_RDWR = 0x002"
definition O_CREATE :: u32 where "O_CREATE = 0x200"

text \<open>The inode to open, locked; \<open>None\<close> when the call fails, with the transaction ended.\<close>

definition open_inode :: "u8 list \<Rightarrow> u32 \<Rightarrow> (nat option, 'a kernel_scheme) kop" where
  "open_inode path omode =
     (if omode AND O_CREATE \<noteq> 0 then
        kbind (create path T_FILE 0 0) (\<lambda>ipo. case ipo of
          None \<Rightarrow> kthen end_op (kret None)
        | Some ip \<Rightarrow> kret (Some ip))
      else
        kbind (namei devsw path) (\<lambda>ipo. case ipo of
          None \<Rightarrow> kthen end_op (kret None)
        | Some ip \<Rightarrow>
            kthen (ilock (Some ip)) (
            kbind (inode_of ip) (\<lambda>x.
            if i_type x = T_DIR \<and> omode \<noteq> O_RDONLY then kthen (iunlockput ip) (kthen end_op (kret None))
            else kret (Some ip)))))"

definition sys_open :: "(int, 'a kernel_scheme) kop" where
  "sys_open =
     kbind (argstr 0) (\<lambda>po. case po of None \<Rightarrow> kret (-1) | Some path \<Rightarrow>
     kbind (argint 1) (\<lambda>mo. case mo of None \<Rightarrow> kret (-1) | Some omode \<Rightarrow>
     kthen begin_op (
     kbind (open_inode path omode) (\<lambda>ipo. case ipo of
       None \<Rightarrow> kret (-1)
     | Some ip \<Rightarrow>
         kbind filealloc (\<lambda>fo.
         kbind (case fo of None \<Rightarrow> kret (-1) | Some f \<Rightarrow> fdalloc f) (\<lambda>fd.
         if fd < 0 then
           kthen (case fo of None \<Rightarrow> kret () | Some f \<Rightarrow> fileclose f) (
           kthen (iunlockput ip) (
           kthen end_op (kret (-1))))
         else
           kthen (iunlock (Some ip)) (
           kthen end_op (
           kthen (case fo of None \<Rightarrow> kret () | Some f \<Rightarrow>
             kmod (upd_file f (\<lambda>x. x\<lparr>f_type := FD_INODE, f_ip := ip, f_off := 0, f_readable := (omode AND O_WRONLY = 0),
               f_writable := (omode AND O_WRONLY \<noteq> 0 \<or> omode AND O_RDWR \<noteq> 0)\<rparr>)))
             (kret fd)))))))))"

definition sys_mkdir :: "(int, 'a kernel_scheme) kop" where
  "sys_mkdir =
     kthen begin_op (
     kbind (argstr 0) (\<lambda>po.
     kbind (case po of None \<Rightarrow> kret None | Some path \<Rightarrow> create path T_DIR 0 0) (\<lambda>ipo. case ipo of
       None \<Rightarrow> kthen end_op (kret (-1))
     | Some ip \<Rightarrow> kthen (iunlockput ip) (kthen end_op (kret 0)))))"

definition sys_mknod :: "(int, 'a kernel_scheme) kop" where
  "sys_mknod =
     kthen begin_op (
     kbind (kbind (argstr 0) (\<lambda>po. case po of None \<Rightarrow> kret None | Some path \<Rightarrow>
            kbind (argint 1) (\<lambda>ma. case ma of None \<Rightarrow> kret None | Some major \<Rightarrow>
            kbind (argint 2) (\<lambda>mi. case mi of None \<Rightarrow> kret None | Some minor \<Rightarrow>
            create path T_DEV (ucast major) (ucast minor))))) (\<lambda>ipo. case ipo of
       None \<Rightarrow> kthen end_op (kret (-1))
     | Some ip \<Rightarrow> kthen (iunlockput ip) (kthen end_op (kret 0))))"

definition sys_chdir :: "(int, 'a kernel_scheme) kop" where
  "sys_chdir =
     kbind myproc (\<lambda>p.
     kthen begin_op (
     kbind (argstr 0) (\<lambda>po.
     kbind (case po of None \<Rightarrow> kret None | Some path \<Rightarrow> namei devsw path) (\<lambda>ipo. case ipo of
       None \<Rightarrow> kthen end_op (kret (-1))
     | Some ip \<Rightarrow>
         kthen (ilock (Some ip)) (
         kbind (inode_of ip) (\<lambda>x.
         if i_type x \<noteq> T_DIR then kthen (iunlockput ip) (kthen end_op (kret (-1))) else
         kthen (iunlock (Some ip)) (
         kbind (kget (\<lambda>s. p_cwd (procs s p))) (\<lambda>c.
         kthen (case c of None \<Rightarrow> kpanic ''trap'' | Some d \<Rightarrow> iput d) (
         kthen end_op (
         kthen (upd_proc p (p_cwd_update (\<lambda>_. Some ip))) (kret 0)))))))))))"

subsection \<open>Programs and pipes\<close>

text \<open>The pointers of the argument vector from index \<open>i\<close> on; \<open>k\<close> is what is left of the \<^verbatim>\<open>MAXARG\<close> entries.\<close>

primrec exec_argv :: "nat \<Rightarrow> u32 \<Rightarrow> nat \<Rightarrow> u8 list list \<Rightarrow> (u8 list list option, 'a kernel_scheme) kop" where
  "exec_argv 0 uargv i argv = kret None"
| "exec_argv (Suc k) uargv i argv =
     kbind (fetchint (uargv + 4 * of_nat i)) (\<lambda>uo. case uo of
       None \<Rightarrow> kret None
     | Some uarg \<Rightarrow>
         if uarg = 0 then kret (Some argv) else
         kbind (fetchstr uarg) (\<lambda>a. case a of
           None \<Rightarrow> kret None
         | Some a \<Rightarrow> exec_argv k uargv (i + 1) (argv @ [a])))"

definition sys_exec :: "(int, 'a kernel_scheme) kop" where
  "sys_exec =
     kbind (argstr 0) (\<lambda>po. case po of None \<Rightarrow> kret (-1) | Some path \<Rightarrow>
     kbind (argint 1) (\<lambda>uo. case uo of None \<Rightarrow> kret (-1) | Some uargv \<Rightarrow>
     kbind (exec_argv MAXARG uargv 0 []) (\<lambda>ao. case ao of None \<Rightarrow> kret (-1) | Some argv \<Rightarrow> exec path argv)))"

definition sys_pipe :: "(int, 'a kernel_scheme) kop" where
  "sys_pipe =
     kbind (argptr 0 8) (\<lambda>fo. case fo of None \<Rightarrow> kret (-1) | Some fd \<Rightarrow>
     kbind pipealloc (\<lambda>ro. case ro of
       None \<Rightarrow> kret (-1)
     | Some (rfile, wfile) \<Rightarrow>
         kbind myproc (\<lambda>p.
         kbind (fdalloc rfile) (\<lambda>fd0.
         kbind (if fd0 < 0 then kret (-1) else fdalloc wfile) (\<lambda>fd1.
         if fd1 < 0 then
           kthen (if 0 \<le> fd0 then upd_proc p (p_ofile_update (\<lambda>o'. o'(nat fd0 := None))) else kret ()) (
           kthen (fileclose rfile) (
           kthen (fileclose wfile) (kret (-1))))
         else
           kthen (ustores fd (u32_bytes (of_int fd0))) (
           kthen (ustores (fd + 4) (u32_bytes (of_int fd1))) (kret 0)))))))"

end
