(* ===== verification/Trap.thy ===== *)
theory Trap
  imports Sysfile
begin

text \<open>
  System calls and interrupts: \<^verbatim>\<open>src/xv6/sysproc.c\<close>, the dispatcher of \<^verbatim>\<open>src/xv6/syscall.c\<close> with the numbers of
  \<^verbatim>\<open>src/xv6/syscall.h\<close>, and \<^verbatim>\<open>trap\<close> of \<^verbatim>\<open>src/xv6/trap.c\<close> with the vectors of \<^verbatim>\<open>src/xv6/traps.h\<close>.

  What the hardware delivers is an argument of \<^verbatim>\<open>trap\<close>: the processor's number, the faulting address, and the characters
  that the keyboard or serial line has for the interrupt handler. Acknowledging an interrupt at the local interrupt
  controller has no effect on the modelled state. The tail of \<^verbatim>\<open>trap\<close> after \<^verbatim>\<open>yield\<close> is a definition of its own.
\<close>

subsection \<open>Process calls\<close>

definition sys_fork :: "u32 \<Rightarrow> (int, 'a kernel_scheme) kop" where
  "sys_fork forkret_eip = fork forkret_eip"

definition sys_exit :: "(int, 'a kernel_scheme) kop" where
  "sys_exit = kthen exit (kret 0)"

definition sys_wait :: "(int, 'a kernel_scheme) kop" where
  "sys_wait = wait"

definition sys_kill :: "(int, 'a kernel_scheme) kop" where
  "sys_kill = kbind (argint 0) (\<lambda>a. case a of None \<Rightarrow> kret (-1) | Some pid \<Rightarrow> kill (sint pid))"

definition sys_getpid :: "(int, 'a kernel_scheme) kop" where
  "sys_getpid = kbind myproc (\<lambda>p. kget (\<lambda>s. p_pid (procs s p)))"

definition sys_sbrk :: "(int, 'a kernel_scheme) kop" where
  "sys_sbrk =
     kbind (argint 0) (\<lambda>a. case a of
       None \<Rightarrow> kret (-1)
     | Some n \<Rightarrow>
         kbind myproc (\<lambda>p.
         kbind (kget (\<lambda>s. sint (p_sz (procs s p)))) (\<lambda>addr.
         kbind (growproc (sint n)) (\<lambda>r. if r < 0 then kret (-1) else kret addr))))"

text \<open>From the head of the \<^verbatim>\<open>while\<close> loop of \<^verbatim>\<open>sys_sleep\<close>. The comparison is between unsigned numbers.\<close>

definition sys_sleep_loop :: "u32 \<Rightarrow> u32 \<Rightarrow> (int, 'a kernel_scheme) kop" where
  "sys_sleep_loop ticks0 n =
     kbind (kget ticks) (\<lambda>t.
     if t - ticks0 < n then
       kbind mykilled (\<lambda>k.
       if k then kthen (release LTicks) (kret (-1))
       else kthen (sleep ChTicks (Some LTicks)) (kret (-1)))
     else kthen (release LTicks) (kret 0))"

definition sys_sleep :: "(int, 'a kernel_scheme) kop" where
  "sys_sleep =
     kbind (argint 0) (\<lambda>a. case a of
       None \<Rightarrow> kret (-1)
     | Some n \<Rightarrow> kthen (acquire LTicks) (kbind (kget ticks) (\<lambda>ticks0. sys_sleep_loop ticks0 n)))"

definition sys_uptime :: "(int, 'a kernel_scheme) kop" where
  "sys_uptime =
     kthen (acquire LTicks) (
     kbind (kget ticks) (\<lambda>xticks.
     kthen (release LTicks) (kret (sint xticks))))"

definition sys_trace :: "(int, 'a kernel_scheme) kop" where
  "sys_trace =
     kbind (argint 0) (\<lambda>a. case a of
       None \<Rightarrow> kret (-1)
     | Some t \<Rightarrow> kthen (kmod (\<lambda>s. s\<lparr>trace := t\<rparr>)) (kret 0))"

definition sys_answer :: "(int, 'a kernel_scheme) kop" where
  "sys_answer = kret 42"

definition sys_getppid :: "(int, 'a kernel_scheme) kop" where
  "sys_getppid =
     kbind myproc (\<lambda>p.
     kbind (kget (\<lambda>s. p_parent (procs s p))) (\<lambda>q. case q of
       None \<Rightarrow> kpanic ''trap''
     | Some q \<Rightarrow> kget (\<lambda>s. p_pid (procs s q))))"

definition NPTENTRIES :: nat where "NPTENTRIES = 1024"

text \<open>The entries of the page tables that are present and for the user.\<close>

definition pgcnt :: "'a kvm_scheme \<Rightarrow> u32 \<Rightarrow> int" where
  "pgcnt s pgdir =
     foldl (\<lambda>cnt i.
       let pde = rd_pte s (pframe (V2P pgdir), i) in
       if pde AND PTE_P \<noteq> 0 then
         foldl (\<lambda>cnt j. if rd_pte s (pframe (PTE_ADDR pde), j) AND (PTE_P OR PTE_U) = (PTE_P OR PTE_U) then cnt + 1 else cnt)
           cnt [0..<NPTENTRIES]
       else cnt) 0 [0..<NPDENTRIES]"

definition sys_pgcnt :: "(int, 'a kernel_scheme) kop" where
  "sys_pgcnt = kbind myproc (\<lambda>p. kget (\<lambda>s. pgcnt s (p_pgdir (procs s p))))"

subsection \<open>The dispatcher\<close>

definition syscalls :: "u32 \<Rightarrow> nat \<Rightarrow> (int, 'a kernel_scheme) kop option" where
  "syscalls forkret_eip num =
     (if num = 1 then Some (sys_fork forkret_eip) else if num = 2 then Some sys_exit
      else if num = 3 then Some sys_wait else if num = 4 then Some sys_pipe
      else if num = 5 then Some sys_read else if num = 6 then Some sys_kill
      else if num = 7 then Some sys_exec else if num = 8 then Some sys_fstat
      else if num = 9 then Some sys_chdir else if num = 10 then Some sys_dup
      else if num = 11 then Some sys_getpid else if num = 12 then Some sys_sbrk
      else if num = 13 then Some sys_sleep else if num = 14 then Some sys_uptime
      else if num = 15 then Some sys_open else if num = 16 then Some sys_write
      else if num = 17 then Some sys_mknod else if num = 18 then Some sys_unlink
      else if num = 19 then Some sys_link else if num = 20 then Some sys_mkdir
      else if num = 21 then Some sys_close else if num = 22 then Some sys_trace
      else if num = 23 then Some sys_answer else if num = 24 then Some sys_getppid
      else if num = 25 then Some (kget sys_pscnt) else if num = 26 then Some sys_pgcnt
      else None)"

definition syscalls_names :: "nat \<Rightarrow> string" where
  "syscalls_names num =
     [[], ''sys_fork'', ''sys_exit'', ''sys_wait'', ''sys_pipe'', ''sys_read'', ''sys_kill'', ''sys_exec'', ''sys_fstat'',
      ''sys_chdir'', ''sys_dup'', ''sys_getpid'', ''sys_sbrk'', ''sys_sleep'', ''sys_uptime'', ''sys_open'', ''sys_write'',
      ''sys_mknod'', ''sys_unlink'', ''sys_link'', ''sys_mkdir'', ''sys_close'', ''sys_trace'', ''sys_answer'',
      ''sys_getppid'', ''sys_pscnt'', ''sys_pgcnt''] ! num"

text \<open>\<^verbatim>\<open>cprintf\<close> with at most one string, which stands at address 1.\<close>

definition message :: "string \<Rightarrow> string \<Rightarrow> u32 list \<Rightarrow> (unit, 'a kernel_scheme) kop" where
  "message fmt str args = cprintf (\<lambda>_. str) (Some (fmt @ [CHR 0x0A])) (\<lambda>k. if k < length args then args ! k else 0)"

definition set_eax :: "nat \<Rightarrow> u32 \<Rightarrow> (unit, 'a kernel_scheme) kop" where
  "set_eax p v = upd_proc p (p_tf_update (tf_eax_update (\<lambda>_. v)))"

definition syscall :: "u32 \<Rightarrow> (unit, 'a kernel_scheme) kop" where
  "syscall forkret_eip =
     kbind myproc (\<lambda>p.
     kbind (proc_of p) (\<lambda>x.
     let num = sint (tf_eax (p_tf x)) in
     case (if 0 < num \<and> num < 27 then syscalls forkret_eip (nat num) else None) of
       Some call \<Rightarrow>
         kbind call (\<lambda>r.
         kthen (set_eax p (of_int r)) (
         kbind (kget trace) (\<lambda>t.
         if 0 < sint t then message ''[%d] %s: %d'' (syscalls_names (nat num)) [of_int num, 1, of_int r] else kret ())))
     | None \<Rightarrow>
         kthen (message ''%d %s: unknown sys call %d'' (p_name x) [of_int (p_pid x), 1, of_int num])
           (set_eax p (-1))))"

subsection \<open>Traps\<close>

definition T_SYSCALL :: u32 where "T_SYSCALL = 64"
definition T_IRQ0 :: u32 where "T_IRQ0 = 32"
definition IRQ_TIMER :: u32 where "IRQ_TIMER = 0"
definition IRQ_KBD :: u32 where "IRQ_KBD = 1"
definition IRQ_COM1 :: u32 where "IRQ_COM1 = 4"
definition IRQ_IDE :: u32 where "IRQ_IDE = 14"
definition IRQ_SPURIOUS :: u32 where "IRQ_SPURIOUS = 31"

text \<open>Exit when the current process has been killed, under the condition \<open>c\<close> on where the trap came from.\<close>

definition exit_if_killed :: "bool \<Rightarrow> (unit, 'a kernel_scheme) kop" where
  "exit_if_killed c =
     kbind (kget (\<lambda>s. case curproc s of None \<Rightarrow> False | Some p \<Rightarrow> p_killed (procs s p))) (\<lambda>k.
     if k \<and> c then exit else kret ())"

definition tick :: "(unit, 'a kernel_scheme) kop" where
  "tick =
     kthen (acquire LTicks) (
     kthen (kmod (\<lambda>s. s\<lparr>ticks := ticks s + 1\<rparr>)) (
     kthen (wakeup ChTicks) (release LTicks)))"

definition trap_other :: "nat \<Rightarrow> u32 \<Rightarrow> trapframe \<Rightarrow> (unit, 'a kernel_scheme) kop" where
  "trap_other cpuid cr2 tf =
     kbind (kget curproc) (\<lambda>cp. case cp of
       None \<Rightarrow> kthen (message ''unexpected trap %d from cpu %d eip %x (cr2=0x%x)'' [] [tf_trapno tf, of_nat cpuid, tf_eip tf, cr2]) (kpanic ''trap'')
     | Some p \<Rightarrow>
         if tf_cs tf AND 3 = 0 then
           kthen (message ''unexpected trap %d from cpu %d eip %x (cr2=0x%x)'' [] [tf_trapno tf, of_nat cpuid, tf_eip tf, cr2]) (kpanic ''trap'')
         else
           kbind (proc_of p) (\<lambda>x.
           kthen (message ''pid %d %s: trap %d err %d on cpu %d eip 0x%x addr 0x%x--kill proc'' (p_name x)
                    [of_int (p_pid x), 1, tf_trapno tf, tf_err tf, of_nat cpuid, tf_eip tf, cr2])
             (upd_proc p (p_killed_update (\<lambda>_. True)))))"

definition trap_dispatch :: "nat \<Rightarrow> u32 \<Rightarrow> nat list \<Rightarrow> trapframe \<Rightarrow> (unit, 'a kernel_scheme) kop" where
  "trap_dispatch cpuid cr2 input tf =
     (let no = tf_trapno tf in
      if no = T_IRQ0 + IRQ_TIMER then if cpuid = 0 then tick else kret ()
      else if no = T_IRQ0 + IRQ_IDE then kret ()
      else if no = T_IRQ0 + IRQ_IDE + 1 then kret ()
      else if no = T_IRQ0 + IRQ_KBD \<or> no = T_IRQ0 + IRQ_COM1 then consoleintr input
      else if no = T_IRQ0 + 7 \<or> no = T_IRQ0 + IRQ_SPURIOUS then
        message ''cpu%d: spurious interrupt at %x:%x'' [] [of_nat cpuid, ucast (tf_cs tf), tf_eip tf]
      else trap_other cpuid cr2 tf)"

text \<open>After the handler: exit, give up the processor on a clock tick, exit.\<close>

definition trap_tail :: "trapframe \<Rightarrow> (unit, 'a kernel_scheme) kop" where
  "trap_tail tf =
     kthen (exit_if_killed (tf_cs tf AND 3 = DPL_USER)) (
     kthen (kbind (kget (\<lambda>s. case curproc s of None \<Rightarrow> False | Some p \<Rightarrow> p_state (procs s p) = RUNNING)) (\<lambda>r.
              if r \<and> tf_trapno tf = T_IRQ0 + IRQ_TIMER then yield else kret ()))
       (exit_if_killed (tf_cs tf AND 3 = DPL_USER)))"

definition trap :: "u32 \<Rightarrow> nat \<Rightarrow> u32 \<Rightarrow> nat list \<Rightarrow> trapframe \<Rightarrow> (unit, 'a kernel_scheme) kop" where
  "trap forkret_eip cpuid cr2 input tf =
     (if tf_trapno tf = T_SYSCALL then
        kbind myproc (\<lambda>p.
        kthen (exit_if_killed True) (
        kthen (upd_proc p (p_tf_update (\<lambda>_. tf))) (
        kthen (syscall forkret_eip) (exit_if_killed True))))
      else kthen (trap_dispatch cpuid cr2 input tf) (trap_tail tf))"

end
