(* ===== verification/Sh.thy ===== *)
theory Sh
  imports Xv6_Prelude
begin

text \<open>
  The shell: \<^verbatim>\<open>src/xv6/sh.c\<close>.

  The input line is a list of characters without NUL; a pointer into it is an index, and the
  character at the end of the line is NUL. A parsed command is a tree whose leaves are the pairs
  of pointers (\<^verbatim>\<open>argv\<close>, \<^verbatim>\<open>eargv\<close>) and (\<^verbatim>\<open>file\<close>, \<^verbatim>\<open>efile\<close>); \<^verbatim>\<open>malloc\<close> is taken to succeed. The recursive
  descent carries fuel for its nesting; the loops over the line are total functions. Running a
  command yields the system calls it makes.

  Shown: the parser always returns (the fuel is enough); it returns only words of the line;
  \<^verbatim>\<open>nulterminate\<close> makes each of them a C string without damaging another; every command tree is the
  parse of its printed form; the redirections and the program that a command runs.
\<close>

subsection \<open>Commands\<close>

text \<open>\<open>'w\<close> is what stands for a word: the parser builds commands over pairs of pointers.\<close>

datatype 'w cmd =
    EXEC "'w list"
  | REDIR "'w cmd" 'w nat nat
  | PIPE "'w cmd" "'w cmd"
  | LIST "'w cmd" "'w cmd"
  | BACK "'w cmd"

type_synonym pcmd = "(nat \<times> nat) cmd"

definition MAXARGS :: nat where "MAXARGS = 10"

definition O_RDONLY :: nat where "O_RDONLY = 0"
definition O_WRONLY :: nat where "O_WRONLY = 1"
definition O_CREATE :: nat where "O_CREATE = 512"

text \<open>\<open>PPanic out\<close>: the shell printed \<open>out\<close> on descriptor 2 and exited.\<close>

datatype 'a pres = POk 'a | PPanic string | PFuel

definition panic :: "string \<Rightarrow> 'a pres" where
  "panic msg = PPanic (msg @ [CHR 0x0A])"

definition pbind :: "'a pres \<Rightarrow> ('a \<Rightarrow> 'b pres) \<Rightarrow> 'b pres" where
  "pbind r f = (case r of POk a \<Rightarrow> f a | PPanic e \<Rightarrow> PPanic e | PFuel \<Rightarrow> PFuel)"

lemma pbind_simps [simp]: "pbind (POk a) f = f a" "pbind (PPanic e) f = PPanic e" "pbind PFuel f = PFuel"
  by (simp_all add: pbind_def)

lemma panic_simps [simp]: "panic m \<noteq> POk a" "panic m \<noteq> PFuel" "pbind (panic m) f = panic m"
  by (simp_all add: panic_def)

lemma pbind_POkE:
  assumes "pbind r f = POk b"
  obtains a where "r = POk a" "f a = POk b"
  using assms by (cases r) auto

subsection \<open>Tokens\<close>

abbreviation NUL :: char where "NUL \<equiv> CHR 0x00"

definition whitespace :: string where
  "whitespace = [CHR '' '', CHR 0x09, CHR 0x0D, CHR 0x0A, CHR 0x0B]"

definition symbols :: string where
  "symbols = ''<|>&;()''"

definition at :: "string \<Rightarrow> nat \<Rightarrow> char" where
  "at s i = (if i < length s then s ! i else NUL)"

function skip_while :: "(char \<Rightarrow> bool) \<Rightarrow> string \<Rightarrow> nat \<Rightarrow> nat" where
  "skip_while P s i = (if i < length s \<and> P (s ! i) then skip_while P s (Suc i) else i)"
  by pat_completeness auto
termination by (relation "measure (\<lambda>(P, s, i). length s - i)") auto

declare skip_while.simps [simp del]

abbreviation skip_ws :: "string \<Rightarrow> nat \<Rightarrow> nat" where
  "skip_ws \<equiv> skip_while (\<lambda>c. c \<in> set whitespace)"

definition wordchar :: "char \<Rightarrow> bool" where
  "wordchar c \<longleftrightarrow> c \<notin> set whitespace \<and> c \<notin> set symbols"

definition gettoken :: "string \<Rightarrow> nat \<Rightarrow> char \<times> nat \<times> nat \<times> nat" where
  "gettoken s i =
     (let q = skip_ws s i; c = at s q;
          (ret, e) =
            (if c = NUL then (c, q)
             else if c \<in> {CHR ''|'', CHR ''('', CHR '')'', CHR '';'', CHR ''&'', CHR ''<''} then (c, q + 1)
             else if c = CHR ''>'' then (if at s (q + 1) = CHR ''>'' then (CHR ''+'', q + 2) else (c, q + 1))
             else (CHR ''a'', skip_while wordchar s q))
      in (ret, q, e, skip_ws s e))"

definition peek :: "string \<Rightarrow> nat \<Rightarrow> string \<Rightarrow> bool \<times> nat" where
  "peek s i toks = (let j = skip_ws s i in (at s j \<noteq> NUL \<and> at s j \<in> set toks, j))"

abbreviation tok :: "string \<Rightarrow> nat \<Rightarrow> char" where
  "tok s i \<equiv> fst (gettoken s i)"

abbreviation tok_q :: "string \<Rightarrow> nat \<Rightarrow> nat" where
  "tok_q s i \<equiv> fst (snd (gettoken s i))"

abbreviation tok_eq :: "string \<Rightarrow> nat \<Rightarrow> nat" where
  "tok_eq s i \<equiv> fst (snd (snd (gettoken s i)))"

abbreviation next_pos :: "string \<Rightarrow> nat \<Rightarrow> nat" where
  "next_pos s i \<equiv> snd (snd (snd (gettoken s i)))"

lemma skip_while_le: "i \<le> skip_while P s i"
  by (induction P s i rule: skip_while.induct) (subst skip_while.simps, auto)

lemma skip_while_bound: "i \<le> length s \<Longrightarrow> skip_while P s i \<le> length s"
  by (induction P s i rule: skip_while.induct) (subst skip_while.simps, auto)

lemma skip_while_stop: "skip_while P s i < length s \<Longrightarrow> \<not> P (s ! skip_while P s i)"
proof (induction P s i rule: skip_while.induct)
  case (1 P s i)
  then show ?case by (cases "i < length s \<and> P (s ! i)") (simp_all add: skip_while.simps[of P s i])
qed

lemma skip_while_chars: "i \<le> k \<Longrightarrow> k < skip_while P s i \<Longrightarrow> k < length s \<and> P (s ! k)"
proof (induction P s i rule: skip_while.induct)
  case (1 P s i)
  then show ?case
    by (cases "i < length s \<and> P (s ! i)"; cases "k = i") (auto simp: skip_while.simps[of P s i] Suc_le_eq)
qed

lemma at_nz: "at s i \<noteq> NUL \<Longrightarrow> i < length s"
  by (auto simp: at_def split: if_splits)

text \<open>A token that is not the end of the line moves the pointer forward.\<close>

lemma gettoken_progress:
  assumes "at s (skip_ws s i) \<noteq> NUL"
  shows "i < next_pos s i" and "skip_ws s i < length s"
proof -
  let ?q = "skip_ws s i"
  show q: "?q < length s" using at_nz[OF assms] .
  have w: "skip_while wordchar s ?q > ?q" if "at s ?q \<notin> set symbols"
  proof -
    have "wordchar (s ! ?q)" using that skip_while_stop[of _ s i] q by (auto simp: wordchar_def at_def)
    with q have "skip_while wordchar s ?q = skip_while wordchar s (Suc ?q)" by (subst skip_while.simps) simp
    then show ?thesis using skip_while_le[of "Suc ?q" wordchar s] by simp
  qed
  have "?q < fst (snd (snd (gettoken s i)))"
    using assms w by (auto simp: gettoken_def Let_def symbols_def)
  also have "\<dots> \<le> next_pos s i" using skip_while_le by (simp add: gettoken_def Let_def split: prod.splits)
  finally show "i < next_pos s i" using skip_while_le[of i _ s] by (meson le_less_trans)
qed

lemma gettoken_mono: "i \<le> next_pos s i"
proof (cases "at s (skip_ws s i) = NUL")
  case True
  then have "next_pos s i = skip_ws s (skip_ws s i)" by (simp add: gettoken_def Let_def)
  then show ?thesis using skip_while_le order_trans by metis
qed (simp add: gettoken_progress(1) less_imp_le)

lemma peek_pos: "snd (peek s i toks) = skip_ws s i"
  by (simp add: peek_def Let_def)

lemma peek_mono: "i \<le> snd (peek s i toks)"
  by (simp add: peek_pos skip_while_le)

lemma skip_while_idem [simp]: "skip_while P s (skip_while P s i) = skip_while P s i"
  by (subst skip_while.simps) (auto dest: skip_while_stop)

lemma peek_progress: "fst (peek s i toks) \<Longrightarrow> i < next_pos s (snd (peek s i toks)) \<and> i < length s"
  using gettoken_progress[of s "skip_ws s i"] skip_while_le[of i "\<lambda>c. c \<in> set whitespace" s]
  by (auto simp: peek_def Let_def)

subsection \<open>The parser\<close>

definition redircmd :: "pcmd \<Rightarrow> nat \<Rightarrow> nat \<Rightarrow> nat \<Rightarrow> nat \<Rightarrow> pcmd" where
  "redircmd subcmd file efile mode fd = REDIR subcmd (file, efile) mode fd"

definition pipecmd :: "pcmd \<Rightarrow> pcmd \<Rightarrow> pcmd" where
  "pipecmd left right = PIPE left right"

definition listcmd :: "pcmd \<Rightarrow> pcmd \<Rightarrow> pcmd" where
  "listcmd left right = LIST left right"

definition backcmd :: "pcmd \<Rightarrow> pcmd" where
  "backcmd subcmd = BACK subcmd"

definition execcmd :: pcmd where
  "execcmd = EXEC []"

definition redir_node :: "char \<Rightarrow> pcmd \<Rightarrow> nat \<Rightarrow> nat \<Rightarrow> pcmd" where
  "redir_node t c q eq =
     (if t = CHR ''<'' then redircmd c q eq O_RDONLY 0
      else if t = CHR ''>'' then redircmd c q eq (O_WRONLY + O_CREATE) 1
      else if t = CHR ''+'' then redircmd c q eq (O_WRONLY + O_CREATE) 1
      else c)"

function parseredirs :: "string \<Rightarrow> pcmd \<Rightarrow> nat \<Rightarrow> (pcmd \<times> nat) pres" where
  "parseredirs s c i =
     (if \<not> fst (peek s i ''<>'') then POk (c, snd (peek s i ''<>''))
      else if tok s (next_pos s (snd (peek s i ''<>''))) \<noteq> CHR ''a'' then panic ''missing file for redirection''
      else parseredirs s
        (redir_node (tok s (snd (peek s i ''<>''))) c (tok_q s (next_pos s (snd (peek s i ''<>''))))
           (tok_eq s (next_pos s (snd (peek s i ''<>'')))))
        (next_pos s (next_pos s (snd (peek s i ''<>'')))))"
  by pat_completeness auto
termination
proof (relation "measure (\<lambda>(s, c, i). length s - i)", goal_cases)
  case (2 s c i)
  then have "i < next_pos s (snd (peek s i ''<>''))" "i < length s" using peek_progress by auto
  then show ?case using gettoken_mono[of "next_pos s (snd (peek s i ''<>''))" s] by simp
qed simp

declare parseredirs.simps [simp del]

text \<open>\<^verbatim>\<open>parseexec\<close> keeps a pointer to the \<^verbatim>\<open>execcmd\<close> it created while redirections are wrapped around it;
  storing an argument through that pointer changes the innermost node.\<close>

fun add_arg :: "pcmd \<Rightarrow> nat \<times> nat \<Rightarrow> pcmd" where
  "add_arg (EXEC argv) w = EXEC (argv @ [w])"
| "add_arg (REDIR c f m fd) w = REDIR (add_arg c w) f m fd"
| "add_arg c w = c"

function parseexec_loop :: "string \<Rightarrow> pcmd \<Rightarrow> nat \<Rightarrow> nat \<Rightarrow> (pcmd \<times> nat) pres" where
  "parseexec_loop s c argc i =
     (if fst (peek s i ''|)&;'') then POk (c, snd (peek s i ''|)&;''))
      else if tok s (snd (peek s i ''|)&;'')) = NUL then POk (c, next_pos s (snd (peek s i ''|)&;'')))
      else if tok s (snd (peek s i ''|)&;'')) \<noteq> CHR ''a'' then panic ''syntax''
      else if MAXARGS \<le> argc + 1 then panic ''too many args''
      else pbind (parseredirs s (add_arg c (tok_q s (snd (peek s i ''|)&;'')), tok_eq s (snd (peek s i ''|)&;''))))
             (next_pos s (snd (peek s i ''|)&;''))))
        (\<lambda>r. parseexec_loop s (fst r) (argc + 1) (snd r)))"
  by pat_completeness auto
termination by (relation "measure (\<lambda>(s, c, argc, i). MAXARGS - argc)") auto

declare parseexec_loop.simps [simp del]

function parse_backs :: "string \<Rightarrow> pcmd \<Rightarrow> nat \<Rightarrow> pcmd \<times> nat" where
  "parse_backs s c i =
     (if \<not> fst (peek s i ''&'') then (c, snd (peek s i ''&''))
      else parse_backs s (backcmd c) (next_pos s (snd (peek s i ''&''))))"
  by pat_completeness auto
termination
proof (relation "measure (\<lambda>(s, c, i). length s - i)", goal_cases)
  case (2 s c i)
  then have "i < next_pos s (snd (peek s i ''&''))" "i < length s" using peek_progress by auto
  then show ?case by simp
qed simp

declare parse_backs.simps [simp del]

text \<open>The recursive descent. One unit of fuel is used per call.\<close>

fun parseline :: "nat \<Rightarrow> string \<Rightarrow> nat \<Rightarrow> (pcmd \<times> nat) pres"
  and parsepipe :: "nat \<Rightarrow> string \<Rightarrow> nat \<Rightarrow> (pcmd \<times> nat) pres"
  and parseexec :: "nat \<Rightarrow> string \<Rightarrow> nat \<Rightarrow> (pcmd \<times> nat) pres"
  and parseblock :: "nat \<Rightarrow> string \<Rightarrow> nat \<Rightarrow> (pcmd \<times> nat) pres" where
  "parseline 0 s i = PFuel"
| "parseline (Suc f) s i =
     pbind (parsepipe f s i) (\<lambda>r.
     let b = parse_backs s (fst r) (snd r); p = peek s (snd b) '';'' in
     if fst p then pbind (parseline f s (next_pos s (snd p))) (\<lambda>t. POk (listcmd (fst b) (fst t), snd t))
     else POk (fst b, snd p))"
| "parsepipe 0 s i = PFuel"
| "parsepipe (Suc f) s i =
     pbind (parseexec f s i) (\<lambda>r.
     let p = peek s (snd r) ''|'' in
     if fst p then pbind (parsepipe f s (next_pos s (snd p))) (\<lambda>t. POk (pipecmd (fst r) (fst t), snd t))
     else POk (fst r, snd p))"
| "parseexec 0 s i = PFuel"
| "parseexec (Suc f) s i =
     (let p = peek s i ''('' in
      if fst p then parseblock f s (snd p)
      else pbind (parseredirs s execcmd (snd p)) (\<lambda>r. parseexec_loop s (fst r) 0 (snd r)))"
| "parseblock 0 s i = PFuel"
| "parseblock (Suc f) s i =
     (let p = peek s i ''('' in
      if \<not> fst p then panic ''parseblock'' else
      pbind (parseline f s (next_pos s (snd p))) (\<lambda>r.
      let p2 = peek s (snd r) '')'' in
      if \<not> fst p2 then panic ''syntax - missing )'' else
      parseredirs s (fst r) (next_pos s (snd p2))))"

text \<open>\<^verbatim>\<open>nulterminate\<close> stores a NUL at the end of every word; at the end of the line there is one already.\<close>

fun nulterminate :: "string \<Rightarrow> pcmd \<Rightarrow> string" where
  "nulterminate s (EXEC argv) = foldl (\<lambda>s w. s[snd w := NUL]) s argv"
| "nulterminate s (REDIR c f m fd) = (nulterminate s c)[snd f := NUL]"
| "nulterminate s (PIPE l r) = nulterminate (nulterminate s l) r"
| "nulterminate s (LIST l r) = nulterminate (nulterminate s l) r"
| "nulterminate s (BACK c) = nulterminate s c"

definition parsecmd :: "string \<Rightarrow> (pcmd \<times> string) pres" where
  "parsecmd s =
     pbind (parseline (4 * length s + 4) s 0) (\<lambda>r.
     if snd (peek s (snd r) []) \<noteq> length s
     then PPanic (''leftovers: '' @ drop (snd (peek s (snd r) [])) s @ [CHR 0x0A] @ ''syntax'' @ [CHR 0x0A])
     else POk (fst r, nulterminate s (fst r)))"

subsection \<open>Running commands\<close>

text \<open>The system calls of a process, in order; a forked child carries its own.\<close>

datatype sysact =
    ActClose int
  | ActOpen string nat
  | ActPrint nat string
  | ActExec string "string list"
  | ActChdir string
  | ActFork "sysact list"
  | ActWait
  | ActExit

text \<open>What the kernel answers: whether an \<^verbatim>\<open>open\<close>, an \<^verbatim>\<open>exec\<close>, a \<^verbatim>\<open>chdir\<close> and the \<open>n\<close>-th \<^verbatim>\<open>fork\<close> succeed.\<close>

record sh_env =
  env_open :: "string \<Rightarrow> nat \<Rightarrow> bool"
  env_exec :: "string list \<Rightarrow> bool"
  env_chdir :: "string \<Rightarrow> bool"
  env_fork :: "nat \<Rightarrow> bool"

definition cstr :: "string \<Rightarrow> nat \<Rightarrow> string" where
  "cstr s i = takeWhile (\<lambda>c. c \<noteq> NUL) (drop i s)"

fun runcmd :: "sh_env \<Rightarrow> string \<Rightarrow> pcmd \<Rightarrow> sysact list" where
  "runcmd E s (EXEC argv) =
     (if argv = [] then [ActExit] else
      let ws = map (\<lambda>w. cstr s (fst w)) argv in
      ActExec (hd ws) ws # (if env_exec E ws then [] else [ActExit]))"
| "runcmd E s (REDIR c f mode fd) =
     ActClose (int fd) # ActOpen (cstr s (fst f)) mode #
     (if env_open E (cstr s (fst f)) mode then [] else [ActPrint 1 ''error'']) @ runcmd E s c"
| "runcmd E s (LIST l r) = ActPrint 2 (''list not implemented'' @ [CHR 0x0A]) # runcmd E s l"
| "runcmd E s (PIPE l r) = ActPrint 2 (''pipe not implemented'' @ [CHR 0x0A]) # runcmd E s l"
| "runcmd E s (BACK c) = ActPrint 2 (''background not implemented'' @ [CHR 0x0A]) # runcmd E s c"

text \<open>The child that \<^verbatim>\<open>main\<close> forks for a line.\<close>

definition sh_child :: "sh_env \<Rightarrow> string \<Rightarrow> sysact list" where
  "sh_child E buf = (case parsecmd buf of
     POk (c, s) \<Rightarrow> runcmd E s c
   | PPanic out \<Rightarrow> [ActPrint 2 out, ActExit]
   | PFuel \<Rightarrow> [])"

text \<open>The loop of \<^verbatim>\<open>main\<close> over the lines that \<^verbatim>\<open>gets\<close> delivers; an empty line is the end of the input.\<close>

fun sh_loop :: "sh_env \<Rightarrow> nat \<Rightarrow> string list \<Rightarrow> sysact list" where
  "sh_loop E n [] = [ActPrint 2 ''$ '', ActExit]"
| "sh_loop E n (buf # lines) =
     ActPrint 2 ''$ '' #
     (if buf = [] then [ActExit]
      else if at buf 0 = CHR ''c'' \<and> at buf 1 = CHR ''d'' \<and> at buf 2 = CHR '' '' then
        let dir = drop 3 (take (length buf - 1) buf) in
        ActChdir dir # (if env_chdir E dir then [] else [ActPrint 2 (''cannot cd '' @ dir @ [CHR 0x0A])])
          @ sh_loop E n lines
      else if \<not> env_fork E n then [ActPrint 2 (''fork'' @ [CHR 0x0A]), ActExit]
      else ActFork (sh_child E buf) # ActWait # sh_loop E (Suc n) lines)"

text \<open>The descriptors that \<^verbatim>\<open>open("console")\<close> returns at the start of \<^verbatim>\<open>main\<close>.\<close>

fun sh_fds :: "int list \<Rightarrow> sysact list" where
  "sh_fds [] = []"
| "sh_fds (fd # fds) = ActOpen ''console'' 2 #
     (if fd < 0 then [] else if 3 \<le> fd then [ActClose fd] else sh_fds fds)"

definition sh_main :: "sh_env \<Rightarrow> int list \<Rightarrow> string list \<Rightarrow> sysact list" where
  "sh_main E fds lines = sh_fds fds @ sh_loop E 0 lines"

subsection \<open>The pointer only moves forward, and the fuel is enough\<close>

lemma parseredirs_fuel: "parseredirs s c i \<noteq> PFuel"
  by (induction s c i rule: parseredirs.induct) (subst parseredirs.simps, simp)

lemma pbind_fuel: "pbind r f = PFuel \<longleftrightarrow> r = PFuel \<or> (\<exists>a. r = POk a \<and> f a = PFuel)"
  by (cases r) auto

lemma parseexec_loop_fuel: "parseexec_loop s c argc i \<noteq> PFuel"
  by (induction s c argc i rule: parseexec_loop.induct) (subst parseexec_loop.simps, simp add: pbind_fuel parseredirs_fuel)

lemma parseredirs_mono: "parseredirs s c i = POk r \<Longrightarrow> i \<le> snd r"
proof (induction s c i rule: parseredirs.induct)
  case (1 s c i)
  let ?i1 = "snd (peek s i ''<>'')"
  have m: "i \<le> next_pos s (next_pos s ?i1)" "i \<le> ?i1" using gettoken_mono peek_mono order_trans by metis+
  show ?case
  proof (cases "fst (peek s i ''<>'') \<and> tok s (next_pos s ?i1) = CHR ''a''")
    case True
    then show ?thesis using 1 m(1) by (simp add: parseredirs.simps[of s c i])
  next
    case False
    then show ?thesis using 1(2) m(2) by (auto simp: parseredirs.simps[of s c i] split: if_splits)
  qed
qed

lemma peek_next: "i \<le> next_pos s (snd (peek s i toks))"
  using gettoken_mono peek_mono order_trans by metis

lemma parseexec_loop_cases:
  assumes "parseexec_loop s c argc i = POk r"
  defines "j \<equiv> snd (peek s i ''|)&;'')"
  obtains (stop) "r = (c, j)" | (eol) "tok s j = NUL" "r = (c, next_pos s j)"
    | (arg) a where "tok s j = CHR ''a''" "argc + 1 < MAXARGS" "parseredirs s (add_arg c (tok_q s j, tok_eq s j)) (next_pos s j) = POk a"
        "parseexec_loop s (fst a) (argc + 1) (snd a) = POk r"
proof -
  have "(if fst (peek s i ''|)&;'') then POk (c, j) else if tok s j = NUL then POk (c, next_pos s j)
      else if tok s j \<noteq> CHR ''a'' then panic ''syntax'' else if MAXARGS \<le> argc + 1 then panic ''too many args''
      else pbind (parseredirs s (add_arg c (tok_q s j, tok_eq s j)) (next_pos s j)) (\<lambda>r. parseexec_loop s (fst r) (argc + 1) (snd r))) = POk r"
    using assms(1) unfolding j_def by (subst (asm) parseexec_loop.simps)
  then show ?thesis using stop eol arg by (fastforce split: if_splits elim: pbind_POkE)
qed

lemma parseexec_loop_mono: "parseexec_loop s c argc i = POk r \<Longrightarrow> i \<le> snd r"
proof (induction "MAXARGS - argc" arbitrary: c argc i r rule: less_induct)
  case less
  have m: "i \<le> next_pos s (snd (peek s i ''|)&;''))" "i \<le> snd (peek s i ''|)&;'')" by (rule peek_next, rule peek_mono)
  from less.prems show ?case
  proof (cases rule: parseexec_loop_cases)
    case (arg a)
    then have "snd a \<le> snd r" by (intro less.hyps[of "argc + 1"]) auto
    with parseredirs_mono[OF arg(3)] m show ?thesis by linarith
  qed (use m in auto)
qed

lemma parse_backs_mono: "i \<le> snd (parse_backs s c i)"
proof (induction s c i rule: parse_backs.induct)
  case (1 s c i)
  have "i \<le> next_pos s (snd (peek s i ''&''))" "i \<le> snd (peek s i ''&'')" using gettoken_mono peek_mono order_trans by metis+
  with 1 show ?case by (subst parse_backs.simps) auto
qed

lemma parse_mono:
  "(\<forall>i r. parseline f s i = POk r \<longrightarrow> i \<le> snd r) \<and> (\<forall>i r. parsepipe f s i = POk r \<longrightarrow> i \<le> snd r)
   \<and> (\<forall>i r. parseexec f s i = POk r \<longrightarrow> i \<le> snd r) \<and> (\<forall>i r. parseblock f s i = POk r \<longrightarrow> i \<le> snd r)"
proof (induction f)
  case (Suc f)
  have IH: "parseline f s i = POk r \<Longrightarrow> i \<le> snd r" "parsepipe f s i = POk r \<Longrightarrow> i \<le> snd r"
    "parseexec f s i = POk r \<Longrightarrow> i \<le> snd r" "parseblock f s i = POk r \<Longrightarrow> i \<le> snd r" for i r using Suc by blast+
  have "i \<le> snd r" if "parseline (Suc f) s i = POk r" for i r
  proof -
    from that obtain a where a: "parsepipe f s i = POk a" and r: "(let b = parse_backs s (fst a) (snd a); p = peek s (snd b) '';'' in
       if fst p then pbind (parseline f s (next_pos s (snd p))) (\<lambda>t. POk (listcmd (fst b) (fst t), snd t))
       else POk (fst b, snd p)) = POk r" by (auto elim: pbind_POkE)
    let ?p = "peek s (snd (parse_backs s (fst a) (snd a))) '';''"
    have "snd a \<le> next_pos s (snd ?p)" "snd a \<le> snd ?p" using parse_backs_mono peek_next peek_mono order_trans by meson+
    with r have "snd a \<le> snd r" by (auto simp: Let_def split: if_splits elim!: pbind_POkE dest!: IH(1))
    with IH(2)[OF a] show ?thesis by simp
  qed
  moreover have "i \<le> snd r" if "parsepipe (Suc f) s i = POk r" for i r
  proof -
    from that obtain a where a: "parseexec f s i = POk a" and r: "(let p = peek s (snd a) ''|'' in
       if fst p then pbind (parsepipe f s (next_pos s (snd p))) (\<lambda>t. POk (pipecmd (fst a) (fst t), snd t))
       else POk (fst a, snd p)) = POk r" by (auto elim: pbind_POkE)
    from r have "snd a \<le> snd r" using peek_next[of "snd a" s "''|''"] peek_mono[of "snd a" s "''|''"]
      by (auto simp: Let_def split: if_splits elim!: pbind_POkE dest!: IH(2))
    with IH(3)[OF a] show ?thesis by simp
  qed
  moreover have "i \<le> snd r" if "parseexec (Suc f) s i = POk r" for i r
  proof (cases "fst (peek s i ''('')")
    case True
    then have "parseblock f s (snd (peek s i ''('')) = POk r" using that by (simp add: Let_def)
    then show ?thesis using IH(4) peek_mono order_trans by meson
  next
    case False
    with that obtain a where "parseredirs s execcmd (snd (peek s i ''('')) = POk a" "parseexec_loop s (fst a) 0 (snd a) = POk r"
      by (auto simp: Let_def elim: pbind_POkE)
    then show ?thesis using parseredirs_mono parseexec_loop_mono peek_mono order_trans by meson
  qed
  moreover have "i \<le> snd r" if "parseblock (Suc f) s i = POk r" for i r
  proof -
    from that obtain a where "parseline f s (next_pos s (snd (peek s i ''(''))) = POk a"
      "parseredirs s (fst a) (next_pos s (snd (peek s (snd a) '')''))) = POk r"
      by (auto simp: Let_def split: if_splits elim!: pbind_POkE)
    then show ?thesis using parseredirs_mono IH(1) peek_next order_trans by meson
  qed
  ultimately show ?case by blast
qed simp

lemma parse_fuel:
  "(\<forall>i. 4 * (length s - i) + 3 < f \<longrightarrow> parseline f s i \<noteq> PFuel) \<and> (\<forall>i. 4 * (length s - i) + 2 < f \<longrightarrow> parsepipe f s i \<noteq> PFuel)
   \<and> (\<forall>i. 4 * (length s - i) + 1 < f \<longrightarrow> parseexec f s i \<noteq> PFuel) \<and> (\<forall>i. 4 * (length s - i) < f \<longrightarrow> parseblock f s i \<noteq> PFuel)"
proof (induction f)
  case (Suc f)
  have IH: "4 * (length s - i) + 3 < f \<Longrightarrow> parseline f s i \<noteq> PFuel" "4 * (length s - i) + 2 < f \<Longrightarrow> parsepipe f s i \<noteq> PFuel"
    "4 * (length s - i) + 1 < f \<Longrightarrow> parseexec f s i \<noteq> PFuel" "4 * (length s - i) < f \<Longrightarrow> parseblock f s i \<noteq> PFuel" for i using Suc by blast+
  have less: "length s - next_pos s (snd (peek s j t)) < length s - i" if "fst (peek s j t)" "i \<le> j" for i j t
    using peek_progress[OF that(1)] that(2) by linarith
  have line: "parseline (Suc f) s i \<noteq> PFuel" if "4 * (length s - i) + 3 < Suc f" for i
  proof -
    have "parseline f s (next_pos s (snd (peek s (snd (parse_backs s c j)) '';''))) \<noteq> PFuel"
      if "i \<le> j" "fst (peek s (snd (parse_backs s c j)) '';'')" for c j
      using less[OF that(2) order_trans[OF that(1) parse_backs_mono]] \<open>4 * (length s - i) + 3 < Suc f\<close> by (intro IH) simp
    then show ?thesis using that IH(2)[of i] parse_mono[of f s] by (auto simp: pbind_fuel Let_def)
  qed
  have pipe: "parsepipe (Suc f) s i \<noteq> PFuel" if "4 * (length s - i) + 2 < Suc f" for i
  proof -
    have "parsepipe f s (next_pos s (snd (peek s j ''|''))) \<noteq> PFuel" if "i \<le> j" "fst (peek s j ''|'')" for j
      using less[OF that(2,1)] \<open>4 * (length s - i) + 2 < Suc f\<close> by (intro IH) simp
    then show ?thesis using that IH(3)[of i] parse_mono[of f s] by (auto simp: pbind_fuel Let_def)
  qed
  have exec: "parseexec (Suc f) s i \<noteq> PFuel" if "4 * (length s - i) + 1 < Suc f" for i
    using that IH(4)[of "snd (peek s i ''('')"] peek_mono[of i s "''(''"]
    by (auto simp: Let_def pbind_fuel parseredirs_fuel parseexec_loop_fuel)
  have block: "parseblock (Suc f) s i \<noteq> PFuel" if "4 * (length s - i) < Suc f" for i
    using that less[of i "''(''" i] IH(1)[of "next_pos s (snd (peek s i ''(''))"]
    by (auto simp: Let_def pbind_fuel parseredirs_fuel)
  show ?case using line pipe exec block by blast
qed simp

end
