(* ===== verification/Sh_Props.thy ===== *)
theory Sh_Props
  imports Sh
begin

text \<open>
  The theorems about the shell of \<^theory_text>\<open>Sh\<close>: the parser returns on every line; the pointers
  in its result delimit words of the line, which \<^verbatim>\<open>nulterminate\<close> turns into C strings; parsing undoes
  printing; what \<^verbatim>\<open>runcmd\<close> does with a command line.
\<close>

subsection \<open>Words of the line\<close>

fun word_at :: "string \<Rightarrow> nat \<times> nat \<Rightarrow> bool" where
  "word_at s (q, e) \<longleftrightarrow> q < e \<and> e \<le> length s \<and> (\<forall>k. q \<le> k \<and> k < e \<longrightarrow> wordchar (s ! k)) \<and> (e = length s \<or> \<not> wordchar (s ! e))"

fun words :: "'w cmd \<Rightarrow> 'w list" where
  "words (EXEC argv) = argv"
| "words (REDIR c f m fd) = words c @ [f]"
| "words (PIPE l r) = words l @ words r"
| "words (LIST l r) = words l @ words r"
| "words (BACK c) = words c"

abbreviation words_ok :: "string \<Rightarrow> pcmd \<Rightarrow> bool" where
  "words_ok s c \<equiv> \<forall>w\<in>set (words c). word_at s w"

lemma gettoken_word:
  assumes "tok s i = CHR ''a''"
  shows "word_at s (tok_q s i, tok_eq s i)"
proof -
  let ?q = "skip_ws s i"
  have c: "at s ?q \<noteq> NUL" "at s ?q \<notin> set symbols" "tok_q s i = ?q" "tok_eq s i = skip_while wordchar s ?q"
    using assms by (auto simp: gettoken_def Let_def symbols_def split: if_splits)
  have q: "?q < length s" using at_nz[OF c(1)] .
  have "wordchar (s ! ?q)" using c(2) skip_while_stop[of _ s i] q by (auto simp: wordchar_def at_def)
  with q have "skip_while wordchar s ?q = skip_while wordchar s (Suc ?q)" by (subst skip_while.simps) simp
  then have "?q < skip_while wordchar s ?q" using skip_while_le[of "Suc ?q" wordchar s] by simp
  then show ?thesis
    using c(3,4) skip_while_bound[of ?q s wordchar] q skip_while_chars[of ?q _ wordchar s] skip_while_stop[of wordchar s ?q]
    by (auto simp: le_less)
qed

lemma words_redir_node: "set (words (redir_node t c q e)) \<subseteq> insert (q, e) (set (words c))"
  by (simp add: redir_node_def redircmd_def subset_insertI)

lemma words_add_arg: "set (words (add_arg c w)) \<subseteq> insert w (set (words c))"
  by (induction c w rule: add_arg.induct) auto

lemma parseredirs_words: "parseredirs s c i = POk r \<Longrightarrow> words_ok s c \<Longrightarrow> words_ok s (fst r)"
proof (induction s c i rule: parseredirs.induct)
  case (1 s c i)
  let ?j = "next_pos s (snd (peek s i ''<>''))"
  show ?case
  proof (cases "fst (peek s i ''<>'') \<and> tok s ?j = CHR ''a''")
    case True
    then have "words_ok s (redir_node (tok s (snd (peek s i ''<>''))) c (tok_q s ?j) (tok_eq s ?j))"
      using words_redir_node[of _ c "tok_q s ?j" "tok_eq s ?j"] gettoken_word[of s ?j] 1(3) by blast
    then show ?thesis using 1 True by (simp add: parseredirs.simps[of s c i])
  next
    case False
    then show ?thesis using 1(2,3) by (auto simp: parseredirs.simps[of s c i] split: if_splits)
  qed
qed

lemma parseexec_loop_words: "parseexec_loop s c argc i = POk r \<Longrightarrow> words_ok s c \<Longrightarrow> words_ok s (fst r)"
proof (induction "MAXARGS - argc" arbitrary: c argc i r rule: less_induct)
  case less
  from less.prems(1) show ?case
  proof (cases rule: parseexec_loop_cases)
    case (arg a)
    have "words_ok s (fst a)"
      by (rule parseredirs_words[OF arg(3)]) (use words_add_arg gettoken_word[OF arg(1)] less.prems(2) in blast)
    then show ?thesis using arg by (intro less.hyps[of "argc + 1"]) auto
  qed (use less.prems(2) in auto)
qed

lemma parse_backs_words: "words (fst (parse_backs s c i)) = words c"
  by (induction s c i rule: parse_backs.induct) (subst parse_backs.simps, simp add: backcmd_def)

lemma parse_words:
  "(\<forall>i r. parseline f s i = POk r \<longrightarrow> words_ok s (fst r)) \<and> (\<forall>i r. parsepipe f s i = POk r \<longrightarrow> words_ok s (fst r))
   \<and> (\<forall>i r. parseexec f s i = POk r \<longrightarrow> words_ok s (fst r)) \<and> (\<forall>i r. parseblock f s i = POk r \<longrightarrow> words_ok s (fst r))"
proof (induction f)
  case (Suc f)
  have IH: "parseline f s i = POk r \<Longrightarrow> words_ok s (fst r)" "parsepipe f s i = POk r \<Longrightarrow> words_ok s (fst r)"
    "parseexec f s i = POk r \<Longrightarrow> words_ok s (fst r)" "parseblock f s i = POk r \<Longrightarrow> words_ok s (fst r)" for i r using Suc by blast+
  have "words_ok s (fst r)" if "parseline (Suc f) s i = POk r" for i r
    using that IH(1,2) by (fastforce simp: Let_def parse_backs_words listcmd_def split: if_splits elim!: pbind_POkE)
  moreover have "words_ok s (fst r)" if "parsepipe (Suc f) s i = POk r" for i r
    using that IH(2,3) by (fastforce simp: Let_def pipecmd_def split: if_splits elim!: pbind_POkE)
  moreover have "words_ok s (fst r)" if "parseexec (Suc f) s i = POk r" for i r
  proof (cases "fst (peek s i ''('')")
    case True
    then have "parseblock f s (snd (peek s i ''('')) = POk r" using that by (simp add: Let_def)
    then show ?thesis by (rule IH(4))
  next
    case False
    with that obtain a where a: "parseredirs s execcmd (snd (peek s i ''('')) = POk a" "parseexec_loop s (fst a) 0 (snd a) = POk r"
      by (auto simp: Let_def elim: pbind_POkE)
    show ?thesis by (rule parseexec_loop_words[OF a(2) parseredirs_words[OF a(1)]]) (simp add: execcmd_def)
  qed
  moreover have "words_ok s (fst r)" if "parseblock (Suc f) s i = POk r" for i r
  proof -
    from that obtain a where a: "parseline f s (next_pos s (snd (peek s i ''(''))) = POk a"
      "parseredirs s (fst a) (next_pos s (snd (peek s (snd a) '')''))) = POk r"
      by (auto simp: Let_def split: if_splits elim!: pbind_POkE)
    show ?thesis by (rule parseredirs_words[OF a(2) IH(1)[OF a(1)]])
  qed
  ultimately show ?case by blast
qed simp

subsection \<open>Termination of the words\<close>

definition zero_ends :: "string \<Rightarrow> (nat \<times> nat) list \<Rightarrow> string" where
  "zero_ends s ws = foldl (\<lambda>s w. s[snd w := NUL]) s ws"

lemma zero_ends_append [simp]: "zero_ends s (vs @ ws) = zero_ends (zero_ends s vs) ws"
  by (simp add: zero_ends_def)

lemma nulterminate_words: "nulterminate s c = zero_ends s (words c)"
  by (induction c arbitrary: s) (simp_all add: zero_ends_def)

lemma zero_ends_length [simp]: "length (zero_ends s ws) = length s"
  unfolding zero_ends_def by (induction ws arbitrary: s) simp_all

lemma zero_ends_nth: "k < length s \<Longrightarrow> zero_ends s ws ! k = (if k \<in> snd ` set ws then NUL else s ! k)"
proof (induction ws rule: rev_induct)
  case (snoc w ws)
  have "zero_ends s (ws @ [w]) = (zero_ends s ws)[snd w := NUL]" by (simp add: zero_ends_def)
  with snoc show ?case by (cases "snd w = k") auto
qed (simp add: zero_ends_def)

text \<open>The ends of words are no word characters, so no word is damaged.\<close>

lemma zero_ends_word:
  assumes ok: "\<forall>w\<in>set ws. word_at s w" and w: "(q, e) \<in> set ws" and nul: "NUL \<notin> set s"
  shows "cstr (zero_ends s ws) q = take (e - q) (drop q s)"
proof -
  have wa: "q < e" "e \<le> length s" "\<And>k. q \<le> k \<Longrightarrow> k < e \<Longrightarrow> wordchar (s ! k)" using ok w by auto
  have keep: "zero_ends s ws ! k = s ! k \<and> zero_ends s ws ! k \<noteq> NUL" if "q \<le> k" "k < e" for k
  proof -
    have k: "k < length s" using that wa(2) by simp
    have "k \<notin> snd ` set ws"
    proof
      assume "k \<in> snd ` set ws"
      then obtain p where "word_at s (p, k)" using ok by (metis imageE prod.collapse)
      then show False using k wa(3)[OF that] by auto
    qed
    moreover have "s ! k \<noteq> NUL" using nul nth_mem[OF k] by metis
    ultimately show ?thesis using k by (simp add: zero_ends_nth)
  qed
  have "drop q (zero_ends s ws) = take (e - q) (drop q s) @ drop e (zero_ends s ws)"
  proof -
    have "take (e - q) (drop q (zero_ends s ws)) = take (e - q) (drop q s)"
      using keep wa(1,2) by (intro nth_equalityI) auto
    then show ?thesis using append_take_drop_id[of "e - q" "drop q (zero_ends s ws)"] wa(1) by simp
  qed
  moreover have "c \<noteq> NUL" if "c \<in> set (take (e - q) (drop q s))" for c
    using that nul by (metis in_set_dropD in_set_takeD)
  moreover have "takeWhile (\<lambda>c. c \<noteq> NUL) (drop e (zero_ends s ws)) = []"
  proof (cases "e < length s")
    case True
    then have "zero_ends s ws ! e = NUL" using w by (force simp: zero_ends_nth)
    then show ?thesis using True by (simp add: Cons_nth_drop_Suc[symmetric])
  qed simp
  ultimately show ?thesis unfolding cstr_def by (simp add: takeWhile_append2)
qed

subsection \<open>Printing\<close>

definition redir_ok :: "nat \<Rightarrow> nat \<Rightarrow> bool" where
  "redir_ok m fd \<longleftrightarrow> m = O_RDONLY \<and> fd = 0 \<or> m = O_WRONLY + O_CREATE \<and> fd = 1"

definition is_word :: "string \<Rightarrow> bool" where
  "is_word w \<longleftrightarrow> w \<noteq> [] \<and> (\<forall>c\<in>set w. wordchar c \<and> c \<noteq> NUL)"

fun wf_cmd :: "string cmd \<Rightarrow> bool" where
  "wf_cmd (EXEC ws) \<longleftrightarrow> length ws < MAXARGS \<and> (\<forall>w\<in>set ws. is_word w)"
| "wf_cmd (REDIR c f m fd) \<longleftrightarrow> wf_cmd c \<and> is_word f \<and> redir_ok m fd"
| "wf_cmd (PIPE l r) \<longleftrightarrow> wf_cmd l \<and> wf_cmd r"
| "wf_cmd (LIST l r) \<longleftrightarrow> wf_cmd l \<and> wf_cmd r"
| "wf_cmd (BACK c) \<longleftrightarrow> wf_cmd c"

fun print_cmd :: "string cmd \<Rightarrow> string" where
  "print_cmd (EXEC ws) = concat (map (\<lambda>w. w @ '' '') ws)"
| "print_cmd (REDIR c f m fd) = ''('' @ print_cmd c @ '')'' @ (if fd = 0 then ''<'' else ''>'') @ f @ '' ''"
| "print_cmd (PIPE l r) = ''('' @ print_cmd l @ '')|('' @ print_cmd r @ '')''"
| "print_cmd (LIST l r) = ''('' @ print_cmd l @ '');('' @ print_cmd r @ '')''"
| "print_cmd (BACK c) = ''('' @ print_cmd c @ '')&''"

text \<open>\<open>see s i r\<close>: the pointer \<open>i\<close> is in the line and \<open>r\<close> is what follows.\<close>

definition see :: "string \<Rightarrow> nat \<Rightarrow> string \<Rightarrow> bool" where
  "see s i r \<longleftrightarrow> i \<le> length s \<and> drop i s = r"

lemma see_append:
  assumes "see s i (x @ r)"
  shows "see s (i + length x) r"
proof -
  have d: "i \<le> length s" "drop i s = x @ r" using assms by (simp_all add: see_def)
  have "drop (i + length x) s = drop (length x) (drop i s)" by (simp add: add.commute)
  moreover have "length s - i = length x + length r" using arg_cong[OF d(2), of length] by simp
  ultimately show ?thesis using d by (simp add: see_def)
qed

lemma see_Cons: "see s i (c # r) \<Longrightarrow> see s (Suc i) r \<and> i < length s \<and> s ! i = c \<and> at s i = c"
  using see_append[of s i "[c]" r] by (auto simp: see_def at_def) (metis nth_via_drop)+

lemma see_Nil: "see s i [] \<Longrightarrow> i = length s \<and> at s i = NUL"
  by (auto simp: see_def at_def)

definition solid :: "string \<Rightarrow> bool" where
  "solid r \<longleftrightarrow> r = [] \<or> hd r \<notin> set whitespace"

lemma skip_solid: "see s i r \<Longrightarrow> solid r \<Longrightarrow> skip_ws s i = i"
  by (cases r) (auto simp: solid_def skip_while.simps[of _ s i] dest!: see_Nil see_Cons)

lemma skip_space: "see s i (CHR '' '' # r) \<Longrightarrow> solid r \<Longrightarrow> skip_ws s i = Suc i"
  using skip_solid[of s "Suc i" r] see_Cons[of s i "CHR '' ''" r]
  by (subst skip_while.simps) (auto simp: whitespace_def)

lemma peek_solid: "see s i r \<Longrightarrow> solid r \<Longrightarrow> NUL \<notin> set toks \<Longrightarrow> peek s i toks = (r \<noteq> [] \<and> hd r \<in> set toks, i)"
  by (cases r) (auto simp: peek_def Let_def skip_solid dest!: see_Nil see_Cons)

lemma gettoken_symbol:
  assumes "see s i (c # r)" "c \<in> {CHR ''|'', CHR ''('', CHR '')'', CHR '';'', CHR ''&'', CHR ''<''}" "solid r"
  shows "gettoken s i = (c, i, Suc i, Suc i)"
proof -
  have "solid (c # r)" using assms(2) by (auto simp: solid_def whitespace_def)
  then have "skip_ws s i = i" "skip_ws s (Suc i) = Suc i" "at s i = c"
    using skip_solid assms see_Cons by blast+
  then show ?thesis using assms(2) by (auto simp: gettoken_def Let_def)
qed

lemma gettoken_gt:
  assumes "see s i (CHR ''>'' # r)" "r = [] \<or> hd r \<noteq> CHR ''>''" "solid r"
  shows "gettoken s i = (CHR ''>'', i, Suc i, Suc i)"
proof -
  have "solid (CHR ''>'' # r)" by (auto simp: solid_def whitespace_def)
  then have "skip_ws s i = i" "skip_ws s (Suc i) = Suc i" "at s i = CHR ''>''"
    using skip_solid assms see_Cons by blast+
  moreover have "at s (Suc i) \<noteq> CHR ''>''" using see_Cons[OF assms(1)] assms(2) by (cases r) (auto dest: see_Nil see_Cons)
  ultimately show ?thesis by (auto simp: gettoken_def Let_def)
qed

lemma skip_word: "see s i (w @ r) \<Longrightarrow> \<forall>c\<in>set w. wordchar c \<Longrightarrow> r = [] \<or> \<not> wordchar (hd r) \<Longrightarrow> skip_while wordchar s i = i + length w"
proof (induction w arbitrary: i)
  case Nil
  then show ?case by (cases r) (auto simp: skip_while.simps[of _ s i] dest!: see_Nil see_Cons)
next
  case (Cons c w)
  then have "see s (Suc i) (w @ r)" "i < length s" "s ! i = c" using see_Cons[of s i c "w @ r"] by auto
  with Cons show ?case by (subst skip_while.simps) auto
qed

lemma word_solid: "is_word w \<Longrightarrow> solid (w @ r) \<and> hd (w @ r) \<notin> set symbols"
  by (cases w) (auto simp: is_word_def solid_def wordchar_def)

lemma gettoken_print:
  assumes "see s i (w @ '' '' @ r)" "is_word w" "solid r"
  shows "gettoken s i = (CHR ''a'', i, i + length w, Suc (i + length w))"
proof -
  obtain c v where w: "w = c # v" "c \<noteq> NUL" "c \<notin> set symbols" using assms(2) by (cases w) (auto simp: is_word_def wordchar_def)
  have "skip_ws s i = i" using skip_solid[OF assms(1)] word_solid[OF assms(2)] by simp
  moreover have "at s i = c" using see_Cons[of s i c] assms(1) w by simp
  moreover have "skip_while wordchar s i = i + length w"
    using skip_word[OF assms(1)] assms(2) by (auto simp: is_word_def wordchar_def whitespace_def)
  moreover have "skip_ws s (i + length w) = Suc (i + length w)" using skip_space see_append[OF assms(1)] assms(3) by simp
  ultimately show ?thesis using w(2,3) by (auto simp: gettoken_def Let_def symbols_def)
qed

subsection \<open>Parsing what was printed\<close>

definition slice :: "string \<Rightarrow> nat \<times> nat \<Rightarrow> string" where
  "slice s w = take (snd w - fst w) (drop (fst w) s)"

lemma slice_see: "see s i (w @ r) \<Longrightarrow> slice s (i, i + length w) = w"
  by (simp add: slice_def see_def)

definition rest_ok :: "string \<Rightarrow> bool" where
  "rest_ok r \<longleftrightarrow> r = [] \<or> hd r = CHR '')''"

lemma rest_solid: "rest_ok r \<Longrightarrow> solid r"
  by (auto simp: rest_ok_def solid_def whitespace_def)

abbreviation print_words :: "string list \<Rightarrow> string" where
  "print_words ws \<equiv> concat (map (\<lambda>w. w @ '' '') ws)"

lemma print_words_head:
  assumes "\<forall>w\<in>set ws. is_word w" "rest_ok r"
  shows "solid (print_words ws @ r)"
    and "print_words ws @ r = [] \<or> hd (print_words ws @ r) \<notin> set ''<|>&;(''"
proof -
  have "solid (print_words ws @ r) \<and> (print_words ws @ r = [] \<or> hd (print_words ws @ r) \<notin> set ''<|>&;('')"
  proof (cases ws)
    case Nil
    then show ?thesis using assms(2) rest_solid[OF assms(2)] by (auto simp: rest_ok_def)
  next
    case (Cons w vs)
    define x where "x = '' '' @ print_words vs @ r"
    have e: "print_words ws @ r = w @ x" using Cons by (simp add: x_def)
    have "is_word w" using Cons assms(1) by simp
    note h = word_solid[OF this, of x]
    have "set ''<|>&;('' \<subseteq> set symbols" by (simp add: symbols_def)
    then show ?thesis unfolding e using h by blast
  qed
  then show "solid (print_words ws @ r)" and "print_words ws @ r = [] \<or> hd (print_words ws @ r) \<notin> set ''<|>&;(''" by blast+
qed

lemma parseredirs_none:
  assumes "see s i x" "solid x" "x = [] \<or> hd x \<notin> set ''<>''"
  shows "parseredirs s c i = POk (c, i)"
  using peek_solid[OF assms(1,2), of "''<>''"] assms(3) by (subst parseredirs.simps) auto

lemma gettoken_eol: "see s i [] \<Longrightarrow> gettoken s i = (NUL, i, i, i)"
  using skip_solid[of s i "[]"] see_Nil[of s i] by (simp add: gettoken_def Let_def solid_def at_def)

lemma parseexec_loop_print:
  assumes "see s i (print_words ws @ r)" "\<forall>w\<in>set ws. is_word w" "rest_ok r" "argc + length ws < MAXARGS"
  shows "\<exists>ps. parseexec_loop s (EXEC as) argc i = POk (EXEC (as @ ps), i + length (print_words ws)) \<and> map (slice s) ps = ws"
  using assms
proof (induction ws arbitrary: i argc as)
  case Nil
  then have r: "see s i r" "rest_ok r" by simp_all
  show ?case
  proof (cases r)
    case Nil
    with r have "gettoken s i = (NUL, i, i, i)" "peek s i ''|)&;'' = (False, i)"
      using gettoken_eol peek_solid[of s i "[]" "''|)&;''"] by (auto simp: solid_def)
    then show ?thesis by (subst parseexec_loop.simps) simp
  next
    case (Cons c r')
    with r have "peek s i ''|)&;'' = (True, i)" using peek_solid[OF r(1) rest_solid[OF r(2)], of "''|)&;''"] by (auto simp: rest_ok_def)
    then show ?thesis by (subst parseexec_loop.simps) simp
  qed
next
  case (Cons w ws)
  let ?x = "print_words ws @ r" and ?j = "Suc (i + length w)"
  have w: "is_word w" "\<forall>w\<in>set ws. is_word w" and x: "see s i (w @ '' '' @ ?x)" using Cons.prems by auto
  note h = print_words_head[OF w(2) Cons.prems(3)]
  have "hd (w @ '' '' @ ?x) \<notin> set ''|)&;''" using word_solid[OF w(1), of "'' '' @ ?x"] by (auto simp: symbols_def)
  then have p: "peek s i ''|)&;'' = (False, i)" using peek_solid[OF x, of "''|)&;''"] word_solid[OF w(1)] by auto
  have g: "gettoken s i = (CHR ''a'', i, i + length w, ?j)" by (rule gettoken_print[OF x w(1) h(1)])
  have j: "see s ?j ?x" using see_append[of s i "w @ '' ''" ?x] x by simp
  have n: "parseredirs s c ?j = POk (c, ?j)" for c using parseredirs_none[OF j h(1)] h(2) by auto
  obtain ps where ps: "parseexec_loop s (EXEC ((as @ [(i, i + length w)]) )) (argc + 1) ?j
      = POk (EXEC ((as @ [(i, i + length w)]) @ ps), ?j + length (print_words ws))" "map (slice s) ps = ws"
    using Cons.IH[OF j w(2) Cons.prems(3), of "argc + 1" "as @ [(i, i + length w)]"] Cons.prems(4) by auto
  have "parseexec_loop s (EXEC as) argc i = POk (EXEC (as @ (i, i + length w) # ps), ?j + length (print_words ws))"
    using Cons.prems(4) ps(1) by (subst parseexec_loop.simps) (simp add: p g n)
  moreover have "slice s (i, i + length w) = w" by (rule slice_see[OF x])
  ultimately show ?case using ps(2) by (intro exI[of _ "(i, i + length w) # ps"]) simp
qed

lemma print_cmd_head:
  assumes "wf_cmd c" "rest_ok r"
  shows "solid (print_cmd c @ r)"
  using assms print_words_head(1) by (cases c) (auto simp: solid_def whitespace_def)

lemma parseline_of_exec:
  assumes "parseexec f s i = POk (p, j)" "see s j r" "rest_ok r"
  shows "parseline (Suc (Suc f)) s i = POk (p, j)"
proof -
  have "peek s j t = (False, j)" if "CHR '')'' \<notin> set t" "NUL \<notin> set t" for t
    using peek_solid[OF assms(2) rest_solid[OF assms(3)] that(2)] that(1) assms(3) by (auto simp: rest_ok_def)
  then show ?thesis using assms(1) by (simp add: Let_def parse_backs.simps[of s p j])
qed

text \<open>The induction hypothesis of the round trip.\<close>

definition reads :: "string cmd \<Rightarrow> bool" where
  "reads c \<longleftrightarrow> (\<forall>f s i r. see s i (print_cmd c @ r) \<longrightarrow> rest_ok r \<longrightarrow> 4 * length (print_cmd c) + 3 \<le> f \<longrightarrow>
     (\<exists>p. parseline f s i = POk (p, i + length (print_cmd c)) \<and> map_cmd (slice s) p = c))"

lemma parseexec_group:
  assumes "see s i (''('' @ print_cmd c @ '')'' @ x)" "solid x" "reads c" "wf_cmd c" "4 * length (print_cmd c) + 5 \<le> f"
  shows "\<exists>p. parseexec f s i = parseredirs s p (i + length (print_cmd c) + 2) \<and> map_cmd (slice s) p = c \<and> see s (i + length (print_cmd c) + 2) x"
proof -
  define g where "g = f - 2"
  have f: "f = Suc (Suc g)" "4 * length (print_cmd c) + 3 \<le> g" using assms(5) by (simp_all add: g_def)
  have r: "rest_ok ('')'' @ x)" by (simp add: rest_ok_def)
  have 1: "see s (Suc i) (print_cmd c @ '')'' @ x)" using see_Cons[of s i] assms(1) by simp
  have op: "peek s i ''('' = (True, i)" using peek_solid[OF assms(1)] by (simp add: solid_def whitespace_def)
  have gt: "next_pos s i = Suc i" using gettoken_symbol[of s i "CHR ''(''"] assms(1) print_cmd_head[OF assms(4) r] by simp
  obtain p where p: "parseline g s (Suc i) = POk (p, Suc i + length (print_cmd c))" "map_cmd (slice s) p = c"
    using assms(3) 1 r f(2) unfolding reads_def by blast
  let ?j = "Suc i + length (print_cmd c)"
  have 2: "see s ?j ('')'' @ x)" by (rule see_append[OF 1])
  have close: "peek s ?j '')'' = (True, ?j)" using peek_solid[OF 2] by (simp add: solid_def whitespace_def)
  have gc: "next_pos s ?j = Suc ?j" using gettoken_symbol[of s ?j "CHR '')''" x] 2 assms(2) by simp
  have "see s (Suc ?j) x" using see_Cons[of s ?j] 2 by simp
  moreover have "parseexec f s i = parseredirs s p (Suc ?j)" unfolding f using op gt p(1) close gc by (simp add: Let_def)
  ultimately show ?thesis using p(2) by (intro exI[of _ p]) simp
qed

lemma reads_EXEC:
  assumes "wf_cmd (EXEC ws)"
  shows "reads (EXEC ws)"
  unfolding reads_def
proof (intro allI impI)
  fix f s i r
  assume a: "see s i (print_cmd (EXEC ws) @ r)" "rest_ok r" "4 * length (print_cmd (EXEC ws)) + 3 \<le> f"
  define g where "g = f - 3"
  have f: "f = Suc (Suc (Suc g))" using a(3) by (simp add: g_def)
  have w: "see s i (print_words ws @ r)" "\<forall>w\<in>set ws. is_word w" "0 + length ws < MAXARGS" using a(1) assms by simp_all
  note h = print_words_head[OF w(2) a(2)]
  obtain ps where ps: "parseexec_loop s (EXEC []) 0 i = POk (EXEC ps, i + length (print_words ws))" "map (slice s) ps = ws"
    using parseexec_loop_print[OF w(1,2) a(2) w(3), of "[]"] by auto
  have "peek s i ''('' = (False, i)" using peek_solid[OF w(1) h(1), of "''(''"] h(2) by auto
  moreover have "parseredirs s execcmd i = POk (EXEC [], i)" using parseredirs_none[OF w(1) h(1)] h(2) by (auto simp: execcmd_def)
  ultimately have "parseexec (Suc g) s i = POk (EXEC ps, i + length (print_words ws))" using ps(1) by (simp add: Let_def)
  then have "parseline f s i = POk (EXEC ps, i + length (print_words ws))"
    unfolding f by (rule parseline_of_exec[OF _ see_append[OF w(1)] a(2)])
  then show "\<exists>p. parseline f s i = POk (p, i + length (print_cmd (EXEC ws))) \<and> map_cmd (slice s) p = EXEC ws" using ps(2) by auto
qed

lemma parseredirs_one:
  assumes "see s i ((if fd = 0 then ''<'' else ''>'') @ f @ '' '' @ r)" "is_word f" "rest_ok r" "redir_ok m fd"
  shows "parseredirs s c i = POk (REDIR c (Suc i, Suc i + length f) m fd, i + length f + 2)"
proof -
  let ?t = "if fd = 0 then CHR ''<'' else CHR ''>''" and ?x = "f @ '' '' @ r"
  have 0: "see s i (?t # ?x)" using assms(1) by (simp split: if_splits)
  note w = word_solid[OF assms(2), of "'' '' @ r"]
  have 1: "see s (Suc i) ?x" using see_Cons[OF 0] by simp
  have g: "gettoken s i = (?t, i, Suc i, Suc i)"
    using gettoken_symbol[of s i "CHR ''<''" ?x] gettoken_gt[of s i ?x] 0 w by (auto simp: symbols_def split: if_splits)
  have g1: "gettoken s (Suc i) = (CHR ''a'', Suc i, Suc i + length f, Suc (Suc i + length f))"
    by (rule gettoken_print[OF 1 assms(2) rest_solid[OF assms(3)]])
  have p: "peek s i ''<>'' = (True, i)" using peek_solid[OF 0, of "''<>''"] by (auto simp: solid_def whitespace_def)
  have "see s (Suc (Suc i + length f)) r" using see_append[of s "Suc i" "f @ '' ''" r] 1 by simp
  then have n: "parseredirs s c' (Suc (Suc i + length f)) = POk (c', Suc (Suc i + length f))" for c'
    using parseredirs_none rest_solid assms(3) by (auto simp: rest_ok_def)
  have "redir_node ?t c (Suc i) (Suc i + length f) = REDIR c (Suc i, Suc i + length f) m fd"
    using assms(4) by (auto simp: redir_node_def redircmd_def redir_ok_def)
  then show ?thesis by (subst parseredirs.simps) (simp add: p g g1 n[simplified])
qed

lemma reads_REDIR:
  assumes "reads c" "wf_cmd (REDIR c f m fd)"
  shows "reads (REDIR c f m fd)"
  unfolding reads_def
proof (intro allI impI)
  fix fl s i r
  assume a: "see s i (print_cmd (REDIR c f m fd) @ r)" "rest_ok r" "4 * length (print_cmd (REDIR c f m fd)) + 3 \<le> fl"
  define g where "g = fl - 2"
  have fl: "fl = Suc (Suc g)" "4 * length (print_cmd c) + 5 \<le> g" using a(3) by (simp_all add: g_def)
  let ?x = "(if fd = 0 then ''<'' else ''>'') @ f @ '' '' @ r" and ?j = "i + length (print_cmd c) + 2"
  have s: "see s i (''('' @ print_cmd c @ '')'' @ ?x)" using a(1) by simp
  have x: "solid ?x" by (simp add: solid_def whitespace_def)
  obtain p where p: "parseexec g s i = parseredirs s p ?j" "map_cmd (slice s) p = c" "see s ?j ?x"
    using parseexec_group[OF s x assms(1) _ fl(2)] assms(2) by auto
  have w: "is_word f" "redir_ok m fd" using assms(2) by simp_all
  have "parseexec g s i = POk (REDIR p (Suc ?j, Suc ?j + length f) m fd, ?j + length f + 2)"
    using p(1) parseredirs_one[OF p(3) w(1) a(2) w(2)] by simp
  moreover have "see s (?j + length f + 2) r"
    using see_append[of s ?j "(if fd = 0 then ''<'' else ''>'') @ f @ '' ''" r] p(3) by (simp split: if_splits)
  ultimately have "parseline fl s i = POk (REDIR p (Suc ?j, Suc ?j + length f) m fd, ?j + length f + 2)"
    unfolding fl(1) by (rule parseline_of_exec[OF _ _ a(2)])
  moreover have "slice s (Suc ?j, Suc ?j + length f) = f"
    using see_append[of s ?j "if fd = 0 then ''<'' else ''>''"] p(3) slice_see by (fastforce split: if_splits)
  ultimately show "\<exists>q. parseline fl s i = POk (q, i + length (print_cmd (REDIR c f m fd))) \<and> map_cmd (slice s) q = REDIR c f m fd"
    using p(2) by (simp add: add.commute add.left_commute)
qed

text \<open>A parenthesised command that no redirection follows.\<close>

lemma parseexec_paren:
  assumes "see s i (''('' @ print_cmd c @ '')'' @ x)" "solid x" "x = [] \<or> hd x \<notin> set ''<>''" "reads c" "wf_cmd c"
    "4 * length (print_cmd c) + 5 \<le> f"
  shows "\<exists>p. parseexec f s i = POk (p, i + length (print_cmd c) + 2) \<and> map_cmd (slice s) p = c \<and> see s (i + length (print_cmd c) + 2) x"
proof -
  obtain p where p: "parseexec f s i = parseredirs s p (i + length (print_cmd c) + 2)" "map_cmd (slice s) p = c"
    "see s (i + length (print_cmd c) + 2) x" using parseexec_group[OF assms(1,2,4-6)] by blast
  then show ?thesis using parseredirs_none[OF p(3) assms(2,3)] by auto
qed

lemma rest_no_redir: "rest_ok r \<Longrightarrow> r = [] \<or> hd r \<notin> set ''<>''"
  by (auto simp: rest_ok_def)

lemma parsepipe_step:
  assumes "parseexec f s i = POk (p, j)" "peek s j ''|'' = (b, j)"
  shows "parsepipe (Suc f) s i = (if b then pbind (parsepipe f s (next_pos s j)) (\<lambda>t. POk (PIPE p (fst t), snd t)) else POk (p, j))"
  using assms by (simp add: Let_def pipecmd_def)

lemma parseline_step:
  assumes "parsepipe f s i = POk (p, j)" "parse_backs s p j = (q, k)" "peek s k '';'' = (b, k)"
  shows "parseline (Suc f) s i = (if b then pbind (parseline f s (next_pos s k)) (\<lambda>t. POk (LIST q (fst t), snd t)) else POk (q, k))"
  using assms by (simp add: Let_def listcmd_def)

lemma parse_backs_none: "peek s j ''&'' = (False, j) \<Longrightarrow> parse_backs s p j = (p, j)"
  by (subst parse_backs.simps) simp

lemma peek_rest: "see s k x \<Longrightarrow> rest_ok x \<Longrightarrow> CHR '')'' \<notin> set t \<Longrightarrow> NUL \<notin> set t \<Longrightarrow> peek s k t = (False, k)"
  using peek_solid[of s k x t] rest_solid[of x] by (auto simp: rest_ok_def)

lemma peek_symbol:
  assumes "see s j (c # x)" "c \<in> set symbols"
  shows "NUL \<notin> set t \<Longrightarrow> peek s j t = (c \<in> set t, j)"
    and "c \<in> set ''|();&<'' \<Longrightarrow> solid x \<Longrightarrow> next_pos s j = Suc j" and "see s (Suc j) x"
proof -
  have "solid (c # x)" using assms(2) by (auto simp: solid_def whitespace_def symbols_def)
  then show "NUL \<notin> set t \<Longrightarrow> peek s j t = (c \<in> set t, j)" using peek_solid[OF assms(1)] by simp
  show "c \<in> set ''|();&<'' \<Longrightarrow> solid x \<Longrightarrow> next_pos s j = Suc j" using gettoken_symbol[OF assms(1)] by simp
  show "see s (Suc j) x" using see_Cons[OF assms(1)] by simp
qed

text \<open>The two parenthesised commands of a pipe or a list with the symbol between them.\<close>

lemma parse_two:
  assumes "see s i (''('' @ print_cmd l @ '')'' @ c # ''('' @ print_cmd r @ '')'' @ x)" "rest_ok x" "c \<in> set ''|;''"
    "reads l" "reads r" "wf_cmd l" "wf_cmd r" "4 * length (print_cmd l) + 5 \<le> f" "4 * length (print_cmd r) + 5 \<le> g"
  obtains p q j where "parseexec f s i = POk (p, j)" "map_cmd (slice s) p = l"
    "parseexec g s (Suc j) = POk (q, i + length (print_cmd l) + length (print_cmd r) + 5)" "map_cmd (slice s) q = r"
    "see s (i + length (print_cmd l) + length (print_cmd r) + 5) x" "\<And>t. NUL \<notin> set t \<Longrightarrow> peek s j t = (c \<in> set t, j)" "next_pos s j = Suc j"
proof -
  let ?y = "c # ''('' @ print_cmd r @ '')'' @ x"
  have c: "c \<in> set symbols" "c \<in> set ''|();&<''" using assms(3) by (auto simp: symbols_def)
  have y: "solid ?y" "?y = [] \<or> hd ?y \<notin> set ''<>''" using assms(3) by (auto simp: solid_def whitespace_def)
  obtain p where p: "parseexec f s i = POk (p, i + length (print_cmd l) + 2)" "map_cmd (slice s) p = l"
    "see s (i + length (print_cmd l) + 2) ?y" using parseexec_paren[OF assms(1) y assms(4,6,8)] by blast
  note sy = peek_symbol[OF p(3) c(1)]
  obtain q where "parseexec g s (Suc (i + length (print_cmd l) + 2)) = POk (q, i + length (print_cmd l) + length (print_cmd r) + 5)"
    "map_cmd (slice s) q = r" "see s (i + length (print_cmd l) + length (print_cmd r) + 5) x"
    using parseexec_paren[OF sy(3) rest_solid[OF assms(2)] rest_no_redir[OF assms(2)] assms(5,7,9)] by (auto simp: eval_nat_numeral)
  moreover have "next_pos s (i + length (print_cmd l) + 2) = Suc (i + length (print_cmd l) + 2)"
    by (rule sy(2)[OF c(2)]) (simp add: solid_def whitespace_def)
  ultimately show ?thesis using that p sy(1) by blast
qed

lemma reads_PIPE:
  assumes "reads l" "reads r" "wf_cmd l" "wf_cmd r"
  shows "reads (PIPE l r)"
  unfolding reads_def
proof (intro allI impI)
  fix f s i x
  assume a: "see s i (print_cmd (PIPE l r) @ x)" "rest_ok x" "4 * length (print_cmd (PIPE l r)) + 3 \<le> f"
  define g k where "g = f - 3" and k: "k = i + length (print_cmd l) + length (print_cmd r) + 5"
  have f: "f = Suc (Suc (Suc g))" "4 * length (print_cmd l) + 5 \<le> Suc g" "4 * length (print_cmd r) + 5 \<le> g" using a(3) by (simp_all add: g_def)
  have "see s i (''('' @ print_cmd l @ '')'' @ CHR ''|'' # ''('' @ print_cmd r @ '')'' @ x)" using a(1) by simp
  then obtain p q j where t: "parseexec (Suc g) s i = POk (p, j)" "map_cmd (slice s) p = l" "parseexec g s (Suc j) = POk (q, k)"
    "map_cmd (slice s) q = r" "see s k x" "peek s j ''|'' = (True, j)" "next_pos s j = Suc j"
    by (rule parse_two[OF _ a(2) _ assms f(2,3)]) (auto simp: k)
  note no = peek_rest[OF t(5) a(2)]
  have "parsepipe (Suc g) s (Suc j) = POk (q, k)" using parsepipe_step[OF t(3) no] by simp
  then have "parsepipe (Suc (Suc g)) s i = POk (PIPE p q, k)" using parsepipe_step[OF t(1,6)] t(7) by (simp del: parsepipe.simps)
  then have "parseline f s i = POk (PIPE p q, k)" unfolding f using parseline_step[OF _ parse_backs_none[OF no] no] by simp
  then show "\<exists>p. parseline f s i = POk (p, i + length (print_cmd (PIPE l r))) \<and> map_cmd (slice s) p = PIPE l r"
    using t(2,4) by (simp add: k eval_nat_numeral)
qed

lemma reads_LIST:
  assumes "reads l" "reads r" "wf_cmd l" "wf_cmd r"
  shows "reads (LIST l r)"
  unfolding reads_def
proof (intro allI impI)
  fix f s i x
  assume a: "see s i (print_cmd (LIST l r) @ x)" "rest_ok x" "4 * length (print_cmd (LIST l r)) + 3 \<le> f"
  define g k where "g = f - 3" and k: "k = i + length (print_cmd l) + length (print_cmd r) + 5"
  have f: "f = Suc (Suc (Suc g))" "4 * length (print_cmd l) + 5 \<le> Suc g" "4 * length (print_cmd r) + 5 \<le> g" using a(3) by (simp_all add: g_def)
  have "see s i (''('' @ print_cmd l @ '')'' @ CHR '';'' # ''('' @ print_cmd r @ '')'' @ x)" using a(1) by simp
  then obtain p q j where t: "parseexec (Suc g) s i = POk (p, j)" "map_cmd (slice s) p = l" "parseexec g s (Suc j) = POk (q, k)"
    "map_cmd (slice s) q = r" "see s k x" "peek s j '';'' = (True, j)" "peek s j ''|'' = (False, j)" "peek s j ''&'' = (False, j)" "next_pos s j = Suc j"
    by (rule parse_two[OF _ a(2) _ assms f(2,3)]) (auto simp: k)
  have "parsepipe (Suc (Suc g)) s i = POk (p, j)" using parsepipe_step[OF t(1,7)] by simp
  from parseline_step[OF this parse_backs_none[OF t(8)] t(6)] parseline_of_exec[OF t(3,5) a(2)]
  have "parseline f s i = POk (LIST p q, k)" unfolding f t(9) by (simp del: parseline.simps)
  then show "\<exists>p. parseline f s i = POk (p, i + length (print_cmd (LIST l r))) \<and> map_cmd (slice s) p = LIST l r"
    using t(2,4) by (simp add: k eval_nat_numeral)
qed

lemma reads_BACK:
  assumes "reads c" "wf_cmd c"
  shows "reads (BACK c)"
  unfolding reads_def
proof (intro allI impI)
  fix f s i x
  assume a: "see s i (print_cmd (BACK c) @ x)" "rest_ok x" "4 * length (print_cmd (BACK c)) + 3 \<le> f"
  define g j where "g = f - 2" and j: "j = i + length (print_cmd c) + 2"
  have f: "f = Suc (Suc g)" "4 * length (print_cmd c) + 5 \<le> g" using a(3) by (simp_all add: g_def)
  have 1: "see s i (''('' @ print_cmd c @ '')'' @ CHR ''&'' # x)" using a(1) by simp
  obtain p where p: "parseexec g s i = POk (p, j)" "map_cmd (slice s) p = c" "see s j (CHR ''&'' # x)"
    using parseexec_paren[OF 1 _ _ assms f(2)] by (auto simp: solid_def whitespace_def j)
  have y: "CHR ''&'' \<in> set symbols" "CHR ''&'' \<in> set ''|();&<''" by (simp_all add: symbols_def)
  note sy = peek_symbol[OF p(3) y(1)]
  note no = peek_rest[OF sy(3) a(2)]
  have "parse_backs s p j = (BACK p, Suc j)"
    using sy(1)[of "''&''"] sy(2)[OF y(2) rest_solid[OF a(2)]] parse_backs_none[OF no]
    by (simp add: parse_backs.simps[of s p j] backcmd_def)
  moreover have "parsepipe (Suc g) s i = POk (p, j)" using parsepipe_step[OF p(1) sy(1)] by simp
  ultimately have "parseline f s i = POk (BACK p, Suc j)" unfolding f using parseline_step[OF _ _ no] by simp
  then show "\<exists>p. parseline f s i = POk (p, i + length (print_cmd (BACK c))) \<and> map_cmd (slice s) p = BACK c"
    using p(2) by (simp add: j eval_nat_numeral)
qed

lemma wf_reads: "wf_cmd c \<Longrightarrow> reads c"
  by (induction c) (simp_all add: reads_EXEC reads_REDIR reads_PIPE reads_LIST reads_BACK del: print_cmd.simps)

lemma print_no_nul: "wf_cmd c \<Longrightarrow> NUL \<notin> set (print_cmd c)"
  by (induction c) (auto simp: is_word_def)

lemma set_cmd_words: "set_cmd c = set (words c)"
  by (induction c) auto

lemma wf_roundtrip:
  assumes "wf_cmd c"
  shows "\<exists>p s'. parsecmd (print_cmd c) = POk (p, s') \<and> map_cmd (\<lambda>w. cstr s' (fst w)) p = c"
proof -
  let ?s = "print_cmd c"
  have "see ?s 0 (?s @ [])" "rest_ok []" by (simp_all add: see_def rest_ok_def)
  then obtain p where p: "parseline (4 * length ?s + 4) ?s 0 = POk (p, length ?s)" "map_cmd (slice ?s) p = c"
    using wf_reads[OF assms, unfolded reads_def, rule_format, of ?s 0 "[]" "4 * length ?s + 4"] by auto
  have "skip_ws ?s (length ?s) = length ?s" by (subst skip_while.simps) simp
  then have parse: "parsecmd ?s = POk (p, nulterminate ?s p)" using p(1) by (simp add: parsecmd_def peek_pos)
  have nul: "NUL \<notin> set ?s" using assms by (rule print_no_nul)
  have "map_cmd (\<lambda>w. cstr (nulterminate ?s p) (fst w)) p = map_cmd (slice ?s) p"
  proof (rule cmd.map_cong0)
    fix w
    assume "w \<in> set_cmd p"
    moreover have "words_ok ?s p" using parse_words[of "4 * length ?s + 4" ?s] p(1) by fastforce
    ultimately show "cstr (nulterminate ?s p) (fst w) = slice ?s w"
      using zero_ends_word[of "words p" ?s "fst w" "snd w"] nul by (simp add: nulterminate_words set_cmd_words slice_def)
  qed
  with parse p(2) show ?thesis by metis
qed

subsection \<open>Properties\<close>

text \<open>C26. The parser returns on every input line: it yields a command or a panic message, and never runs on.\<close>

theorem parsecmd_total: "(\<exists>c s'. parsecmd s = POk (c, s')) \<or> (\<exists>out. parsecmd s = PPanic out)"
proof -
  have "parseline (4 * length s + 4) s 0 \<noteq> PFuel" using parse_fuel[of s "4 * length s + 4"] by simp
  then have "parsecmd s \<noteq> PFuel" by (simp add: parsecmd_def pbind_fuel)
  then show ?thesis by (cases "parsecmd s") auto
qed

text \<open>C27. The words of a parsed command. After \<^verbatim>\<open>nulterminate\<close>, each argument and each file name is the C string
  consisting of the characters between its two pointers in the line as it was typed; it is not empty and
  has no blank and no symbol in it.\<close>

theorem parsecmd_words:
  assumes "parsecmd s = POk (c, s')" "NUL \<notin> set s"
  shows "\<forall>w\<in>set (words c). cstr s' (fst w) = slice s w \<and> slice s w \<noteq> [] \<and> (\<forall>ch\<in>set (slice s w). wordchar ch)"
proof
  fix w
  assume w: "w \<in> set (words c)"
  from assms(1) obtain r where r: "parseline (4 * length s + 4) s 0 = POk r" "c = fst r" "s' = nulterminate s c"
    unfolding parsecmd_def by (auto elim!: pbind_POkE split: if_splits)
  have ok: "words_ok s c" using parse_words[of "4 * length s + 4" s] r(1,2) by blast
  obtain q e where qe: "w = (q, e)" by (cases w)
  have wa: "q < e" "e \<le> length s" "\<And>k. q \<le> k \<Longrightarrow> k < e \<Longrightarrow> wordchar (s ! k)" using ok w qe by auto
  have "cstr s' q = slice s w" unfolding r(3) nulterminate_words qe slice_def
    using zero_ends_word[OF ok _ assms(2)] w qe by simp
  moreover have "length (slice s w) = e - q" using wa qe by (simp add: slice_def)
  moreover have "wordchar ch" if ch: "ch \<in> set (slice s w)" for ch
  proof -
    obtain k where "k < length (slice s w)" "slice s w ! k = ch" using ch by (auto simp: in_set_conv_nth)
    then show ?thesis using wa(3)[of "q + k"] wa qe by (auto simp: slice_def)
  qed
  ultimately show "cstr s' (fst w) = slice s w \<and> slice s w \<noteq> [] \<and> (\<forall>ch\<in>set (slice s w). wordchar ch)"
    using wa(1) qe by auto
qed

text \<open>C25. Round trip. Every command tree whose words are words, with fewer than \<^verbatim>\<open>MAXARGS\<close> arguments per program, is
  what the parser reads from its printed form, with the words as C strings in the buffer.\<close>

theorem parse_print_roundtrip:
  assumes "wf_cmd c"
  shows "\<exists>p s'. parsecmd (print_cmd c) = POk (p, s') \<and> map_cmd (\<lambda>w. cstr s' (fst w)) p = c"
  by (rule wf_roundtrip[OF assms])

text \<open>What a command line does: redirections are applied from the outside in, then the program is executed; the
  commands that are not implemented run their left part only.\<close>

fun run_words :: "sh_env \<Rightarrow> string cmd \<Rightarrow> sysact list" where
  "run_words E (EXEC ws) = (if ws = [] then [ActExit] else ActExec (hd ws) ws # (if env_exec E ws then [] else [ActExit]))"
| "run_words E (REDIR c f m fd) = ActClose (int fd) # ActOpen f m # (if env_open E f m then [] else [ActPrint 1 ''error'']) @ run_words E c"
| "run_words E (LIST l r) = ActPrint 2 (''list not implemented'' @ [CHR 0x0A]) # run_words E l"
| "run_words E (PIPE l r) = ActPrint 2 (''pipe not implemented'' @ [CHR 0x0A]) # run_words E l"
| "run_words E (BACK c) = ActPrint 2 (''background not implemented'' @ [CHR 0x0A]) # run_words E c"

lemma runcmd_words: "runcmd E s p = run_words E (map_cmd (\<lambda>w. cstr s (fst w)) p)"
  by (induction p) (simp_all add: Let_def)


subsection \<open>Examples\<close>

theorem parsecmd_words_witness:
  "\<exists>c s'. parsecmd ''cat <in|wc'' = POk (c, s') \<and> map (\<lambda>w. cstr s' (fst w)) (words c) = [''cat'', ''in'', ''wc'']"
proof -
  have p: "parsecmd ''cat <in|wc'' = POk (PIPE (REDIR (EXEC [(0, 3)]) (5, 7) 0 0) (EXEC [(8, 10)]), nulterminate ''cat <in|wc'' (PIPE (REDIR (EXEC [(0, 3)]) (5, 7) 0 0) (EXEC [(8, 10)])))"
    by code_simp
  have n: "NUL \<notin> set ''cat <in|wc''" by simp
  show ?thesis using parsecmd_words[OF p n] p by (simp add: slice_def)
qed

theorem parse_print_roundtrip_witness:
  "\<exists>p s'. parsecmd (print_cmd (PIPE (REDIR (EXEC [''cat'']) ''in'' O_RDONLY 0) (EXEC [''grep'', ''x'']))) = POk (p, s') \<and>
    map_cmd (\<lambda>w. cstr s' (fst w)) p = PIPE (REDIR (EXEC [''cat'']) ''in'' O_RDONLY 0) (EXEC [''grep'', ''x''])"
  by (rule parse_print_roundtrip) (simp add: is_word_def wordchar_def whitespace_def symbols_def redir_ok_def MAXARGS_def)


end
