(* ===== verification/Grep.thy ===== *)
theory Grep
  imports Xv6_Prelude
begin

text \<open>
  The pattern matcher and the line loop of \<^verbatim>\<open>src/xv6/grep.c\<close>.

  A C string is the list of its characters before the NUL. The reads of a file are a list of chunks: each call of \<^verbatim>\<open>read\<close> takes the next
  chunk, or as much of it as fits (a regular file is one chunk, a pipe or the console may give several); the end of the list is the end of the
  file. What \<^verbatim>\<open>write\<close> prints is the result. Opening files is a parameter.
  Shown: \<^verbatim>\<open>match\<close> decides the language of the pattern; on a file whose lines fit into the buffer, \<^verbatim>\<open>grep\<close> prints exactly the lines that match.
  A read that ends inside a line before any newline loses that part of the line, which is shown on an input.
\<close>

subsection \<open>The matcher\<close>

function (sequential) matchhere :: "string \<Rightarrow> string \<Rightarrow> bool"
  and matchstar :: "char \<Rightarrow> string \<Rightarrow> string \<Rightarrow> bool" where
  "matchhere re text =
     (case re of [] \<Rightarrow> True
      | c # re1 \<Rightarrow>
          if re1 \<noteq> [] \<and> hd re1 = CHR ''*'' then matchstar c (tl re1) text
          else if c = CHR ''$'' \<and> re1 = [] then text = []
          else (case text of [] \<Rightarrow> False | t # text1 \<Rightarrow> (c = CHR ''.'' \<or> c = t) \<and> matchhere re1 text1))"
| "matchstar c re text =
     (matchhere re text \<or> (case text of [] \<Rightarrow> False | t # text1 \<Rightarrow> (t = c \<or> c = CHR ''.'') \<and> matchstar c re text1))"
  by pat_completeness auto
termination
  by (relation "(\<lambda>x. case x of Inl (re, text) \<Rightarrow> 2 * length re | Inr (c, re, text) \<Rightarrow> 2 * length re + 1)
      <*mlex*> measure (\<lambda>x. case x of Inl (re, text) \<Rightarrow> length text | Inr (c, re, text) \<Rightarrow> length text)")
    (auto simp: mlex_prod_def wf_mlex)

fun match_any :: "string \<Rightarrow> string \<Rightarrow> bool" where
  "match_any re text = (matchhere re text \<or> (case text of [] \<Rightarrow> False | _ # text1 \<Rightarrow> match_any re text1))"

definition match :: "string \<Rightarrow> string \<Rightarrow> bool" where
  "match re text = (case re of c # re1 \<Rightarrow> if c = CHR ''^'' then matchhere re1 text else match_any re text | [] \<Rightarrow> match_any re text)"

subsection \<open>The line loop\<close>

definition BUFSZ :: nat where "BUFSZ = 1024"

text \<open>The inner loop: a line ends at the first newline, and \<^verbatim>\<open>strchr\<close> does not look past a NUL. The rest is what follows the last line.\<close>

function grep_lines :: "string \<Rightarrow> string \<Rightarrow> string \<times> string" where
  "grep_lines pattern p =
     (let l = takeWhile (\<lambda>c. c \<noteq> CHR 0x0A \<and> c \<noteq> CHR 0x00) p in
      case drop (length l) p of
        [] \<Rightarrow> ([], p)
      | q # p1 \<Rightarrow> if q \<noteq> CHR 0x0A then ([], p) else
          (case grep_lines pattern p1 of (out, rest) \<Rightarrow> ((if match pattern l then l @ [q] else []) @ out, rest)))"
  by auto
termination
proof (relation "measure (\<lambda>(pattern, p). length p)")
  fix pattern p l q p1
  assume "l = takeWhile (\<lambda>c. c \<noteq> CHR 0x0A \<and> c \<noteq> CHR 0x00) p" "drop (length l) p = q # p1"
  then have "length (q # p1) \<le> length p" by (metis length_drop diff_le_self)
  then show "((pattern, p1), (pattern, p)) \<in> measure (\<lambda>(pattern, p). length p)" by simp
qed simp

declare grep_lines.simps [simp del]

text \<open>One call of \<^verbatim>\<open>read\<close> for at most \<open>n\<close> bytes.\<close>

definition read_chunk :: "nat \<Rightarrow> string list \<Rightarrow> string \<times> string list" where
  "read_chunk n cs = (case cs of [] \<Rightarrow> ([], []) | c # cs1 \<Rightarrow> if length c \<le> n then (c, cs1) else (take n c, drop n c # cs1))"

text \<open>The outer loop, with the part of a line that is kept in the buffer. The fuel is the number of bytes and chunks to come: each round takes
  one of them.\<close>

primrec grep_loop :: "nat \<Rightarrow> string \<Rightarrow> string \<Rightarrow> string list \<Rightarrow> string" where
  "grep_loop 0 pattern keep cs = []"
| "grep_loop (Suc f) pattern keep cs =
     (case read_chunk (BUFSZ - length keep - 1) cs of (c, cs1) \<Rightarrow>
      if c = [] then [] else
      case grep_lines pattern (keep @ c) of (out, rest) \<Rightarrow>
        out @ grep_loop f pattern (if rest = keep @ c then [] else rest) cs1)"

definition grep :: "string \<Rightarrow> string list \<Rightarrow> string" where
  "grep pattern cs = grep_loop (length cs + sum_list (map length cs)) pattern [] cs"

text \<open>\<open>files\<close> gives the reads of a file, or \<open>None\<close> when it cannot be opened; \<open>stdin\<close> those of descriptor 0. The result has what is printed on
  descriptors 1 and 2.\<close>

primrec grep_files :: "(string \<Rightarrow> string list option) \<Rightarrow> string \<Rightarrow> string list \<Rightarrow> string" where
  "grep_files files pattern [] = []"
| "grep_files files pattern (a # as) =
     (case files a of None \<Rightarrow> ''grep: cannot open '' @ a @ [CHR 0x0A]
      | Some cs \<Rightarrow> grep pattern cs @ grep_files files pattern as)"

definition grep_main :: "(string \<Rightarrow> string list option) \<Rightarrow> string list \<Rightarrow> string list \<Rightarrow> string \<times> string" where
  "grep_main files stdin argv =
     (if length argv \<le> 1 then ([], ''usage: grep pattern [file ...]'' @ [CHR 0x0A])
      else if length argv \<le> 2 then (grep (argv ! 1) stdin, [])
      else (grep_files files (argv ! 1) (drop 2 argv), []))"

subsection \<open>The language of a pattern\<close>

text \<open>An item is one character or any number of them; a dot stands for any character. A dollar sign at the end asks for the end of the text.\<close>

datatype item = One "char option" | Star "char option"

definition psym :: "char \<Rightarrow> char option" where
  "psym c = (if c = CHR ''.'' then None else Some c)"

fun items :: "string \<Rightarrow> item list" where
  "items [] = []"
| "items [c] = (if c = CHR ''$'' then [] else [One (psym c)])"
| "items (c # d # re) = (if d = CHR ''*'' then Star (psym c) # items re else One (psym c) # items (d # re))"

fun anchored :: "string \<Rightarrow> bool" where
  "anchored [] = False"
| "anchored [c] = (c = CHR ''$'')"
| "anchored (c # d # re) = (if d = CHR ''*'' then anchored re else anchored (d # re))"

definition sat :: "char option \<Rightarrow> char set" where
  "sat a = (case a of None \<Rightarrow> UNIV | Some c \<Rightarrow> {c})"

fun lang :: "item list \<Rightarrow> string set" where
  "lang [] = {[]}"
| "lang (One a # is) = {c # u | c u. c \<in> sat a \<and> u \<in> lang is}"
| "lang (Star a # is) = {v @ u | v u. set v \<subseteq> sat a \<and> u \<in> lang is}"

text \<open>The pattern matches a prefix of the text, all of it when it is anchored.\<close>

definition matches_at :: "string \<Rightarrow> string \<Rightarrow> bool" where
  "matches_at re text \<longleftrightarrow> (\<exists>u v. text = u @ v \<and> u \<in> lang (items re) \<and> (anchored re \<longrightarrow> v = []))"

lemma sat_psym: "t \<in> sat (psym c) \<longleftrightarrow> c = CHR ''.'' \<or> c = t"
  by (auto simp: sat_def psym_def)

declare matchhere.simps [simp del] matchstar.simps [simp del]

lemma matches_at_one:
  assumes "re = [] \<longrightarrow> c \<noteq> CHR ''$''" "re \<noteq> [] \<longrightarrow> hd re \<noteq> CHR ''*''"
  shows "matches_at (c # re) text \<longleftrightarrow> (case text of [] \<Rightarrow> False | t # text1 \<Rightarrow> (c = CHR ''.'' \<or> c = t) \<and> matches_at re text1)"
proof -
  have "items (c # re) = One (psym c) # items re" "anchored (c # re) = anchored re" using assms by (cases "re"; auto)+
  then show ?thesis by (cases "text") (auto simp: matches_at_def sat_psym Cons_eq_append_conv)
qed

lemma matches_at_star:
  "matches_at (c # CHR ''*'' # re) text \<longleftrightarrow>
     matches_at re text \<or> (case text of [] \<Rightarrow> False | t # text1 \<Rightarrow> (t = c \<or> c = CHR ''.'') \<and> matches_at (c # CHR ''*'' # re) text1)"
proof
  assume "matches_at (c # CHR ''*'' # re) text"
  then obtain vu w where "text = vu @ w" "vu \<in> lang (Star (psym c) # items re)" "anchored re \<longrightarrow> w = []" unfolding matches_at_def by auto
  moreover then obtain v u where "vu = v @ u" "set v \<subseteq> sat (psym c)" "u \<in> lang (items re)" by auto
  ultimately have t: "text = (v @ u) @ w" "set v \<subseteq> sat (psym c)" "u \<in> lang (items re)" "anchored re \<longrightarrow> w = []" by simp_all
  show "matches_at re text \<or> (case text of [] \<Rightarrow> False | t # text1 \<Rightarrow> (t = c \<or> c = CHR ''.'') \<and> matches_at (c # CHR ''*'' # re) text1)"
  proof (cases v)
    case Nil
    then show ?thesis using t by (auto simp: matches_at_def)
  next
    case (Cons x v1)
    then have "v1 @ u \<in> lang (Star (psym c) # items re)" using t(2,3) unfolding lang.simps by auto
    then have "matches_at (c # CHR ''*'' # re) (v1 @ u @ w)" using t(4) unfolding matches_at_def by (intro exI[of _ "v1 @ u"] exI[of _ w]) simp
    then show ?thesis using Cons t sat_psym[of x c] by auto
  qed
next
  assume "matches_at re text \<or> (case text of [] \<Rightarrow> False | t # text1 \<Rightarrow> (t = c \<or> c = CHR ''.'') \<and> matches_at (c # CHR ''*'' # re) text1)"
  then show "matches_at (c # CHR ''*'' # re) text"
  proof
    assume "matches_at re text"
    then obtain u w where u: "text = u @ w" "u \<in> lang (items re)" "anchored re \<longrightarrow> w = []" unfolding matches_at_def by blast
    have "u = [] @ u" "set [] \<subseteq> sat (psym c)" by auto
    then have "u \<in> lang (Star (psym c) # items re)" unfolding lang.simps using u(2) by blast
    then show ?thesis using u(1,3) unfolding matches_at_def by (intro exI[of _ u] exI[of _ w]) simp
  next
    assume "case text of [] \<Rightarrow> False | t # text1 \<Rightarrow> (t = c \<or> c = CHR ''.'') \<and> matches_at (c # CHR ''*'' # re) text1"
    then obtain t text1 where h: "text = t # text1" "t \<in> sat (psym c)" "matches_at (c # CHR ''*'' # re) text1" by (auto simp: sat_psym split: list.splits)
    obtain vu w where vu: "text1 = vu @ w" "vu \<in> lang (Star (psym c) # items re)" "anchored re \<longrightarrow> w = []" using h(3) unfolding matches_at_def by auto
    then obtain v u where v: "vu = v @ u" "set v \<subseteq> sat (psym c)" "u \<in> lang (items re)" by auto
    have "t # vu = (t # v) @ u" "set (t # v) \<subseteq> sat (psym c)" using v h(2) by auto
    then have "t # vu \<in> lang (Star (psym c) # items re)" unfolding lang.simps using v(3) by blast
    then show ?thesis using h(1) vu(1,3) unfolding matches_at_def by (intro exI[of _ "t # vu"] exI[of _ w]) simp
  qed
qed

lemma matchhere_iff: "matchhere re text = matches_at re text"
  and matchstar_iff: "matchstar c re text = matches_at (c # CHR ''*'' # re) text"
proof (induction re "text" and c re "text" rule: matchhere_matchstar.induct)
  case (1 re "text")
  show ?case
  proof (cases "re")
    case Nil
    then show ?thesis by (subst matchhere.simps) (auto simp: matches_at_def)
  next
    case (Cons c re1)
    consider (star) re2 where "re1 = CHR ''*'' # re2" | (dollar) "c = CHR ''$''" "re1 = []"
      | (one) "re1 \<noteq> [] \<longrightarrow> hd re1 \<noteq> CHR ''*''" "re1 = [] \<longrightarrow> c \<noteq> CHR ''$''" by (cases re1) auto
    then show ?thesis
    proof cases
      case star
      then show ?thesis using 1(1)[OF Cons] Cons by (subst matchhere.simps) simp
    next
      case dollar
      then show ?thesis using Cons by (subst matchhere.simps) (auto simp: matches_at_def)
    next
      case one
      then show ?thesis using 1(2)[OF Cons] Cons by (subst matchhere.simps) (auto simp: matches_at_one split: list.splits)
    qed
  qed
next
  case (2 c re "text")
  show ?case using 2 by (subst matchstar.simps, subst matches_at_star) (auto split: list.splits)
qed

lemma match_any_iff: "match_any re text \<longleftrightarrow> (\<exists>w z. text = w @ z \<and> matches_at re z)"
proof (induction "text")
  case (Cons t ts)
  have "(\<exists>w z. t # ts = w @ z \<and> matches_at re z) \<longleftrightarrow> matches_at re (t # ts) \<or> (\<exists>w z. ts = w @ z \<and> matches_at re z)"
    by (metis append_Cons append_Nil append_eq_Cons_conv)
  then show ?case using Cons by (simp add: matchhere_iff)
qed (auto simp: matchhere_iff)

text \<open>C32. \<^verbatim>\<open>match\<close> decides whether the text has a part in the language of the pattern: a sequence of characters, dots and starred ones, of which a
  leading circumflex fixes the part to the start of the text and a final dollar sign to its end.\<close>

theorem match_decides_language:
  "match re text \<longleftrightarrow>
     (if re \<noteq> [] \<and> hd re = CHR ''^'' then \<exists>u v. text = u @ v \<and> u \<in> lang (items (tl re)) \<and> (anchored (tl re) \<longrightarrow> v = [])
      else \<exists>w u v. text = w @ u @ v \<and> u \<in> lang (items re) \<and> (anchored re \<longrightarrow> v = []))"
proof (cases "re \<noteq> [] \<and> hd re = CHR ''^''")
  case True
  then show ?thesis by (cases "re") (simp_all add: match_def matchhere_iff matches_at_def)
next
  case False
  have "match re text = match_any re text" using False by (cases "re") (auto simp: match_def)
  then show ?thesis using False unfolding match_any_iff matches_at_def by auto
qed

text \<open>The starred dot of the pattern is any text, and the dollar sign only counts at the end.\<close>

theorem match_decides_language_witness:
  "match ''^a.*b$'' ''axyb'' \<and> \<not> match ''^a.*b$'' ''axybc'' \<and> (\<exists>u v. ''axyb'' = u @ v \<and> u \<in> lang (items ''a.*b$'') \<and> (anchored ''a.*b$'' \<longrightarrow> v = []))"
proof -
  have "match ''^a.*b$'' ''axyb''" "\<not> match ''^a.*b$'' ''axybc''" by code_simp+
  then show ?thesis using match_decides_language[of "''^a.*b$''" "''axyb''"] by simp
qed

subsection \<open>The lines of a file\<close>

definition lineas :: "string list \<Rightarrow> string" where
  "lineas ls = concat (map (\<lambda>l. l @ [CHR 0x0A]) ls)"

definition plain :: "string \<Rightarrow> bool" where
  "plain l \<longleftrightarrow> CHR 0x0A \<notin> set l \<and> CHR 0x00 \<notin> set l"

definition selected :: "string \<Rightarrow> string list \<Rightarrow> string" where
  "selected pattern ls = lineas (filter (match pattern) ls)"

lemma grep_lines_plain: "plain l \<Longrightarrow> grep_lines pattern l = ([], l)"
proof -
  assume "plain l"
  then have "takeWhile (\<lambda>c. c \<noteq> CHR 0x0A \<and> c \<noteq> CHR 0x00) l = l" by (auto simp: plain_def takeWhile_eq_all_conv)
  then show ?thesis by (subst grep_lines.simps) (simp only: Let_def drop_all order.refl list.case)
qed

lemma grep_lines_line:
  assumes "plain l"
  shows "grep_lines pattern (l @ CHR 0x0A # w) = (selected pattern [l] @ fst (grep_lines pattern w), snd (grep_lines pattern w))"
proof -
  have "takeWhile (\<lambda>c. c \<noteq> CHR 0x0A \<and> c \<noteq> CHR 0x00) (l @ CHR 0x0A # w) = l"
    using assms by (subst takeWhile_append2) (auto simp: plain_def)
  then show ?thesis by (subst grep_lines.simps) (simp add: Let_def selected_def lineas_def split: prod.split)
qed

text \<open>A piece from the start of the lines: the complete ones are done, and what is left is part of the next one.\<close>

lemma grep_lines_take:
  assumes "\<forall>l\<in>set ls. plain l"
  shows "\<exists>k. k \<le> length ls \<and> length (lineas (take k ls)) \<le> n
    \<and> grep_lines pattern (take n (lineas ls)) = (selected pattern (take k ls), take (n - length (lineas (take k ls))) (lineas (drop k ls)))
    \<and> (k < length ls \<longrightarrow> n - length (lineas (take k ls)) \<le> length (ls ! k)) \<and> (ls \<noteq> [] \<and> length (hd ls) < n \<longrightarrow> 0 < k)"
  using assms
proof (induction ls arbitrary: n)
  case Nil
  then show ?case using grep_lines_plain[of "[]" pattern] by (simp add: lineas_def selected_def plain_def)
next
  case (Cons l ls)
  have L: "lineas (l # ls) = l @ CHR 0x0A # lineas ls" by (simp add: lineas_def)
  show ?case
  proof (cases "length l < n")
    case True
    then have t: "take n (lineas (l # ls)) = l @ CHR 0x0A # take (n - Suc (length l)) (lineas ls)" unfolding L
      by (simp add: take_Cons')
    obtain k where k: "k \<le> length ls" "length (lineas (take k ls)) \<le> n - Suc (length l)"
      "grep_lines pattern (take (n - Suc (length l)) (lineas ls)) = (selected pattern (take k ls), take (n - Suc (length l) - length (lineas (take k ls))) (lineas (drop k ls)))"
      "k < length ls \<longrightarrow> n - Suc (length l) - length (lineas (take k ls)) \<le> length (ls ! k)" using Cons.IH[of "n - Suc (length l)"] Cons.prems by auto
    have "grep_lines pattern (take n (lineas (l # ls))) = (selected pattern (take (Suc k) (l # ls)), take (n - length (lineas (take (Suc k) (l # ls)))) (lineas (drop (Suc k) (l # ls))))"
      unfolding t using grep_lines_line[of l pattern] Cons.prems k(3) by (simp add: selected_def lineas_def)
    then show ?thesis using k True by (intro exI[of _ "Suc k"]) (simp add: lineas_def)
  next
    case False
    then have "take n (lineas (l # ls)) = take n l" unfolding L by simp
    moreover have "plain (take n l)" using Cons.prems by (auto simp: plain_def dest: in_set_takeD)
    ultimately show ?thesis using False grep_lines_plain[of "take n l" pattern] by (intro exI[of _ 0]) (simp add: lineas_def selected_def)
  qed
qed

lemma lineas_split: "lineas ls = lineas (take k ls) @ lineas (drop k ls)"
  unfolding lineas_def by (metis append_take_drop_id concat_append map_append)

lemma selected_split: "selected pattern ls = selected pattern (take k ls) @ selected pattern (drop k ls)"
  unfolding selected_def lineas_def by (metis append_take_drop_id concat_append filter_append map_append)

lemma grep_lines_all: "\<forall>l\<in>set ls. plain l \<Longrightarrow> grep_lines pattern (lineas ls) = (selected pattern ls, [])"
proof (induction ls)
  case (Cons l ls)
  then show ?case using grep_lines_line[of l pattern "lineas ls"] by (simp add: lineas_def selected_def)
qed (simp add: lineas_def selected_def plain_def grep_lines_plain)

lemma grep_loop_done [simp]: "grep_loop f pattern keep [] = []"
  by (cases f) (simp_all add: read_chunk_def)

text \<open>One round with the whole rest of the file, and one that fills the buffer.\<close>

lemma grep_loop_last:
  assumes "\<forall>l\<in>set ls. plain l" "n < length (lineas ls)" "length (lineas ls) \<le> BUFSZ - 1"
  shows "grep_loop (Suc f) pattern (take n (lineas ls)) [drop n (lineas ls)] = selected pattern ls"
  using assms grep_lines_all[OF assms(1), of pattern] by (auto simp: read_chunk_def)

lemma grep_loop_full:
  assumes "n < BUFSZ - 1" "BUFSZ - 1 < length (lineas ls)" "grep_lines pattern (take (BUFSZ - 1) (lineas ls)) = (out, rest)"
    "length rest < BUFSZ - 1"
  shows "grep_loop (Suc f) pattern (take n (lineas ls)) [drop n (lineas ls)] = out @ grep_loop f pattern rest [drop (BUFSZ - 1) (lineas ls)]"
proof -
  have "read_chunk (BUFSZ - n - 1) [drop n (lineas ls)] = (drop n (take (BUFSZ - 1) (lineas ls)), [drop (BUFSZ - 1) (lineas ls)])"
    using assms(1,2) by (simp add: read_chunk_def take_drop)
  moreover have "take n (lineas ls) @ drop n (take (BUFSZ - 1) (lineas ls)) = take (BUFSZ - 1) (lineas ls)"
    using assms(1) by (metis append_take_drop_id min.strict_order_iff take_take)
  moreover have "drop n (take (BUFSZ - 1) (lineas ls)) \<noteq> []" using assms(1,2) by simp
  moreover have "rest \<noteq> take (BUFSZ - 1) (lineas ls)" using assms(2,4) by auto
  ultimately show ?thesis using assms(1,2,3) by simp
qed

text \<open>The loop with the first \<open>n\<close> bytes of the lines to come in the buffer, none of them a complete line.\<close>

lemma grep_loop_lines:
  assumes "\<forall>l\<in>set ls. plain l \<and> length l < BUFSZ - 1" "ls \<noteq> [] \<longrightarrow> n \<le> length (hd ls)" "length (drop n (lineas ls)) < f"
  shows "grep_loop f pattern (take n (lineas ls)) [drop n (lineas ls)] = selected pattern ls"
  using assms
proof (induction f arbitrary: ls n)
  case (Suc f)
  show ?case
  proof (cases ls)
    case Nil
    then show ?thesis by (simp add: read_chunk_def lineas_def selected_def)
  next
    case (Cons l ls1)
    have L: "length (lineas ls) = Suc (length l + length (lineas ls1))" using Cons by (simp add: lineas_def)
    have n: "n \<le> length l" "length l < BUFSZ - 1" using Suc.prems Cons by auto
    have pl: "\<forall>l\<in>set ls. plain l" using Suc.prems by blast
    show ?thesis
    proof (cases "length (lineas ls) \<le> BUFSZ - 1")
      case True
      show ?thesis using L n(1) by (intro grep_loop_last pl True) simp
    next
      case False
      obtain k where k: "k \<le> length ls" "length (lineas (take k ls)) \<le> BUFSZ - 1"
        "grep_lines pattern (take (BUFSZ - 1) (lineas ls)) = (selected pattern (take k ls), take (BUFSZ - 1 - length (lineas (take k ls))) (lineas (drop k ls)))"
        "k < length ls \<longrightarrow> BUFSZ - 1 - length (lineas (take k ls)) \<le> length (ls ! k)" "0 < k"
        using grep_lines_take[OF pl, of "BUFSZ - 1" pattern] n(2) Cons by auto
      define m where "m = BUFSZ - 1 - length (lineas (take k ls))"
      have pos: "0 < length (lineas (take k ls))" using k(5) Cons by (cases k) (simp_all add: lineas_def)
      have rest: "drop (BUFSZ - 1) (lineas ls) = drop m (lineas (drop k ls))"
        unfolding m_def using k(2) by (subst lineas_split[of ls k]) simp
      have IH: "grep_loop f pattern (take m (lineas (drop k ls))) [drop m (lineas (drop k ls))] = selected pattern (drop k ls)"
      proof (rule Suc.IH)
        show "\<forall>l\<in>set (drop k ls). plain l \<and> length l < BUFSZ - 1" using Suc.prems(1) by (meson in_set_dropD)
        show "drop k ls \<noteq> [] \<longrightarrow> m \<le> length (hd (drop k ls))" using k(4) unfolding m_def by (simp add: hd_drop_conv_nth)
        show "length (drop m (lineas (drop k ls))) < f" unfolding rest[symmetric] using Suc.prems(3) n False by simp
      qed
      have "length (take m (lineas (drop k ls))) < BUFSZ - 1" using pos k(2) unfolding m_def length_take by linarith
      from grep_loop_full[OF _ _ k(3)[folded m_def] this, of n f] show ?thesis
        using n False IH selected_split[of pattern ls k] unfolding rest by simp
    qed
  qed
qed simp

text \<open>C33. A file of complete lines that each fit in the buffer, read in full blocks: \<^verbatim>\<open>grep\<close> prints its lines with a match, in order, each
  once, and nothing else, wherever the buffer cuts them.\<close>

theorem grep_prints_matching_lines:
  assumes "\<forall>l\<in>set ls. CHR 0x0A \<notin> set l \<and> CHR 0x00 \<notin> set l \<and> length l < BUFSZ - 1"
  shows "grep pattern [concat (map (\<lambda>l. l @ [CHR 0x0A]) ls)] = concat (map (\<lambda>l. l @ [CHR 0x0A]) (filter (match pattern) ls))"
  using grep_loop_lines[of ls 0 "Suc (length (lineas ls))" pattern] assms unfolding grep_def selected_def lineas_def plain_def by simp

theorem grep_prints_matching_lines_witness:
  "grep ''b$'' [''ab'' @ [CHR 0x0A] @ ''ba'' @ [CHR 0x0A] @ ''cb'' @ [CHR 0x0A]] = ''ab'' @ [CHR 0x0A] @ ''cb'' @ [CHR 0x0A]"
proof -
  have m: "match ''b$'' ''ab''" "\<not> match ''b$'' ''ba''" "match ''b$'' ''cb''" by code_simp+
  show ?thesis using grep_prints_matching_lines[of "[''ab'', ''ba'', ''cb'']" "''b$''"] m by (simp add: BUFSZ_def)
qed

text \<open>A read that ends inside a line, as one from a pipe may, loses what was read of it: the line below has a match.\<close>

lemma grep_drops_partial_line:
  "match ''ab'' ''xaby'' \<and> grep ''ab'' [''xa'', ''by'' @ [CHR 0x0A]] = [] \<and> grep ''ab'' [''xaby'' @ [CHR 0x0A]] = ''xaby'' @ [CHR 0x0A]"
  by code_simp

end
