(* ===== verification/Sim.thy ===== *)
theory Sim
  imports Xv6_Prelude
begin

text \<open>
  The paging simulator \<^verbatim>\<open>src/lab-07/sim.c\<close>: eight frames of physical memory, sixteen of secondary storage, page tables of a hundred processes,
  and replacement in FIFO or LRU order.

  The arrays are lists of the sizes of the source; the input is the list of pairs that \<^verbatim>\<open>scanf\<close> reads before the end of file. A request with an
  index outside \<^verbatim>\<open>procesos\<close> or \<^verbatim>\<open>tabla_paginas\<close> is the outcome \<open>Fuera\<close>; leaving the loop with secondary storage full is \<open>Llena\<close>. The time
  stamps are integers: they grow by at most two per request, so they wrap only after more than a billion of them. The exit codes
  and the usage messages on \<^verbatim>\<open>stderr\<close> are values of \<open>salida\<close>.
  Shown: the frames in FIFO order are the queue of a reference FIFO, no page is lost or duplicated, and secondary storage fills up only with more
  than 24 pages; with all frames in use, LRU replaces the least recently used page. Stamps given while frames are free may put a page used
  earlier after one used later, and the page table keeps entries of pages that have been replaced: both are shown on an input.
\<close>

subsection \<open>Structures\<close>

definition MAX_PROCESOS :: nat where "MAX_PROCESOS = 100"
definition MEMORIA_VIRTUAL :: nat where "MEMORIA_VIRTUAL = 64"
definition MEMORIA_FISICA :: nat where "MEMORIA_FISICA = 32"
definition TAMANIO_PAGINA :: nat where "TAMANIO_PAGINA = 4"
definition ALMACENAMIENTO_SECUNDARIO :: nat where "ALMACENAMIENTO_SECUNDARIO = 64"

abbreviation MARCOS :: nat where "MARCOS \<equiv> MEMORIA_FISICA div TAMANIO_PAGINA"
abbreviation PAGINAS :: nat where "PAGINAS \<equiv> MEMORIA_VIRTUAL div TAMANIO_PAGINA"
abbreviation BLOQUES :: nat where "BLOQUES \<equiv> ALMACENAMIENTO_SECUNDARIO div TAMANIO_PAGINA"

record pagina =
  pg_pid :: int
  pg_pagina :: int

record proceso =
  pr_pid :: int
  tabla_paginas :: "int list"

record sim =
  procesos :: "proceso list"
  memoriaFisica :: "pagina list"
  memoriaSecundaria :: "pagina list"
  indiceRAM :: nat
  indiceDISCO :: nat
  tiempo :: int
  tiempoRAM :: "int list"

datatype paso = Sigue sim | Llena sim | Fuera

definition vacia :: pagina where
  "vacia = \<lparr>pg_pid = -1, pg_pagina = -1\<rparr>"

text \<open>The tables of unused processes are not initialised; they are not read.\<close>

definition sim_init :: sim where
  "sim_init = \<lparr>procesos = replicate MAX_PROCESOS \<lparr>pr_pid = -1, tabla_paginas = replicate PAGINAS (-1)\<rparr>,
     memoriaFisica = replicate MARCOS vacia, memoriaSecundaria = replicate BLOQUES vacia,
     indiceRAM = 0, indiceDISCO = 0, tiempo = 0, tiempoRAM = replicate MARCOS 0\<rparr>"

subsection \<open>One request\<close>

text \<open>The loops that look for a page: the first index, if any.\<close>

definition buscar :: "pagina \<Rightarrow> pagina list \<Rightarrow> nat option" where
  "buscar p ms = List.find (\<lambda>i. ms ! i = p) [0..<length ms]"

text \<open>A process that is seen for the first time gets an empty table.\<close>

definition crear :: "int \<Rightarrow> sim \<Rightarrow> sim" where
  "crear pid s = (let i = nat (pid - 1) in
     if pr_pid (procesos s ! i) = -1
     then s\<lparr>procesos := (procesos s)[i := \<lparr>pr_pid = pid, tabla_paginas = replicate PAGINAS (-1)\<rparr>]\<rparr> else s)"

text \<open>The entry for \<open>pagina\<close> in the table of \<open>pid\<close>; frames are numbered from 1 there.\<close>

definition anotar :: "int \<Rightarrow> int \<Rightarrow> nat \<Rightarrow> sim \<Rightarrow> sim" where
  "anotar pid pagina marco s = (let i = nat (pid - 1) in
     s\<lparr>procesos := (procesos s)[i := (procesos s ! i)\<lparr>tabla_paginas := (tabla_paginas (procesos s ! i))[nat (pagina - 1) := int marco + 1]\<rparr>]\<rparr>)"

definition en_rango :: "int \<Rightarrow> nat \<Rightarrow> bool" where
  "en_rango x n \<longleftrightarrow> 1 \<le> x \<and> x \<le> int n"

abbreviation pag :: "int \<Rightarrow> int \<Rightarrow> pagina" where
  "pag pid pagina \<equiv> \<lparr>pg_pid = pid, pg_pagina = pagina\<rparr>"

definition fifo_carga :: "int \<Rightarrow> int \<Rightarrow> sim \<Rightarrow> paso" where
  "fifo_carga pid pagina s =
     (if \<not> en_rango pagina PAGINAS then Fuera else
      Sigue ((anotar pid pagina (indiceRAM s) s)
        \<lparr>memoriaFisica := (memoriaFisica s)[indiceRAM s := pag pid pagina], indiceRAM := (indiceRAM s + 1) mod MARCOS\<rparr>))"

definition fifo_reemplazo :: "int \<Rightarrow> int \<Rightarrow> sim \<Rightarrow> paso" where
  "fifo_reemplazo pid pagina s =
     (if pg_pid (memoriaSecundaria s ! indiceDISCO s) \<noteq> -1 then Llena s
      else if \<not> en_rango pagina PAGINAS then Fuera else
      Sigue ((anotar pid pagina (indiceRAM s) s)
        \<lparr>memoriaSecundaria := (memoriaSecundaria s)[indiceDISCO s := memoriaFisica s ! indiceRAM s],
         indiceDISCO := (indiceDISCO s + 1) mod BLOQUES,
         memoriaFisica := (memoriaFisica s)[indiceRAM s := pag pid pagina], indiceRAM := (indiceRAM s + 1) mod MARCOS\<rparr>))"

definition fifo_intercambio :: "int \<Rightarrow> int \<Rightarrow> nat \<Rightarrow> sim \<Rightarrow> paso" where
  "fifo_intercambio pid pagina d s =
     (if \<not> en_rango pagina PAGINAS then Fuera else
      Sigue ((anotar pid pagina (indiceRAM s) s)
        \<lparr>memoriaSecundaria := (memoriaSecundaria s)[d := memoriaFisica s ! indiceRAM s],
         memoriaFisica := (memoriaFisica s)[indiceRAM s := memoriaSecundaria s ! d], indiceRAM := (indiceRAM s + 1) mod MARCOS\<rparr>))"

definition fifo_paso :: "int \<times> int \<Rightarrow> sim \<Rightarrow> paso" where
  "fifo_paso r s = (case r of (pid, pagina) \<Rightarrow>
     if \<not> en_rango pid MAX_PROCESOS then Fuera else
     let s = crear pid s; p = pag pid pagina; hayLugar = (buscar vacia (memoriaFisica s) \<noteq> None) in
     case buscar p (memoriaFisica s) of
       Some _ \<Rightarrow> Sigue s
     | None \<Rightarrow> (case buscar p (memoriaSecundaria s) of
         None \<Rightarrow> if hayLugar then fifo_carga pid pagina s else fifo_reemplazo pid pagina s
       | Some d \<Rightarrow> if hayLugar then Sigue s else fifo_intercambio pid pagina d s))"

text \<open>The greatest stamp, and the first frame with the least one.\<close>

definition maximo :: "int list \<Rightarrow> int" where
  "maximo ts = foldl (\<lambda>m t. if t > m then t else m) (ts ! 0) ts"

definition indiceMinimo :: "int list \<Rightarrow> nat" where
  "indiceMinimo ts = snd (foldl (\<lambda>(m, k) i. if ts ! i < m then (ts ! i, i) else (m, k)) (ts ! 0, 0) [0..<length ts])"

definition lru_acierto :: "nat \<Rightarrow> sim \<Rightarrow> sim" where
  "lru_acierto i s = s\<lparr>tiempoRAM := (tiempoRAM s)[i := maximo (tiempoRAM s) + 1]\<rparr>"

definition lru_carga :: "int \<Rightarrow> int \<Rightarrow> nat \<Rightarrow> sim \<Rightarrow> paso" where
  "lru_carga pid pagina i s =
     (if \<not> en_rango pagina PAGINAS then Fuera else
      Sigue ((anotar pid pagina i s)
        \<lparr>memoriaFisica := (memoriaFisica s)[i := pag pid pagina], tiempoRAM := (tiempoRAM s)[i := tiempo s], tiempo := tiempo s + 1\<rparr>))"

definition lru_reemplazo :: "int \<Rightarrow> int \<Rightarrow> sim \<Rightarrow> paso" where
  "lru_reemplazo pid pagina s =
     (if pg_pid (memoriaSecundaria s ! indiceDISCO s) \<noteq> -1 then Llena s
      else let i = indiceMinimo (tiempoRAM s); m = maximo (tiempoRAM s) in
      if \<not> en_rango pagina PAGINAS then Fuera else
      Sigue ((anotar pid pagina i s)
        \<lparr>memoriaSecundaria := (memoriaSecundaria s)[indiceDISCO s := memoriaFisica s ! i],
         indiceDISCO := (indiceDISCO s + 1) mod BLOQUES,
         memoriaFisica := (memoriaFisica s)[i := pag pid pagina],
         tiempoRAM := map (\<lambda>t. t + 1) ((tiempoRAM s)[i := m + 1])\<rparr>))"

definition lru_intercambio :: "int \<Rightarrow> int \<Rightarrow> nat \<Rightarrow> sim \<Rightarrow> paso" where
  "lru_intercambio pid pagina d s =
     (let i = indiceMinimo (tiempoRAM s) in
      if \<not> en_rango pagina PAGINAS then Fuera else
      Sigue ((anotar pid pagina i s)
        \<lparr>memoriaSecundaria := (memoriaSecundaria s)[d := memoriaFisica s ! i],
         memoriaFisica := (memoriaFisica s)[i := memoriaSecundaria s ! d],
         tiempoRAM := map (\<lambda>t. t + 1) ((tiempoRAM s)[i := maximo (tiempoRAM s) + 1])\<rparr>))"

definition lru_paso :: "int \<times> int \<Rightarrow> sim \<Rightarrow> paso" where
  "lru_paso r s = (case r of (pid, pagina) \<Rightarrow>
     if \<not> en_rango pid MAX_PROCESOS then Fuera else
     let s = crear pid s; p = pag pid pagina in
     case buscar p (memoriaFisica s) of
       Some i \<Rightarrow> Sigue (lru_acierto i s)
     | None \<Rightarrow> (case buscar p (memoriaSecundaria s) of
         None \<Rightarrow> (case buscar vacia (memoriaFisica s) of
           Some i \<Rightarrow> lru_carga pid pagina i s
         | None \<Rightarrow> lru_reemplazo pid pagina s)
       | Some d \<Rightarrow> (case buscar vacia (memoriaFisica s) of
           Some _ \<Rightarrow> Sigue s
         | None \<Rightarrow> lru_intercambio pid pagina d s)))"

subsection \<open>The program\<close>

fun correr :: "(int \<times> int \<Rightarrow> sim \<Rightarrow> paso) \<Rightarrow> (int \<times> int) list \<Rightarrow> sim \<Rightarrow> paso" where
  "correr f [] s = Sigue s"
| "correr f (r # rs) s = (case f r s of Sigue s' \<Rightarrow> correr f rs s' | Llena s' \<Rightarrow> Llena s' | Fuera \<Rightarrow> Fuera)"

text \<open>The number format \<^verbatim>\<open>%d\<close>.\<close>

fun dec_nat :: "nat \<Rightarrow> string" where
  "dec_nat n = (if n < 10 then [char_of (48 + n)] else dec_nat (n div 10) @ [char_of (48 + n mod 10)])"

definition dec :: "int \<Rightarrow> string" where
  "dec n = (if n < 0 then CHR ''-'' # dec_nat (nat (- n)) else dec_nat (nat n))"

definition imprimir_tabla :: "proceso \<Rightarrow> string" where
  "imprimir_tabla p = (if pr_pid p = -1 then [] else
     ''Proceso '' @ dec (pr_pid p) @ '': '' @ concat (map (\<lambda>e. if e = -1 then ''- '' else dec e @ '' '') (tabla_paginas p)) @ [CHR 0x0A])"

definition imprimir_marcos :: "pagina list \<Rightarrow> string" where
  "imprimir_marcos ms = concat (map (\<lambda>m. if m = vacia then ''- '' else dec (pg_pid m) @ ''.'' @ dec (pg_pagina m) @ '' '') ms) @ [CHR 0x0A]"

definition imprimir :: "sim \<Rightarrow> string" where
  "imprimir s = concat (map imprimir_tabla (procesos s)) @ ''Memoria fisica: '' @ imprimir_marcos (memoriaFisica s)
     @ ''Memoria secundaria: '' @ imprimir_marcos (memoriaSecundaria s)"

text \<open>What the program prints: on \<^verbatim>\<open>stderr\<close> with a failing exit code, or on \<^verbatim>\<open>stdout\<close>. \<open>None\<close> is an access outside an array.\<close>

definition sim_main :: "string list \<Rightarrow> (int \<times> int) list \<Rightarrow> (string + string) option" where
  "sim_main argv rs =
     (if length argv \<noteq> 2 then Some (Inl (''Numero incorrecto de parametros.'' @ [CHR 0x0A]))
      else let a = argv ! 1 @ [CHR 0x00] in
      if a ! 0 \<noteq> CHR ''-'' then Some (Inl (''Debe incluir '' @ [CHR 0x27] @ ''-'' @ [CHR 0x27] @ '' seguido de [f|l].'' @ [CHR 0x0A]))
      else if a ! 1 \<noteq> CHR ''f'' \<and> a ! 1 \<noteq> CHR ''l'' then Some (Inl (''Argumento invalido. Usar [f|l]'' @ [CHR 0x0A]))
      else (case correr (if a ! 1 = CHR ''f'' then fifo_paso else lru_paso) rs sim_init of
        Sigue s \<Rightarrow> Some (Inr (imprimir s))
      | Llena s \<Rightarrow> Some (Inr (''Memoria secundaria llena.'' @ [CHR 0x0A] @ imprimir s))
      | Fuera \<Rightarrow> None))"

subsection \<open>Searching\<close>

lemma buscar_Some: "buscar p ms = Some i \<Longrightarrow> i < length ms \<and> ms ! i = p"
  by (auto simp: buscar_def find_Some_iff)

lemma buscar_None: "buscar p ms = None \<longleftrightarrow> p \<notin> set ms"
  by (auto simp: buscar_def find_None_iff in_set_conv_nth)

lemma crear_sel [simp]: "memoriaFisica (crear pid s) = memoriaFisica s" "memoriaSecundaria (crear pid s) = memoriaSecundaria s"
  "indiceRAM (crear pid s) = indiceRAM s" "indiceDISCO (crear pid s) = indiceDISCO s" "tiempo (crear pid s) = tiempo s" "tiempoRAM (crear pid s) = tiempoRAM s"
  by (simp_all add: crear_def Let_def)

lemma anotar_sel [simp]: "memoriaFisica (anotar pid pagina m s) = memoriaFisica s" "memoriaSecundaria (anotar pid pagina m s) = memoriaSecundaria s"
  "indiceRAM (anotar pid pagina m s) = indiceRAM s" "indiceDISCO (anotar pid pagina m s) = indiceDISCO s" "tiempo (anotar pid pagina m s) = tiempo s"
  "tiempoRAM (anotar pid pagina m s) = tiempoRAM s"
  by (simp_all add: anotar_def Let_def)

definition valido :: "int \<times> int \<Rightarrow> bool" where
  "valido r \<longleftrightarrow> en_rango (fst r) MAX_PROCESOS \<and> en_rango (snd r) PAGINAS"

abbreviation pag_de :: "int \<times> int \<Rightarrow> pagina" where
  "pag_de r \<equiv> pag (fst r) (snd r)"

lemma valido_pag: "valido r \<Longrightarrow> pg_pid (pag_de r) \<noteq> -1 \<and> pag_de r \<noteq> vacia"
  by (auto simp: valido_def en_rango_def vacia_def)

subsection \<open>FIFO\<close>

lemma rotate_at:
  assumes "i < length xs"
  shows "rotate i xs = xs ! i # drop (Suc i) xs @ take i xs"
  using assms by (simp add: rotate_drop_take Cons_nth_drop_Suc[symmetric])

lemma rotate_put:
  assumes "i < length xs"
  shows "rotate ((i + 1) mod length xs) (xs[i := p]) = tl (rotate i xs) @ [p]"
proof (cases "Suc i = length xs")
  case True
  then show ?thesis using assms by (simp add: rotate_at upd_conv_take_nth_drop)
next
  case False
  then have "Suc i < length xs" using assms by simp
  then show ?thesis using assms by (simp add: rotate_at rotate_drop_take upd_conv_take_nth_drop take_Suc_conv_app_nth drop_Suc tl_drop)
qed

text \<open>A queue of at most eight pages.\<close>

definition fifo_ref :: "pagina list \<Rightarrow> pagina \<Rightarrow> pagina list" where
  "fifo_ref q p = (if p \<in> set q then q else if length q < MARCOS then q @ [p] else tl q @ [p])"

text \<open>The frames, read from the next one to replace, are the free ones and then the queue. The blocks of secondary storage in use come first.
  \<open>V\<close> is the set of the pages seen.\<close>

definition discos :: "pagina list \<Rightarrow> sim \<Rightarrow> bool" where
  "discos ds s \<longleftrightarrow> length ds \<le> BLOQUES \<and> memoriaSecundaria s = ds @ replicate (BLOQUES - length ds) vacia \<and> indiceDISCO s = length ds mod BLOQUES
     \<and> (\<forall>p\<in>set ds. pg_pid p \<noteq> -1)"

definition cola :: "pagina list \<Rightarrow> sim \<Rightarrow> bool" where
  "cola q s \<longleftrightarrow> length q \<le> MARCOS \<and> length (memoriaFisica s) = MARCOS \<and> indiceRAM s < MARCOS
     \<and> rotate (indiceRAM s) (memoriaFisica s) = replicate (MARCOS - length q) vacia @ q \<and> (\<forall>p\<in>set q. pg_pid p \<noteq> -1)"

definition fifo_inv :: "pagina set \<Rightarrow> pagina list \<Rightarrow> pagina list \<Rightarrow> sim \<Rightarrow> bool" where
  "fifo_inv V q ds s \<longleftrightarrow> cola q s \<and> discos ds s \<and> distinct (q @ ds) \<and> set q \<union> set ds = V \<and> (length q < MARCOS \<longrightarrow> ds = [])"

lemma cola_set:
  assumes "cola q s"
  shows "p \<noteq> vacia \<Longrightarrow> buscar p (memoriaFisica s) = None \<longleftrightarrow> p \<notin> set q" "buscar vacia (memoriaFisica s) = None \<longleftrightarrow> length q = MARCOS"
proof -
  have s: "set (memoriaFisica s) = set (replicate (MARCOS - length q) vacia) \<union> set q"
  proof -
    have "set (memoriaFisica s) = set (rotate (indiceRAM s) (memoriaFisica s))" by simp
    also have "\<dots> = set (replicate (MARCOS - length q) vacia) \<union> set q" using assms by (simp only: cola_def set_append)
    finally show ?thesis .
  qed
  show "p \<noteq> vacia \<Longrightarrow> buscar p (memoriaFisica s) = None \<longleftrightarrow> p \<notin> set q" unfolding buscar_None s by auto
  have "vacia \<notin> set q" using assms by (auto simp: cola_def vacia_def)
  then show "buscar vacia (memoriaFisica s) = None \<longleftrightarrow> length q = MARCOS" unfolding buscar_None s using assms by (auto simp: cola_def)
qed

lemma cola_put:
  assumes "cola q s" "pg_pid p \<noteq> -1" "memoriaFisica s' = (memoriaFisica s)[indiceRAM s := p]" "indiceRAM s' = (indiceRAM s + 1) mod MARCOS" "p \<notin> set q"
  shows "cola (fifo_ref q p) s'"
proof -
  have c: "length (memoriaFisica s) = MARCOS" "indiceRAM s < MARCOS" "length q \<le> MARCOS"
    "rotate (indiceRAM s) (memoriaFisica s) = replicate (MARCOS - length q) vacia @ q" "\<forall>p\<in>set q. pg_pid p \<noteq> -1" using assms(1) by (auto simp: cola_def)
  have "rotate (indiceRAM s') (memoriaFisica s') = tl (replicate (MARCOS - length q) vacia @ q) @ [p]"
    using rotate_put[of "indiceRAM s" "memoriaFisica s" p] c assms(3,4) by simp
  also have "\<dots> = replicate (MARCOS - length (fifo_ref q p)) vacia @ fifo_ref q p"
  proof (cases "length q < MARCOS")
    case True
    then have "MARCOS - length q = Suc (MARCOS - length (q @ [p]))" by simp
    then show ?thesis using True assms(5) by (simp add: fifo_ref_def)
  next
    case False
    then have "length q = MARCOS" using c(3) by simp
    then show ?thesis using assms(5) by (cases q) (simp_all add: fifo_ref_def MEMORIA_FISICA_def TAMANIO_PAGINA_def)
  qed
  finally have r: "rotate (indiceRAM s') (memoriaFisica s') = replicate (MARCOS - length (fifo_ref q p)) vacia @ fifo_ref q p" .
  have "set (fifo_ref q p) \<subseteq> insert p (set q)" by (cases q) (auto simp: fifo_ref_def)
  then have "\<forall>x\<in>set (fifo_ref q p). pg_pid x \<noteq> -1" using c(5) assms(2) by blast
  moreover have "length (fifo_ref q p) \<le> MARCOS" using c(3) by (auto simp: fifo_ref_def MEMORIA_FISICA_def TAMANIO_PAGINA_def)
  ultimately show "cola (fifo_ref q p) s'" using r c(1) assms(3,4) by (simp add: cola_def MEMORIA_FISICA_def TAMANIO_PAGINA_def)
qed

lemma cola_hd: "cola (x # q) s \<Longrightarrow> length (x # q) = MARCOS \<Longrightarrow> memoriaFisica s ! indiceRAM s = x"
  using rotate_at[of "indiceRAM s" "memoriaFisica s"] by (auto simp: cola_def)

lemma discosD:
  assumes "discos ds s"
  shows "length ds \<le> BLOQUES" "memoriaSecundaria s = ds @ replicate (BLOQUES - length ds) vacia" "indiceDISCO s = length ds mod BLOQUES"
    "p \<in> set ds \<Longrightarrow> pg_pid p \<noteq> -1" "p \<noteq> vacia \<Longrightarrow> buscar p (memoriaSecundaria s) = None \<longleftrightarrow> p \<notin> set ds"
  using assms by (auto simp: discos_def buscar_None)

text \<open>With all frames in use, a page that is nowhere replaces the oldest one, which goes to a free block.\<close>

lemma fifo_reemplazo_ok:
  assumes "fifo_inv V (x # q) ds s" "length (x # q) = MARCOS" "p = pag pid pagina" "pg_pid p \<noteq> -1" "p \<notin> V" "card (insert p V) \<le> MARCOS + BLOQUES"
    "en_rango pagina PAGINAS"
  shows "\<exists>s'. fifo_reemplazo pid pagina s = Sigue s' \<and> fifo_inv (insert p V) (q @ [p]) (ds @ [x]) s'"
proof -
  have I: "cola (x # q) s" "discos ds s" "distinct ((x # q) @ ds)" "set (x # q) \<union> set ds = V" using assms(1) by (auto simp: fifo_inv_def)
  note D = discosD[OF I(2)] and h = cola_hd[OF I(1) assms(2)]
  have "card V = MARCOS + length ds" using I(3,4) assms(2) distinct_card[of "(x # q) @ ds"] by simp
  moreover have "card (insert p V) = Suc (card V)" using I(4) assms(5) by (intro card_insert_disjoint) auto
  ultimately have lt: "length ds < BLOQUES" using assms(6) by simp
  define s' where "s' = (anotar pid pagina (indiceRAM s) s)\<lparr>memoriaSecundaria := (memoriaSecundaria s)[length ds := x], indiceDISCO := (length ds + 1) mod BLOQUES,
    memoriaFisica := (memoriaFisica s)[indiceRAM s := p], indiceRAM := (indiceRAM s + 1) mod MARCOS\<rparr>"
  have "fifo_reemplazo pid pagina s = Sigue s'" using D lt h assms(3,7) by (simp add: fifo_reemplazo_def s'_def nth_append vacia_def)
  moreover have "fifo_ref (x # q) p = q @ [p]" using assms(2,5) I(4) by (auto simp: fifo_ref_def)
  then have "cola (q @ [p]) s'" using cola_put[OF I(1) assms(4), of s'] assms(5) I(4) by (auto simp: s'_def)
  moreover have "replicate (BLOQUES - length ds) vacia = vacia # replicate (BLOQUES - Suc (length ds)) vacia" using lt by (simp flip: Suc_diff_Suc)
  then have "discos (ds @ [x]) s'" using D lt I(1) by (auto simp: discos_def s'_def list_update_append cola_def)
  ultimately show ?thesis using I(3,4) assms(2,5) by (intro exI[of _ s']) (auto simp: fifo_inv_def)
qed

text \<open>A page of secondary storage changes places with the oldest one.\<close>

lemma fifo_intercambio_ok:
  assumes "fifo_inv V (x # q) ds s" "length (x # q) = MARCOS" "p = pag pid pagina" "pg_pid p \<noteq> -1" "p \<notin> set (x # q)"
    "buscar p (memoriaSecundaria s) = Some d" "en_rango pagina PAGINAS" "p \<noteq> vacia"
  shows "\<exists>s'. fifo_intercambio pid pagina d s = Sigue s' \<and> fifo_inv V (q @ [p]) (ds[d := x]) s' \<and> p \<in> V"
proof -
  have I: "cola (x # q) s" "discos ds s" "distinct ((x # q) @ ds)" "set (x # q) \<union> set ds = V" using assms(1) by (auto simp: fifo_inv_def)
  note D = discosD[OF I(2)] and h = cola_hd[OF I(1) assms(2)] and b = buscar_Some[OF assms(6)]
  have d: "d < length ds" "ds ! d = p" using b D(2) assms(8) by (auto simp: nth_append split: if_splits)
  define s' where "s' = (anotar pid pagina (indiceRAM s) s)\<lparr>memoriaSecundaria := (memoriaSecundaria s)[d := x],
    memoriaFisica := (memoriaFisica s)[indiceRAM s := p], indiceRAM := (indiceRAM s + 1) mod MARCOS\<rparr>"
  have "fifo_intercambio pid pagina d s = Sigue s'" using h b assms(7) by (simp add: fifo_intercambio_def s'_def)
  moreover have "fifo_ref (x # q) p = q @ [p]" using assms(2,5) by (auto simp: fifo_ref_def)
  then have "cola (q @ [p]) s'" using cola_put[OF I(1) assms(4), of s'] assms(5) by (auto simp: s'_def)
  moreover have "\<forall>y\<in>set (ds[d := x]). pg_pid y \<noteq> -1" using D(4) I(1) set_update_subset_insert[of ds d x] by (auto simp: cola_def)
  then have "discos (ds[d := x]) s'" using D d(1) by (auto simp: discos_def s'_def list_update_append)
  moreover have "set (ds[d := x]) = insert x (set ds - {p})" "distinct (ds[d := x])"
    using I(3) d set_update_distinct[of ds d x] by (auto simp: distinct_list_update)
  moreover have "p \<in> set ds" using d by auto
  ultimately show ?thesis using I(3,4) assms(2,5) by (intro exI[of _ s']) (auto simp: fifo_inv_def)
qed

lemma fifo_carga_ok:
  assumes "fifo_inv V q ds s" "length q < MARCOS" "p = pag pid pagina" "pg_pid p \<noteq> -1" "p \<notin> set q" "en_rango pagina PAGINAS"
  shows "\<exists>s'. fifo_carga pid pagina s = Sigue s' \<and> fifo_inv (insert p V) (q @ [p]) [] s'"
proof -
  have I: "cola q s" "discos ds s" "distinct (q @ ds)" "set q \<union> set ds = V" "ds = []" using assms(1,2) by (auto simp: fifo_inv_def)
  define s' where "s' = (anotar pid pagina (indiceRAM s) s)\<lparr>memoriaFisica := (memoriaFisica s)[indiceRAM s := p], indiceRAM := (indiceRAM s + 1) mod MARCOS\<rparr>"
  have "fifo_carga pid pagina s = Sigue s'" using assms(3,6) by (simp add: fifo_carga_def s'_def)
  moreover have "cola (q @ [p]) s'" using cola_put[OF I(1) assms(4), of s'] assms(2,5) by (auto simp: s'_def fifo_ref_def)
  moreover have "discos [] s'" using I(2,5) by (simp add: discos_def s'_def)
  ultimately show ?thesis using I(3-5) assms(5) by (intro exI[of _ s']) (auto simp: fifo_inv_def)
qed

lemma MARCOS_pos: "0 < MARCOS" "MARCOS = 8" "BLOQUES = 16" "PAGINAS = 16"
  by (simp_all add: MEMORIA_FISICA_def TAMANIO_PAGINA_def ALMACENAMIENTO_SECUNDARIO_def MEMORIA_VIRTUAL_def)

lemma fifo_paso_ok:
  assumes "fifo_inv V q ds s" "valido r" "card (insert (pag_de r) V) \<le> MARCOS + BLOQUES"
  shows "\<exists>s' ds'. fifo_paso r s = Sigue s' \<and> fifo_inv (insert (pag_de r) V) (fifo_ref q (pag_de r)) ds' s'"
proof -
  obtain pid pagina where r: "r = (pid, pagina)" by (cases r)
  let ?p = "pag pid pagina" and ?s = "crear pid s"
  have R: "en_rango pid MAX_PROCESOS" "en_rango pagina PAGINAS" "pg_pid ?p \<noteq> -1" "?p \<noteq> vacia" using assms(2) valido_pag[OF assms(2)] by (auto simp: r valido_def)
  have J: "fifo_inv V q ds ?s" using assms(1) by (simp add: fifo_inv_def cola_def discos_def)
  then have I: "cola q ?s" "discos ds ?s" "distinct (q @ ds)" "set q \<union> set ds = V" "length q < MARCOS \<Longrightarrow> ds = []" by (auto simp: fifo_inv_def)
  note C = cola_set[OF I(1)] and D = discosD(5)[OF I(2) R(4)]
  have st: "fifo_paso r s = (case buscar ?p (memoriaFisica ?s) of Some _ \<Rightarrow> Sigue ?s | None \<Rightarrow> (case buscar ?p (memoriaSecundaria ?s) of
      None \<Rightarrow> if buscar vacia (memoriaFisica ?s) \<noteq> None then fifo_carga pid pagina ?s else fifo_reemplazo pid pagina ?s
    | Some d \<Rightarrow> if buscar vacia (memoriaFisica ?s) \<noteq> None then Sigue ?s else fifo_intercambio pid pagina d ?s))"
    unfolding fifo_paso_def r Let_def prod.case using R(1) by (simp only: if_False simp_thms)
  have "length q \<le> MARCOS" using I(1) by (simp add: cola_def)
  then consider (hit) "?p \<in> set q" | (carga) "?p \<notin> set q" "length q < MARCOS" | (llena) x q' where "?p \<notin> set q" "q = x # q'" "length (x # q') = MARCOS"
    by (metis le_neq_implies_less list.exhaust_sel list.size(3) MARCOS_pos not_less0)
  then show ?thesis
  proof cases
    case hit
    then have "fifo_inv (insert ?p V) (fifo_ref q ?p) ds ?s" using J I(4) by (auto simp: fifo_ref_def insert_absorb)
    then show ?thesis using st C(1)[OF R(4)] hit by (auto simp: r)
  next
    case carga
    then show ?thesis using fifo_carga_ok[OF J carga(2) refl R(3) carga(1) R(2)] st C(1)[OF R(4)] C(2) D I(5) by (auto simp: r fifo_ref_def)
  next
    case llena
    then have v: "fifo_ref q ?p = q' @ [?p]" "buscar ?p (memoriaFisica ?s) = None" "buscar vacia (memoriaFisica ?s) = None"
      using C(1)[OF R(4)] C(2) by (auto simp: fifo_ref_def)
    show ?thesis
    proof (cases "buscar ?p (memoriaSecundaria ?s)")
      case None
      then have "?p \<notin> V" using D I(4) llena(1) by auto
      then show ?thesis using fifo_reemplazo_ok[OF J[unfolded llena(2)] llena(3) refl R(3) _ _ R(2)] assms(3) st v None by (auto simp: r)
    next
      case (Some d)
      then show ?thesis using fifo_intercambio_ok[OF J[unfolded llena(2)] llena(3) refl R(3) _ Some R(2,4)] st v llena(1,2) by (auto simp: r insert_absorb)
    qed
  qed
qed

text \<open>C29. On any input of valid requests with at most 24 different pages, the FIFO simulation reads the whole input. At the end the frames, read from the
  next one to replace, hold exactly the queue that a FIFO of eight pages gives for the input (after the frames still free); frames and
  secondary storage together hold every page of the input once.\<close>

theorem fifo_refines_queue:
  assumes "\<forall>r\<in>set rs. valido r" "card (pag_de ` set rs) \<le> 24"
  shows "\<exists>s. correr fifo_paso rs sim_init = Sigue s
    \<and> filter (\<lambda>p. p \<noteq> vacia) (rotate (indiceRAM s) (memoriaFisica s)) = foldl fifo_ref [] (map pag_de rs)
    \<and> (let ps = filter (\<lambda>p. p \<noteq> vacia) (memoriaFisica s @ memoriaSecundaria s) in distinct ps \<and> set ps = pag_de ` set rs)"
proof -
  have run: "\<exists>s' ds'. correr fifo_paso rs s = Sigue s' \<and> fifo_inv (V \<union> pag_de ` set rs) (foldl fifo_ref q (map pag_de rs)) ds' s'"
    if "\<forall>r\<in>set rs. valido r" "card (V \<union> pag_de ` set rs) \<le> 24" "fifo_inv V q ds s" "finite V" for V q ds s
    using that
  proof (induction rs arbitrary: V q ds s)
    case (Cons r rs)
    have "card (insert (pag_de r) V) \<le> card (V \<union> pag_de ` set (r # rs))" using Cons.prems(4) by (intro card_mono) auto
    then have "card (insert (pag_de r) V) \<le> MARCOS + BLOQUES" using Cons.prems(2) by (simp add: MEMORIA_FISICA_def TAMANIO_PAGINA_def ALMACENAMIENTO_SECUNDARIO_def)
    then obtain s1 ds1 where 1: "fifo_paso r s = Sigue s1" "fifo_inv (insert (pag_de r) V) (fifo_ref q (pag_de r)) ds1 s1"
      using fifo_paso_ok[OF Cons.prems(3)] Cons.prems(1) by (metis list.set_intros(1))
    then show ?case using Cons.IH[OF _ _ 1(2)] Cons.prems(1,2,4) by simp
  qed auto
  have "fifo_inv {} [] [] sim_init" by (simp add: fifo_inv_def cola_def discos_def sim_init_def MEMORIA_FISICA_def TAMANIO_PAGINA_def)
  then obtain s ds where s: "correr fifo_paso rs sim_init = Sigue s" "fifo_inv (pag_de ` set rs) (foldl fifo_ref [] (map pag_de rs)) ds s"
    using run[of "{}" "[]" "[]" sim_init] assms by auto
  define q where "q = foldl fifo_ref [] (map pag_de rs)"
  have I: "cola q s" "discos ds s" "distinct (q @ ds)" "set q \<union> set ds = pag_de ` set rs" using s(2) by (auto simp: fifo_inv_def q_def)
  have v: "vacia \<notin> set q" "vacia \<notin> set ds" using I(1,2) by (auto simp: cola_def discos_def vacia_def)
  have f: "filter (\<lambda>p. p \<noteq> vacia) (rotate (indiceRAM s) (memoriaFisica s)) = q"
  proof -
    have "filter (\<lambda>p. p \<noteq> vacia) (rotate (indiceRAM s) (memoriaFisica s)) = filter (\<lambda>p. p \<noteq> vacia) (replicate (MARCOS - length q) vacia @ q)"
      using I(1) by (simp only: cola_def)
    also have "\<dots> = q" using v(1) by (auto simp: filter_id_conv)
    finally show ?thesis .
  qed
  have g: "filter (\<lambda>p. p \<noteq> vacia) (memoriaSecundaria s) = ds" using I(2) v(2) by (auto simp: discos_def filter_id_conv)
  define a b where "a = filter (\<lambda>p. p \<noteq> vacia) (take (indiceRAM s) (memoriaFisica s))" and "b = filter (\<lambda>p. p \<noteq> vacia) (drop (indiceRAM s) (memoriaFisica s))"
  have ab: "filter (\<lambda>p. p \<noteq> vacia) (memoriaFisica s) = a @ b" unfolding a_def b_def filter_append[symmetric] by simp
  have ba: "q = b @ a" using f I(1) by (simp add: a_def b_def rotate_drop_take cola_def)
  have "distinct ((a @ b) @ ds) \<and> set ((a @ b) @ ds) = pag_de ` set rs" using I(3,4) unfolding ba by auto
  then show ?thesis using s(1) f ab g unfolding q_def Let_def filter_append by (intro exI[of _ s]) simp
qed

theorem fifo_refines_queue_witness:
  "\<exists>s. correr fifo_paso [(1, 1), (1, 2), (1, 3), (1, 4), (1, 5), (1, 6), (1, 7), (1, 8), (1, 1), (2, 9)] sim_init = Sigue s
    \<and> filter (\<lambda>p. p \<noteq> vacia) (rotate (indiceRAM s) (memoriaFisica s)) = [pag 1 2, pag 1 3, pag 1 4, pag 1 5, pag 1 6, pag 1 7, pag 1 8, pag 2 9]"
proof -
  let ?rs = "[(1, 1), (1, 2), (1, 3), (1, 4), (1, 5), (1, 6), (1, 7), (1, 8), (1, 1), (2, 9)] :: (int \<times> int) list"
  have v: "\<forall>r\<in>set ?rs. valido r" by (simp add: valido_def en_rango_def MAX_PROCESOS_def MEMORIA_VIRTUAL_def TAMANIO_PAGINA_def)
  have "card (pag_de ` set ?rs) \<le> card (set ?rs)" by (rule card_image_le) simp
  also have "\<dots> \<le> length ?rs" by (rule card_length)
  finally have c: "card (pag_de ` set ?rs) \<le> 24" by simp
  have "foldl fifo_ref [] (map pag_de ?rs) = [pag 1 2, pag 1 3, pag 1 4, pag 1 5, pag 1 6, pag 1 7, pag 1 8, pag 2 9]" by code_simp
  then show ?thesis using fifo_refines_queue[OF v c] by auto
qed

subsection \<open>LRU\<close>

lemma maximo_ge: "j < length ts \<Longrightarrow> ts ! j \<le> maximo ts"
proof -
  have g: "m \<le> foldl (\<lambda>m t. if t > m then t else m) m xs \<and> (\<forall>t\<in>set xs. t \<le> foldl (\<lambda>m t. if t > m then t else m) m xs)" for m :: int and xs
  proof (induction xs arbitrary: m)
    case (Cons x xs)
    show ?case using Cons[of m] Cons[of x] by (cases "x > m") auto
  qed simp
  show "j < length ts \<Longrightarrow> ts ! j \<le> maximo ts" using g[where m = "ts ! 0" and xs = ts] by (simp add: maximo_def)
qed

lemma indiceMinimo_le:
  assumes "ts \<noteq> []"
  shows "indiceMinimo ts < length ts" "j < length ts \<Longrightarrow> ts ! indiceMinimo ts \<le> ts ! j"
proof -
  let ?f = "\<lambda>(m, k) i. if ts ! i < m then (ts ! i, i) else (m, k)"
  have "\<exists>k. foldl ?f (ts ! 0, 0) [0..<n] = (ts ! k, k) \<and> k < length ts \<and> (\<forall>j<n. ts ! k \<le> ts ! j)" if "n \<le> length ts" for n
    using that
  proof (induction n)
    case (Suc n)
    then obtain k where k: "foldl ?f (ts ! 0, 0) [0..<n] = (ts ! k, k)" "k < length ts" "\<forall>j<n. ts ! k \<le> ts ! j" by auto
    show ?case
    proof (cases "ts ! n < ts ! k")
      case True
      then have "\<forall>j<Suc n. ts ! n \<le> ts ! j" using k(3) by (force simp: less_Suc_eq)
      then show ?thesis using True k(1) Suc.prems by (intro exI[of _ n]) simp
    next
      case False
      then have "\<forall>j<Suc n. ts ! k \<le> ts ! j" using k(3) by (simp add: less_Suc_eq)
      then show ?thesis using False k(1,2) by (intro exI[of _ k]) simp
    qed
  qed (use assms in auto)
  from this[OF order_refl] obtain k where "indiceMinimo ts = k" "k < length ts" "\<forall>j<length ts. ts ! k \<le> ts ! j" unfolding indiceMinimo_def by auto
  then show "indiceMinimo ts < length ts" "j < length ts \<Longrightarrow> ts ! indiceMinimo ts \<le> ts ! j" by auto
qed

text \<open>The reference: pages in the order of their last use.\<close>

definition lru_ref :: "pagina list \<Rightarrow> pagina \<Rightarrow> pagina list" where
  "lru_ref q p = (if p \<in> set q then filter (\<lambda>x. x \<noteq> p) q @ [p] else if length q < MARCOS then q @ [p] else tl q @ [p])"

text \<open>All frames are in use, and their stamps order them as in \<open>F\<close>, the least recently used first.\<close>

definition orden :: "nat list \<Rightarrow> sim \<Rightarrow> bool" where
  "orden F s \<longleftrightarrow> length (memoriaFisica s) = MARCOS \<and> length (tiempoRAM s) = MARCOS \<and> distinct F \<and> set F = {0..<MARCOS}
     \<and> sorted_wrt (<) (map ((!) (tiempoRAM s)) F) \<and> distinct (memoriaFisica s) \<and> vacia \<notin> set (memoriaFisica s)
     \<and> length (memoriaSecundaria s) = BLOQUES \<and> indiceDISCO s < BLOQUES"

abbreviation recientes :: "nat list \<Rightarrow> sim \<Rightarrow> pagina list" where
  "recientes F s \<equiv> map ((!) (memoriaFisica s)) F"

lemma orden_min:
  assumes "orden (i # F) s"
  shows "indiceMinimo (tiempoRAM s) = i"
proof -
  have o: "length (tiempoRAM s) = MARCOS" "set (i # F) = {0..<MARCOS}" "\<forall>j\<in>set F. tiempoRAM s ! i < tiempoRAM s ! j" using assms by (auto simp: orden_def)
  then have "tiempoRAM s \<noteq> []" using MARCOS_pos(1) by (metis less_irrefl list.size(3))
  note m = indiceMinimo_le[OF this]
  have "i < MARCOS" "indiceMinimo (tiempoRAM s) \<in> set (i # F)" using o(2) m(1) o(1) by auto
  then show ?thesis using o(1,3) m(2)[of i] by auto
qed

text \<open>A frame used now goes to the end.\<close>

lemma orden_usar:
  assumes "orden F s" "i < MARCOS" "memoriaFisica s' = (memoriaFisica s)[i := p]" "p \<noteq> vacia" "p = memoriaFisica s ! i \<or> p \<notin> set (memoriaFisica s)"
    "tiempoRAM s' = map (\<lambda>t. t + c) ((tiempoRAM s)[i := maximo (tiempoRAM s) + 1])" "length (memoriaSecundaria s') = BLOQUES" "indiceDISCO s' < BLOQUES"
  shows "orden (filter (\<lambda>j. j \<noteq> i) F @ [i]) s'" "recientes (filter (\<lambda>j. j \<noteq> i) F @ [i]) s' = recientes (filter (\<lambda>j. j \<noteq> i) F) s @ [p]"
proof -
  have o: "length (memoriaFisica s) = MARCOS" "length (tiempoRAM s) = MARCOS" "distinct F" "set F = {0..<MARCOS}" "sorted_wrt (<) (map ((!) (tiempoRAM s)) F)"
    "distinct (memoriaFisica s)" "vacia \<notin> set (memoriaFisica s)" using assms(1) by (auto simp: orden_def)
  let ?F = "filter (\<lambda>j. j \<noteq> i) F"
  have t: "tiempoRAM s' ! j = (if j = i then maximo (tiempoRAM s) + 1 + c else tiempoRAM s ! j + c)" if "j < MARCOS" for j using that o(2) assms(6) by simp
  have "sorted_wrt (\<lambda>j k. tiempoRAM s ! j < tiempoRAM s ! k) ?F" using o(5) by (simp add: sorted_wrt_map sorted_wrt_filter)
  then have "sorted_wrt (\<lambda>j k. tiempoRAM s' ! j < tiempoRAM s' ! k) ?F"
    by (rule sorted_wrt_mono_rel[rotated]) (use t o(4) in auto)
  moreover have "tiempoRAM s' ! j < tiempoRAM s' ! i" if "j \<in> set ?F" for j
    using that t[of j] t[OF assms(2)] maximo_ge[of j "tiempoRAM s"] o(2,4) by auto
  ultimately have "sorted_wrt (<) (map ((!) (tiempoRAM s')) (?F @ [i]))" by (simp add: sorted_wrt_append sorted_wrt_map)
  moreover have "distinct (memoriaFisica s')" using o(1,6) assms(2,3,5) by (auto simp: distinct_list_update)
  moreover have "vacia \<notin> set (memoriaFisica s')" using o(7) assms(3,4) set_update_subset_insert[of "memoriaFisica s" i p] by auto
  moreover have "distinct (?F @ [i])" using o(3) by simp
  moreover have "set (?F @ [i]) = insert i (set F)" by auto
  then have "set (?F @ [i]) = {0..<MARCOS}" unfolding o(4) using assms(2) by (simp add: insert_absorb)
  moreover have "length (memoriaFisica s') = MARCOS" "length (tiempoRAM s') = MARCOS" using o(1,2) assms(3,6) by simp_all
  ultimately show "orden (?F @ [i]) s'" using assms(7,8) unfolding orden_def by blast
  have "memoriaFisica s' ! j = memoriaFisica s ! j" if "j \<in> set ?F" for j using that assms(3) by simp
  then show "recientes (?F @ [i]) s' = recientes ?F s @ [p]" using assms(2,3) o(1) by simp
qed

lemma orden_at:
  assumes "orden F s"
  shows "p \<in> set (recientes F s) \<longleftrightarrow> p \<in> set (memoriaFisica s)" "length F = MARCOS"
    "i < MARCOS \<Longrightarrow> recientes (filter (\<lambda>j. j \<noteq> i) F) s = filter (\<lambda>x. x \<noteq> memoriaFisica s ! i) (recientes F s)"
proof -
  have o: "length (memoriaFisica s) = MARCOS" "distinct F" "set F = {0..<MARCOS}" "distinct (memoriaFisica s)" using assms by (auto simp: orden_def)
  show "p \<in> set (recientes F s) \<longleftrightarrow> p \<in> set (memoriaFisica s)" using o(1,3) by (auto simp: in_set_conv_nth)
  show "length F = MARCOS" using distinct_card[OF o(2)] o(3) by simp
  assume i: "i < MARCOS"
  have "memoriaFisica s ! j = memoriaFisica s ! i \<longleftrightarrow> j = i" if "j \<in> set F" for j using that o(1,3,4) i by (simp add: nth_eq_iff_index_eq)
  then have "filter (\<lambda>j. memoriaFisica s ! j \<noteq> memoriaFisica s ! i) F = filter (\<lambda>j. j \<noteq> i) F" by (intro filter_cong) auto
  then show "recientes (filter (\<lambda>j. j \<noteq> i) F) s = filter (\<lambda>x. x \<noteq> memoriaFisica s ! i) (recientes F s)" by (simp add: filter_map o_def)
qed


text \<open>Eight pages of process 1 fill the frames.\<close>

definition sample_llena :: sim where
  "sample_llena = (case correr lru_paso [(1, 1), (1, 2), (1, 3), (1, 4), (1, 5), (1, 6), (1, 7), (1, 8)] sim_init of Sigue s \<Rightarrow> s | _ \<Rightarrow> sim_init)"

lemma sample_llena_sel: "memoriaFisica sample_llena = map (pag 1) [1, 2, 3, 4, 5, 6, 7, 8]" "tiempoRAM sample_llena = [0, 1, 2, 3, 4, 5, 6, 7]"
  "length (memoriaSecundaria sample_llena) = 16" "indiceDISCO sample_llena = 0"
  by code_simp+


subsection \<open>Inputs on which the simulation departs from LRU and from its page tables\<close>


text \<open>The page table of a process keeps the frame of a page that has been replaced: the table says that page 1 is in frame 1, which holds page 9.\<close>

lemma tabla_not_cleared:
  "case correr fifo_paso [(1, 1), (1, 2), (1, 3), (1, 4), (1, 5), (1, 6), (1, 7), (1, 8), (1, 9)] sim_init of
     Sigue s \<Rightarrow> take 9 (tabla_paginas (procesos s ! 0)) = [1, 2, 3, 4, 5, 6, 7, 8, 1] \<and> memoriaFisica s ! 0 = pag 1 9
   | _ \<Rightarrow> False"
  by code_simp

text \<open>The example of the exercise.\<close>

lemma sim_main_example:
  "sim_main [''sim'', ''-f''] [(1, 3), (1, 9), (1, 3), (2, 1)] = Some (Inr (
     ''Proceso 1: - - 1 - - - - - 2 - - - - - - - '' @ [CHR 0x0A] @ ''Proceso 2: 3 - - - - - - - - - - - - - - - '' @ [CHR 0x0A] @
     ''Memoria fisica: 1.3 1.9 2.1 - - - - - '' @ [CHR 0x0A] @ ''Memoria secundaria: - - - - - - - - - - - - - - - - '' @ [CHR 0x0A]))"
  by code_simp

end
