(* ===== verification/Spec2Isabelle.thy ===== *)
theory Spec2Isabelle
  imports Xv6_Prelude Cstring Spinlock Sched Sleep_Wakeup Kalloc Vm Bio Log Log_Crash Fs Fs_Blocks Fs_Files Fs_Dirs Kernel_State Console Kbd File Proc Exec Sysfile Trap Sh Sh_Props Grep Sim
begin

text \<open>
  A verification library for the operating system course repository under \<^verbatim>\<open>src\<close>: the xv6 kernel and user programs of
  \<^verbatim>\<open>src/xv6\<close>, as extended in the exercises (system calls \<^verbatim>\<open>trace\<close>, \<^verbatim>\<open>getppid\<close>, \<^verbatim>\<open>pgcnt\<close>, \<^verbatim>\<open>pscnt\<close>, \<^verbatim>\<open>answer\<close>), and the paging
  simulator of \<^verbatim>\<open>src/lab-07\<close>.

  \<^bold>\<open>The program and its parts.\<close> A trap enters \<^verbatim>\<open>trap\<close>, which dispatches device interrupts and system calls. System calls fetch
  their arguments from user memory through the page table, then work on processes (\<^verbatim>\<open>proc.c\<close>), address spaces (\<^verbatim>\<open>vm.c\<close> on top of the
  page allocator \<^verbatim>\<open>kalloc.c\<close>) or files. Files are pipes, devices or inodes; the inode layer (\<^verbatim>\<open>fs.c\<close>) changes disk blocks only through the
  redo log (\<^verbatim>\<open>log.c\<close>), which sits on the buffer cache (\<^verbatim>\<open>bio.c\<close>), which sits on the disk (\<^verbatim>\<open>memide.c\<close>). Spin locks, sleep locks, \<^verbatim>\<open>sleep\<close> and
  \<^verbatim>\<open>wakeup\<close> order all of it. User programs (the shell, \<^verbatim>\<open>grep\<close>, the simulator) only see the system calls.

  \<^bold>\<open>State and effects.\<close> The kernel's state is one record that grows along the imports: \<open>kbase\<close> (held locks), \<open>ksched\<close> (process
  table), \<open>kmem\<close> (physical memory and free list), \<open>kvm\<close> (registers), \<open>kbio\<close> (disk and buffer cache), \<open>klog\<close> (log), \<open>kfs\<close> (inode
  cache), \<open>kernel\<close> (console, open files, pipes, clock). A kernel routine maps a state to \<open>Ok\<close> with a result and a new state, \<open>Panic\<close> with the
  message, or \<open>Blocked\<close> when it has called \<^verbatim>\<open>sched\<close>; what it does when it is switched to again is a definition of its own (names
  ending in \<open>_wake\<close> or \<open>_loop\<close>). Words of 8, 16 and 32 bits are words; C's \<^verbatim>\<open>int\<close> is a signed value where it is only compared or returned.

  \<^bold>\<open>Theories.\<close>

  \<^item> \<open>Xv6_Prelude\<close>: words, the outcome monad with its rules, the constants of \<^verbatim>\<open>param.h\<close> and \<^verbatim>\<open>fs.h\<close>, little-endian memory.
  \<^item> \<open>Cstring\<close>: \<^verbatim>\<open>string.c\<close>, the string routines of \<^verbatim>\<open>ulib.c\<close> and the string instructions of \<^verbatim>\<open>x86.h\<close> on a flat byte memory, against
    simultaneous copies and fills.
  \<^item> \<open>Spinlock\<close>: \<^verbatim>\<open>spinlock.c\<close> on a machine of several processors; mutual exclusion over all interleavings. Locale \<open>lock_api\<close> is what the
    rest of the kernel relies on; it holds of the concrete locks and of the lock sets used elsewhere.
  \<^item> \<open>Sched\<close>, \<open>Sleep_Wakeup\<close>: the scheduler, \<^verbatim>\<open>sleep\<close>, \<^verbatim>\<open>wakeup\<close>, \<^verbatim>\<open>kill\<close> of \<^verbatim>\<open>proc.c\<close>, and \<^verbatim>\<open>sleeplock.c\<close>; bounded waiting, no lost
    wakeup. Locale \<open>sleeplock_place\<close> is interpreted for the locks in buffers.
  \<^item> \<open>Kalloc\<close>, \<open>Vm\<close>: \<^verbatim>\<open>kalloc.c\<close> and \<^verbatim>\<open>vm.c\<close> on physical frames; the free list threaded through the pages, two-level page tables,
    growing an address space, \<^verbatim>\<open>copyout\<close>. Locale \<open>page_allocator\<close> is the interface between them.
  \<^item> \<open>Bio\<close>, \<open>Log\<close>, \<open>Log_Crash\<close>: \<^verbatim>\<open>memide.c\<close>, \<^verbatim>\<open>bio.c\<close>, \<^verbatim>\<open>log.c\<close>; the doubly linked recency list, coherence of the cache, atomicity of
    commits under crashes at any disk write, durability, admission.
  \<^item> \<open>Fs\<close>: all of \<^verbatim>\<open>fs.c\<close>. \<open>Fs_Blocks\<close>: reading and changing blocks inside a transaction with a log budget (\<open>tr\<close>), the allocator.
    \<open>Fs_Files\<close>: \<^verbatim>\<open>bmap\<close>, \<^verbatim>\<open>readi\<close>, \<^verbatim>\<open>writei\<close> refine operations on a list of bytes. \<open>Fs_Dirs\<close>: the inode cache, directory entries, path names.
  \<^item> \<open>Kernel_State\<close>, \<open>Console\<close>, \<open>Kbd\<close>: the rest of the state, the console and keyboard. Locale \<open>ring\<close> is the circular buffer with
    free-running indices, interpreted for the console input and for pipes.
  \<^item> \<open>File\<close>, \<open>Proc\<close>, \<open>Exec\<close>, \<open>Sysfile\<close>, \<open>Trap\<close>: \<^verbatim>\<open>file.c\<close>, \<^verbatim>\<open>pipe.c\<close>, process creation and exit of \<^verbatim>\<open>proc.c\<close>, \<^verbatim>\<open>exec.c\<close>, \<^verbatim>\<open>sysfile.c\<close>, \<^verbatim>\<open>syscall.c\<close>,
    \<^verbatim>\<open>sysproc.c\<close>, \<^verbatim>\<open>trap.c\<close>.
  \<^item> \<open>Sh\<close>, \<open>Sh_Props\<close>: the shell \<^verbatim>\<open>sh.c\<close>, its parser and the system calls a command makes. \<open>Grep\<close>: \<^verbatim>\<open>grep.c\<close>. \<open>Sim\<close>: \<^verbatim>\<open>src/lab-07/sim.c\<close>.

  \<^bold>\<open>Bounds and fuel.\<close> Loops over arrays recurse on the number of elements left, so they are exact. \<^verbatim>\<open>bget\<close> walks at most \<open>NBUF\<close> buffers, all there
  are. The recursive descent of the shell has fuel linear in the line; \<open>parsecmd_total\<close> shows that it is never used up. The loop of \<^verbatim>\<open>grep\<close>
  has one round for each byte and chunk of the input, which \<open>grep_prints_matching_lines\<close> shows to be enough. \<^verbatim>\<open>filewrite\<close> and \<^verbatim>\<open>namex\<close> recurse on the
  bytes and path bytes left, which every round reduces. Retry loops that wait for another thread (\<^verbatim>\<open>acquire\<close>, \<^verbatim>\<open>sleep\<close>) are steps of an
  interleaving relation or the outcome \<open>Blocked\<close>.

  \<^bold>\<open>Not modelled.\<close>

  \<^item> Assembly and its data: \<^verbatim>\<open>entry.S\<close>, \<^verbatim>\<open>entryother.S\<close>, \<^verbatim>\<open>bootasm.S\<close>, \<^verbatim>\<open>swtch.S\<close>, \<^verbatim>\<open>trapasm.S\<close>, \<^verbatim>\<open>initcode.S\<close>, \<^verbatim>\<open>usys.S\<close>, \<^verbatim>\<open>uthread_switch.S\<close>: a switch is the boundary between two
    definitions.
  \<^item> Programming of devices, whose effect is outside the modelled state: \<^verbatim>\<open>lapic.c\<close>, \<^verbatim>\<open>ioapic.c\<close>, \<^verbatim>\<open>picirq.c\<close>, \<^verbatim>\<open>ide.c\<close> (the build with the
    memory disk uses \<^verbatim>\<open>memide.c\<close>), \<^verbatim>\<open>mp.c\<close>, \<^verbatim>\<open>bootmain.c\<close>, \<^verbatim>\<open>main.c\<close>, \<^verbatim>\<open>uartinit\<close>, \<^verbatim>\<open>seginit\<close>, \<^verbatim>\<open>tvinit\<close>, \<^verbatim>\<open>idtinit\<close>.
  \<^item> Test programs and small clients of the system calls: \<^verbatim>\<open>usertests.c\<close>, \<^verbatim>\<open>forktest.c\<close>, \<^verbatim>\<open>stressfs.c\<close>, \<^verbatim>\<open>ls.c\<close>, \<^verbatim>\<open>cat.c\<close>, \<^verbatim>\<open>wc.c\<close> and the like; they are sequences of
    calls whose effect is that of the modelled calls.
  \<^item> \<^verbatim>\<open>mkfs.c\<close>, which runs on the host. The exercises that rest on POSIX threads, semaphores, signals or message queues
    (\<^verbatim>\<open>src/lab-03\<close> to \<^verbatim>\<open>src/lab-05\<close>): the behaviour under test is that of the host's library.
  \<^item> Debugging output (\<^verbatim>\<open>procdump\<close>, messages of \<^verbatim>\<open>iinit\<close>).
\<close>

end
